(* ===== verification/Prelude.thy ===== *)
theory Prelude
  imports Main "HOL-Library.Word" "HOL-Library.Multiset" "HOL-Library.Signed_Division"
begin

text \<open>
  What every component of the development shares: bytes and memory blocks, the
  outcome of code that can crash, the error codes of the networking library, and
  the generic facts on lists and memory blocks that the component proofs use.

  \<^item> \<open>'a outcome\<close> is the result of code that either returns (\<open>Ok\<close>), runs into behaviour
    that the C++ leaves undefined or aborts on (\<open>Fault\<close>), or needs more fuel (\<open>Fuel\<close>).
  \<^item> \<open>'a result\<close> is the result of an operation with the convention of llbc: it returns
    LLBC_OK, or it sets the thread's last error and returns LLBC_FAILED.
  \<^item> \<open>mem_write\<close> and \<open>mem_read\<close> are \<open>memcpy\<close> into and out of a block of memory.
\<close>

type_synonym byte = "8 word"

datatype fault =
    NullDeref        \<comment> \<open>a member access through a null pointer\<close>
  | OutOfBounds      \<comment> \<open>a read or write outside the block\<close>
  | AssertFail       \<comment> \<open>an ASSERT that does not hold\<close>
  | UseAfterFree     \<comment> \<open>an access to a deleted object\<close>
  | CallStackFull    \<comment> \<open>a 129th nested co_resume\<close>
  | DeadContext      \<comment> \<open>a switch into a coroutine that has ended\<close>

datatype 'a outcome = Ok 'a | Fault fault | Fuel

primrec obind :: "'a outcome \<Rightarrow> ('a \<Rightarrow> 'b outcome) \<Rightarrow> 'b outcome" where
  "obind (Ok x) f = f x"
| "obind (Fault e) f = Fault e"
| "obind Fuel f = Fuel"

text \<open>The error codes of llbc/common/Errno.h that the modelled code sets.\<close>

datatype llbc_error =
    ERROR_SUCCESS | ERROR_ARG | ERROR_INVALID | ERROR_NOT_ALLOW | ERROR_REPEAT | ERROR_LIMIT
  | ERROR_RANGE | ERROR_NOT_FOUND | ERROR_NO_SUCH | ERROR_PACK | ERROR_TIMEOUTED
  | ERROR_CANCELLED | ERROR_UNKNOWN | ERROR_INITED | ERROR_NOT_INIT | ERROR_IS_LISTEN_SOCKET

type_synonym 'a result = "llbc_error + 'a"

text \<open>Memory that the allocator returns and nobody has written holds an arbitrary byte.\<close>

definition junk_byte :: byte where
  "junk_byte = 0xCD"

definition mem_write :: "'a list \<Rightarrow> nat \<Rightarrow> 'a list \<Rightarrow> 'a list" where
  "mem_write buf pos xs = take pos buf @ xs @ drop (pos + length xs) buf"

definition mem_read :: "'a list \<Rightarrow> nat \<Rightarrow> nat \<Rightarrow> 'a list" where
  "mem_read buf pos n = take n (drop pos buf)"

text \<open>Subtraction of two \<open>size_t\<close>, which wraps around.\<close>

definition size_sub :: "nat \<Rightarrow> nat \<Rightarrow> nat" where
  "size_sub a b = (if b \<le> a then a - b else 2 ^ 64 + a - b)"

named_theorems mem_simps \<open>rewrite rules for memory blocks\<close>

lemma obind_Ok_iff [simp]: "obind m f = Ok y \<longleftrightarrow> (\<exists>x. m = Ok x \<and> f x = Ok y)"
  by (cases m) auto

lemma obind_assoc: "obind (obind m f) g = obind m (\<lambda>x. obind (f x) g)"
  by (cases m) auto

lemma obind_cong [fundef_cong]:
  "m = m' \<Longrightarrow> (\<And>x. m' = Ok x \<Longrightarrow> f x = f' x) \<Longrightarrow> obind m f = obind m' f'"
  by (cases m') auto

lemma length_mem_write [mem_simps, simp]:
  "pos + length xs \<le> length buf \<Longrightarrow> length (mem_write buf pos xs) = length buf"
  by (simp add: mem_write_def)

lemma mem_write_Nil [mem_simps, simp]: "mem_write buf pos [] = buf"
  by (simp add: mem_write_def)

lemma length_mem_read [mem_simps]: "pos + n \<le> length buf \<Longrightarrow> length (mem_read buf pos n) = n"
  by (simp add: mem_read_def)

lemma mem_read_0 [mem_simps, simp]: "mem_read buf pos 0 = []"
  by (simp add: mem_read_def)

lemma mem_read_write_same [mem_simps]:
  "pos \<le> length buf \<Longrightarrow> mem_read (mem_write buf pos xs) pos (length xs) = xs"
  by (simp add: mem_write_def mem_read_def)

lemma take_mem_write [mem_simps]:
  "n \<le> pos \<Longrightarrow> pos \<le> length buf \<Longrightarrow> take n (mem_write buf pos xs) = take n buf"
  by (simp add: mem_write_def min_def)

lemma take_mem_write_end [mem_simps]:
  "pos \<le> length buf \<Longrightarrow>
   take (pos + length xs) (mem_write buf pos xs) = take pos buf @ xs"
  by (simp add: mem_write_def)

lemma drop_mem_write [mem_simps]:
  "pos + length xs \<le> n \<Longrightarrow> pos + length xs \<le> length buf \<Longrightarrow>
   drop n (mem_write buf pos xs) = drop n buf"
  by (simp add: mem_write_def)

text \<open>Reading the readable window of a block: what a write at its end appends.\<close>

lemma window_mem_write [mem_simps]:
  "r \<le> w \<Longrightarrow> w \<le> length buf \<Longrightarrow>
   mem_read (mem_write buf w xs) r (w + length xs - r) = mem_read buf r (w - r) @ xs"
proof -
  assume "r \<le> w" "w \<le> length buf"
  then have "drop r (mem_write buf w xs) =
      mem_read buf r (w - r) @ xs @ drop (w + length xs) buf"
    and "w + length xs - r = length (mem_read buf r (w - r) @ xs)"
    by (simp_all add: mem_write_def mem_read_def drop_take)
  then show ?thesis
    by (simp add: mem_read_def)
qed

lemma take_mem_read: "m \<le> n \<Longrightarrow> take m (mem_read buf pos n) = mem_read buf pos m"
  by (simp add: mem_read_def min_def)

lemma size_sub_le [simp]: "b \<le> a \<Longrightarrow> size_sub a b = a - b"
  by (simp add: size_sub_def)

lemma mem_read_append [mem_simps]:
  "mem_read buf r (m + n) = mem_read buf r m @ mem_read buf (r + m) n"
  by (simp add: mem_read_def take_add add.commute)

lemma mem_read_prefix [mem_simps]:
  "pos + n \<le> length buf \<Longrightarrow> mem_read (buf @ ys) pos n = mem_read buf pos n"
  by (simp add: mem_read_def)

text \<open>The remainder of C on numbers that are not negative.\<close>

lemma smod_nonneg: "0 \<le> a \<Longrightarrow> 0 < b \<Longrightarrow> a smod b = a mod (b :: int)"
  by (cases "a = 0") (simp_all add: smod_int_alt_def)

end
