(* ===== verification/Lock_Free_Queue.thy ===== *)
theory Lock_Free_Queue
  imports Prelude
begin

text \<open>
  The ring buffer \<open>LockFreeQueue\<close> of rpc/src/conn_mgr.h, between one producer thread that
  calls \<open>Push\<close> and one consumer thread that calls \<open>Pop\<close>.

  The first part models the three member functions as they run alone and proves that they
  refine a bounded FIFO queue: a list of at most \<open>cap - 1\<close> pointers. The contract is the
  locale \<open>bounded_fifo\<close>, interpreted on the ring buffer as \<open>ring\<close>.

  The second part splits both functions into the reads and writes of the shared members,
  in program order, and lets them interleave in every way (\<open>lfq_step\<close>). The store fence of
  \<open>Push\<close> orders its two stores, so program order is the order the other thread sees.
  In every reachable state the consumer has received a prefix of what the producer has
  published, in order, without loss or duplication.
\<close>

section \<open>The queue and its operations\<close>

text \<open>
  A pointer is \<open>None\<close> when it is null. The template argument \<open>QueueCapacity\<close> is the argument
  \<open>cap\<close>; it is at most \<open>INT_MAX\<close>, so no index computation overflows an \<open>int\<close>.
\<close>

record 'a lfq =
  rdIdx :: int
  wtIdx :: int
  queue :: "'a option list"

definition lfq_init :: "int \<Rightarrow> 'a lfq" where
  "lfq_init cap = \<lparr>rdIdx = 0, wtIdx = 0, queue = replicate (nat cap) None\<rparr>"

definition GetSize :: "int \<Rightarrow> 'a lfq \<Rightarrow> int" where
  "GetSize cap q =
     (let size = wtIdx q - rdIdx q in if size < 0 then size + cap else size)"

definition GetCapacity :: "int \<Rightarrow> 'a lfq \<Rightarrow> int" where
  "GetCapacity cap q = cap"

definition Push :: "int \<Rightarrow> 'a option \<Rightarrow> 'a lfq \<Rightarrow> bool \<times> 'a lfq" where
  "Push cap val q =
     (let size0 = wtIdx q - rdIdx q;
          size = (if size0 < 0 then size0 + cap else size0)
      in if cap - size = 1 then (False, q)
         else (True, q\<lparr>queue := (queue q)[nat (wtIdx q) := val],
                       wtIdx := (wtIdx q + 1) smod cap\<rparr>))"

definition Pop :: "int \<Rightarrow> 'a lfq \<Rightarrow> 'a option \<times> 'a lfq" where
  "Pop cap q =
     (if rdIdx q \<noteq> wtIdx q
      then (queue q ! nat (rdIdx q), q\<lparr>rdIdx := (rdIdx q + 1) smod cap\<rparr>)
      else (None, q))"

section \<open>The abstract queue\<close>

text \<open>The contract of a bounded first-in first-out queue, over the list of its contents.\<close>

locale bounded_fifo =
  fixes enq :: "'v \<Rightarrow> 'q \<Rightarrow> bool \<times> 'q"
    and deq :: "'q \<Rightarrow> 'v option \<times> 'q"
    and items :: "'q \<Rightarrow> 'v list"
    and inv :: "'q \<Rightarrow> bool"
    and bound :: nat
  assumes enq_room: "inv q \<Longrightarrow> length (items q) < bound \<Longrightarrow>
      fst (enq v q) \<and> items (snd (enq v q)) = items q @ [v]"
    and enq_full: "inv q \<Longrightarrow> length (items q) \<ge> bound \<Longrightarrow> enq v q = (False, q)"
    and deq_items: "inv q \<Longrightarrow> items q = v # vs \<Longrightarrow>
      fst (deq q) = Some v \<and> items (snd (deq q)) = vs"
    and deq_empty: "inv q \<Longrightarrow> items q = [] \<Longrightarrow> deq q = (None, q)"
    and inv_enq: "inv q \<Longrightarrow> inv (snd (enq v q))"
    and inv_deq: "inv q \<Longrightarrow> inv (snd (deq q))"
    and items_bound: "inv q \<Longrightarrow> length (items q) \<le> bound"
begin

text \<open>A run of enqueues and dequeues: \<open>Inl v\<close> enqueues, \<open>Inr ()\<close> dequeues.\<close>

fun run :: "'q \<Rightarrow> ('v + unit) list \<Rightarrow> 'v list \<times> 'v list \<times> 'q" where
  "run q [] = ([], [], q)"
| "run q (Inl v # ops) =
     (let (ok, q') = enq v q; (ins, outs, q'') = run q' ops
      in (if ok then v # ins else ins, outs, q''))"
| "run q (Inr u # ops) =
     (let (r, q') = deq q; (ins, outs, q'') = run q' ops
      in (ins, case r of None \<Rightarrow> outs | Some v \<Rightarrow> v # outs, q''))"

lemma enq_cases:
  "inv q \<Longrightarrow> (fst (enq v q) \<and> items (snd (enq v q)) = items q @ [v]) \<or> enq v q = (False, q)"
  using enq_room enq_full by (meson not_less)

lemma deq_cases:
  "inv q \<Longrightarrow> (\<exists>v vs. items q = v # vs \<and> fst (deq q) = Some v \<and> items (snd (deq q)) = vs)
     \<or> (items q = [] \<and> deq q = (None, q))"
  using deq_items deq_empty by (cases "items q") auto

lemma run_inv: "inv q \<Longrightarrow> inv (snd (snd (run q ops)))"
proof (induction q ops rule: run.induct)
  case (2 q v ops)
  from inv_enq [OF 2(2), of v] have "inv (snd (snd (run (snd (enq v q)) ops)))"
    by (rule 2(1) [OF refl prod.collapse])
  then show ?case by (simp add: Let_def case_prod_beta)
next
  case (3 q u ops)
  from inv_deq [OF 3(2)] have "inv (snd (snd (run (snd (deq q)) ops)))"
    by (rule 3(1) [OF refl prod.collapse])
  then show ?case by (simp add: Let_def case_prod_beta)
qed simp

text \<open>What comes out, followed by what is left, is what was there, followed by what went in.\<close>

lemma run_fifo:
  "inv q \<Longrightarrow> run q ops = (ins, outs, q') \<Longrightarrow> outs @ items q' = items q @ ins"
proof (induction q ops arbitrary: ins outs q' rule: run.induct)
  case (1 q)
  then show ?case by simp
next
  case (2 q v ops)
  obtain ok q1 where e: "enq v q = (ok, q1)" by fastforce
  obtain ins1 outs1 q2 where r: "run q1 ops = (ins1, outs1, q2)" by (metis prod_cases3)
  have "inv q1" using inv_enq [OF 2(2), of v] e by simp
  from 2(1) [OF e [symmetric] refl this r] have "outs1 @ items q2 = items q1 @ ins1" .
  moreover have "ins = (if ok then v # ins1 else ins1)" "outs = outs1" "q' = q2"
    using 2(3) e r by simp_all
  ultimately show ?case
    using enq_cases [OF 2(2), of v] e by auto
next
  case (3 q u ops)
  obtain x q1 where d: "deq q = (x, q1)" by fastforce
  obtain ins1 outs1 q2 where r: "run q1 ops = (ins1, outs1, q2)" by (metis prod_cases3)
  have "inv q1" using inv_deq [OF 3(2)] d by simp
  from 3(1) [OF d [symmetric] refl this r] have "outs1 @ items q2 = items q1 @ ins1" .
  moreover have "ins = ins1" "outs = (case x of None \<Rightarrow> outs1 | Some v \<Rightarrow> v # outs1)" "q' = q2"
    using 3(3) d r by simp_all
  ultimately show ?case
    using deq_cases [OF 3(2)] d by auto
qed

end

section \<open>The ring buffer refines the abstract queue\<close>

definition lfq_items :: "int \<Rightarrow> 'a lfq \<Rightarrow> 'a list" where
  "lfq_items cap q =
     map (\<lambda>i. the (queue q ! nat ((rdIdx q + int i) mod cap))) [0..<nat (GetSize cap q)]"

definition lfq_inv :: "int \<Rightarrow> 'a lfq \<Rightarrow> bool" where
  "lfq_inv cap q \<longleftrightarrow> 0 \<le> rdIdx q \<and> rdIdx q < cap \<and> 0 \<le> wtIdx q \<and> wtIdx q < cap
     \<and> length (queue q) = nat cap
     \<and> (\<forall>i. 0 \<le> i \<and> i < GetSize cap q \<longrightarrow> queue q ! nat ((rdIdx q + i) mod cap) \<noteq> None)"

text \<open>\<open>GetSize\<close> is the distance from the read to the write index around the ring.\<close>

lemma GetSize_mod:
  assumes "0 \<le> rdIdx q" "rdIdx q < cap" "0 \<le> wtIdx q" "wtIdx q < cap"
  shows "GetSize cap q = (wtIdx q - rdIdx q) mod cap"
proof (cases "wtIdx q < rdIdx q")
  case True
  have "(wtIdx q - rdIdx q) mod cap = (wtIdx q - rdIdx q + cap) mod cap" by simp
  also have "\<dots> = wtIdx q - rdIdx q + cap"
    by (rule mod_pos_pos_trivial) (use assms True in auto)
  finally show ?thesis using True by (simp add: GetSize_def)
next
  case False
  with assms show ?thesis by (simp add: GetSize_def)
qed

lemma GetSize_bounds:
  assumes "lfq_inv cap q" shows "0 \<le> GetSize cap q" "GetSize cap q < cap"
  using assms by (simp_all add: GetSize_def lfq_inv_def Let_def)

lemma rd_plus_size:
  assumes "lfq_inv cap q" shows "(rdIdx q + GetSize cap q) mod cap = wtIdx q"
proof -
  have "GetSize cap q = (wtIdx q - rdIdx q) mod cap"
    using assms by (intro GetSize_mod) (auto simp: lfq_inv_def)
  then have "(rdIdx q + GetSize cap q) mod cap = wtIdx q mod cap"
    by (simp add: mod_simps)
  then show ?thesis using assms by (simp add: lfq_inv_def)
qed

text \<open>Positions at different distances from the read index are different slots.\<close>

lemma slot_inj:
  assumes "0 \<le> i" "i < cap" "0 \<le> j" "j < (cap :: int)" "(r + i) mod cap = (r + j) mod cap"
  shows "i = j"
proof -
  have "cap dvd (r + i) - (r + j)" using assms(5) by (rule mod_eq_dvd_iff [THEN iffD1])
  then have "cap dvd i - j" by simp
  moreover have "\<bar>i - j\<bar> < cap" using assms(1-4) by auto
  ultimately have "i - j = 0"
    using dvd_imp_le_int [of "i - j" cap] assms(1,2) by fastforce
  then show ?thesis by simp
qed

abbreviation slot :: "int \<Rightarrow> 'a lfq \<Rightarrow> int \<Rightarrow> 'a option" where
  "slot cap q i \<equiv> queue q ! nat ((rdIdx q + i) mod cap)"

lemma length_lfq_items: "lfq_inv cap q \<Longrightarrow> int (length (lfq_items cap q)) = GetSize cap q"
  using GetSize_bounds [of cap q] by (simp add: lfq_items_def)

lemma Push_full: "lfq_inv cap q \<Longrightarrow> GetSize cap q = cap - 1 \<Longrightarrow> Push cap v q = (False, q)"
  by (simp add: Push_def GetSize_def Let_def)

lemma Push_room:
  assumes "GetSize cap q \<noteq> cap - 1"
  shows "Push cap v q = (True, q\<lparr>queue := (queue q)[nat (wtIdx q) := v],
                                 wtIdx := (wtIdx q + 1) smod cap\<rparr>)"
proof -
  have "cap - (if wtIdx q - rdIdx q < 0 then wtIdx q - rdIdx q + cap else wtIdx q - rdIdx q) \<noteq> 1"
    using assms by (auto simp: GetSize_def Let_def)
  then show ?thesis by (simp add: Push_def Let_def)
qed

text \<open>A successful push: the indices stay in the ring and the size grows by one.\<close>

lemma Push_room_size:
  fixes v :: "'a option"
  assumes "lfq_inv cap q" "GetSize cap q \<noteq> cap - 1"
  defines "q' \<equiv> snd (Push cap v q)"
  shows "0 \<le> wtIdx q'" "wtIdx q' < cap" "rdIdx q' = rdIdx q"
    "GetSize cap q' = GetSize cap q + 1"
proof -
  have q': "q' = q\<lparr>queue := (queue q)[nat (wtIdx q) := v], wtIdx := (wtIdx q + 1) mod cap\<rparr>"
    using assms by (simp add: Push_room smod_nonneg lfq_inv_def)
  have pos: "0 < cap" using assms(1) by (simp add: lfq_inv_def)
  then show wt: "0 \<le> wtIdx q'" "wtIdx q' < cap" by (simp_all add: q')
  show rd: "rdIdx q' = rdIdx q" by (simp add: q')
  have sz: "GetSize cap q = (wtIdx q - rdIdx q) mod cap"
    using assms(1) by (intro GetSize_mod) (auto simp: lfq_inv_def)
  have "GetSize cap q' = (wtIdx q' - rdIdx q') mod cap"
    using assms(1) wt rd by (intro GetSize_mod) (auto simp: lfq_inv_def)
  also have "\<dots> = (wtIdx q - rdIdx q + 1) mod cap"
    by (simp add: q' mod_simps algebra_simps)
  also have "\<dots> = (GetSize cap q + 1) mod cap" by (simp add: sz mod_simps)
  also have "\<dots> = GetSize cap q + 1"
    using GetSize_bounds [OF assms(1)] assms(2) by (intro mod_pos_pos_trivial) auto
  finally show "GetSize cap q' = GetSize cap q + 1" .
qed

lemma Push_room_slot:
  assumes "lfq_inv cap q" "GetSize cap q \<noteq> cap - 1" "0 \<le> i" "i \<le> GetSize cap q"
  shows "slot cap (snd (Push cap v q)) i = (if i = GetSize cap q then v else slot cap q i)"
proof -
  let ?n = "GetSize cap q"
  have n: "0 \<le> ?n" "?n < cap" by (fact GetSize_bounds [OF assms(1)])+
  have wt: "wtIdx q = (rdIdx q + ?n) mod cap" using rd_plus_size [OF assms(1)] by simp
  have in_range: "nat (wtIdx q) < length (queue q)" using assms(1) by (auto simp: lfq_inv_def)
  have "nat ((rdIdx q + i) mod cap) = nat (wtIdx q) \<longleftrightarrow> (rdIdx q + i) mod cap = (rdIdx q + ?n) mod cap"
    using n by (simp add: wt eq_nat_nat_iff)
  also have "\<dots> \<longleftrightarrow> i = ?n"
    using slot_inj [of i cap ?n "rdIdx q"] assms n by auto
  finally have "nat ((rdIdx q + i) mod cap) = nat (wtIdx q) \<longleftrightarrow> i = ?n" .
  then show ?thesis
    using in_range assms(2) by (auto simp: Push_room nth_list_update)
qed

lemma lfq_inv_Push: "lfq_inv cap q \<Longrightarrow> lfq_inv cap (snd (Push cap (Some v) q))"
proof (cases "GetSize cap q = cap - 1")
  case False
  assume inv: "lfq_inv cap q"
  let ?q' = "snd (Push cap (Some v) q)"
  note size = Push_room_size [OF inv False, of "Some v"]
  have "slot cap ?q' i \<noteq> None" if "0 \<le> i" "i < GetSize cap ?q'" for i
    using that Push_room_slot [OF inv False, of i "Some v"] inv size(4)
    by (auto simp: lfq_inv_def)
  then show ?thesis
    using inv size False by (auto simp: lfq_inv_def Push_room)
qed (simp add: Push_full)

lemma lfq_items_Push:
  assumes "lfq_inv cap q" "GetSize cap q \<noteq> cap - 1"
  shows "fst (Push cap (Some v) q)" "lfq_items cap (snd (Push cap (Some v) q)) = lfq_items cap q @ [v]"
proof -
  let ?q' = "snd (Push cap (Some v) q)" and ?n = "GetSize cap q"
  show "fst (Push cap (Some v) q)" using assms(2) by (simp add: Push_room)
  have n: "0 \<le> ?n" by (rule GetSize_bounds [OF assms(1)])
  have "[0..<nat (GetSize cap ?q')] = [0..<nat ?n] @ [nat ?n]"
    using n by (simp add: Push_room_size(4) [OF assms] nat_add_distrib)
  then show "lfq_items cap ?q' = lfq_items cap q @ [v]"
    using n Push_room_slot [OF assms] by (auto simp: lfq_items_def)
qed

text \<open>A pop of a non-empty queue: the oldest pointer comes out.\<close>

lemma Pop_some:
  assumes "lfq_inv cap q" "rdIdx q \<noteq> wtIdx q"
  shows "lfq_inv cap (snd (Pop cap q))"
    and "GetSize cap (snd (Pop cap q)) = GetSize cap q - 1"
    and "Pop cap q = (Some (hd (lfq_items cap q)), snd (Pop cap q))"
    and "lfq_items cap q = hd (lfq_items cap q) # lfq_items cap (snd (Pop cap q))"
proof -
  let ?q' = "snd (Pop cap q)" and ?n = "GetSize cap q"
  have pos: "0 < cap" and idx: "0 \<le> rdIdx q" "rdIdx q < cap"
    using assms(1) by (auto simp: lfq_inv_def)
  have q': "?q' = q\<lparr>rdIdx := (rdIdx q + 1) mod cap\<rparr>"
    using assms pos idx by (simp add: Pop_def smod_nonneg)
  have n: "0 < ?n" "?n < cap"
    using assms by (auto simp: GetSize_def lfq_inv_def Let_def split: if_splits)
  have sz: "?n = (wtIdx q - rdIdx q) mod cap"
    using assms(1) by (intro GetSize_mod) (auto simp: lfq_inv_def)
  have "GetSize cap ?q' = (wtIdx ?q' - rdIdx ?q') mod cap"
    using assms(1) pos by (intro GetSize_mod) (auto simp: lfq_inv_def q')
  also have "\<dots> = (wtIdx q - rdIdx q - 1) mod cap"
    by (simp add: q' mod_simps algebra_simps)
  also have "\<dots> = (?n - 1) mod cap" by (simp add: sz mod_simps)
  also have "\<dots> = ?n - 1" using n by (intro mod_pos_pos_trivial) auto
  finally show size: "GetSize cap ?q' = ?n - 1" .
  have shift: "slot cap ?q' i = slot cap q (i + 1)" for i
    by (simp add: q' mod_simps algebra_simps)
  show "lfq_inv cap ?q'"
    using assms(1) pos size shift by (auto simp: lfq_inv_def q')
  have split: "[0..<nat ?n] = 0 # map Suc [0..<nat (?n - 1)]"
    using n(1) by (simp add: map_Suc_upt upt_conv_Cons nat_diff_distrib)
  have "slot cap q 0 \<noteq> None" using assms(1) n(1) unfolding lfq_inv_def by blast
  then show "Pop cap q = (Some (hd (lfq_items cap q)), ?q')"
    using assms(2) pos idx by (auto simp: Pop_def lfq_items_def split)
  show "lfq_items cap q = hd (lfq_items cap q) # lfq_items cap ?q'"
    by (simp add: lfq_items_def split size o_def) (metis shift add.commute)
qed

lemma Pop_none: "rdIdx q = wtIdx q \<Longrightarrow> Pop cap q = (None, q)"
  by (simp add: Pop_def)

lemma lfq_items_Nil_iff: "lfq_inv cap q \<Longrightarrow> lfq_items cap q = [] \<longleftrightarrow> rdIdx q = wtIdx q"
  using GetSize_bounds [of cap q]
  by (auto simp: lfq_items_def GetSize_def lfq_inv_def Let_def split: if_splits)

interpretation ring: bounded_fifo "\<lambda>v. Push cap (Some v)" "Pop cap" "lfq_items cap" "lfq_inv cap"
    "nat (cap - 1)" for cap
proof (unfold_locales, goal_cases)
  case (1 q v)
  then show ?case using length_lfq_items [of cap q] lfq_items_Push [of cap q v] by auto
next
  case (2 q v)
  then have "GetSize cap q = cap - 1"
    using length_lfq_items [of cap q] GetSize_bounds [of cap q] by auto
  then show ?case using 2 by (simp add: Push_full)
next
  case (3 q v vs)
  then show ?case
    using Pop_some [of cap q] lfq_items_Nil_iff [of cap q] by (metis fst_conv list.inject list.sel(1) list.simps(3))
next
  case (4 q)
  then show ?case by (simp add: lfq_items_Nil_iff Pop_none)
next
  case (5 q v)
  then show ?case by (rule lfq_inv_Push)
next
  case (6 q)
  then show ?case by (cases "rdIdx q = wtIdx q") (auto simp: Pop_none Pop_some(1))
next
  case (7 q)
  then show ?case using length_lfq_items [of cap q] GetSize_bounds [of cap q] by auto
qed

section \<open>The two threads\<close>

text \<open>
  The program counters of the two threads: what \<open>Push\<close> has read so far and what it does
  next, and the same for \<open>Pop\<close>. A volatile member is read or written in one step.
\<close>

datatype 'a push_pc =
    PIdle
  | PReadRd 'a int     \<comment> \<open>wtIdx_ is read, rdIdx_ is next\<close>
  | PTest 'a int       \<comment> \<open>size is computed, the test for a full queue is next\<close>
  | PStore 'a          \<comment> \<open>queue_[wtIdx_] = val is next\<close>
  | PPublish 'a        \<comment> \<open>wtIdx_ = (wtIdx_ + 1) % QueueCapacity is next\<close>

datatype 'a pop_pc =
    CIdle
  | CTest int          \<comment> \<open>rdIdx_ is read, the comparison with wtIdx_ is next\<close>
  | CLoad              \<comment> \<open>val = queue_[rdIdx_] is next\<close>
  | CAdvance "'a option" \<comment> \<open>rdIdx_ = (rdIdx_ + 1) % QueueCapacity is next\<close>

text \<open>
  The shared queue, the two threads, and what they have done: \<open>pushed\<close> lists the values of
  the calls to \<open>Push\<close> that have published, \<open>popped\<close> the values that \<open>Pop\<close> has returned.
\<close>

record 'a spsc =
  shared :: "'a lfq"
  producer :: "'a push_pc"
  consumer :: "'a pop_pc"
  pushed :: "'a list"
  popped :: "'a option list"

definition spsc_init :: "int \<Rightarrow> 'a spsc" where
  "spsc_init cap = \<lparr>shared = lfq_init cap, producer = PIdle, consumer = CIdle,
                     pushed = [], popped = []\<rparr>"

inductive lfq_step :: "int \<Rightarrow> 'a spsc \<Rightarrow> 'a spsc \<Rightarrow> bool" for cap where
  push_call: "producer s = PIdle \<Longrightarrow>
     lfq_step cap s (s\<lparr>producer := PReadRd v (wtIdx (shared s))\<rparr>)"
| push_size: "producer s = PReadRd v w \<Longrightarrow> size0 = w - rdIdx (shared s) \<Longrightarrow>
     lfq_step cap s (s\<lparr>producer := PTest v (if size0 < 0 then size0 + cap else size0)\<rparr>)"
| push_full: "producer s = PTest v n \<Longrightarrow> cap - n = 1 \<Longrightarrow>
     lfq_step cap s (s\<lparr>producer := PIdle\<rparr>)"
| push_room: "producer s = PTest v n \<Longrightarrow> cap - n \<noteq> 1 \<Longrightarrow>
     lfq_step cap s (s\<lparr>producer := PStore v\<rparr>)"
| push_store: "producer s = PStore v \<Longrightarrow> q = shared s \<Longrightarrow>
     lfq_step cap s (s\<lparr>shared := q\<lparr>queue := (queue q)[nat (wtIdx q) := Some v]\<rparr>,
                       producer := PPublish v\<rparr>)"
| push_publish: "producer s = PPublish v \<Longrightarrow> q = shared s \<Longrightarrow>
     lfq_step cap s (s\<lparr>shared := q\<lparr>wtIdx := (wtIdx q + 1) smod cap\<rparr>,
                       producer := PIdle, pushed := pushed s @ [v]\<rparr>)"
| pop_call: "consumer s = CIdle \<Longrightarrow>
     lfq_step cap s (s\<lparr>consumer := CTest (rdIdx (shared s))\<rparr>)"
| pop_empty: "consumer s = CTest r \<Longrightarrow> r = wtIdx (shared s) \<Longrightarrow>
     lfq_step cap s (s\<lparr>consumer := CIdle\<rparr>)"
| pop_some: "consumer s = CTest r \<Longrightarrow> r \<noteq> wtIdx (shared s) \<Longrightarrow>
     lfq_step cap s (s\<lparr>consumer := CLoad\<rparr>)"
| pop_load: "consumer s = CLoad \<Longrightarrow> q = shared s \<Longrightarrow>
     lfq_step cap s (s\<lparr>consumer := CAdvance (queue q ! nat (rdIdx q))\<rparr>)"
| pop_advance: "consumer s = CAdvance x \<Longrightarrow> q = shared s \<Longrightarrow>
     lfq_step cap s (s\<lparr>shared := q\<lparr>rdIdx := (rdIdx q + 1) smod cap\<rparr>,
                       consumer := CIdle, popped := popped s @ [x]\<rparr>)"

inductive lfq_reachable :: "int \<Rightarrow> 'a spsc \<Rightarrow> bool" for cap where
  lfq_start: "lfq_reachable cap (spsc_init cap)"
| lfq_next: "lfq_reachable cap s \<Longrightarrow> lfq_step cap s t \<Longrightarrow> lfq_reachable cap t"

text \<open>
  What the threads rely on. The producer's view of the size can only be too large, because
  the consumer makes the queue shorter; the consumer's view of a non-empty queue stays
  true, because the producer makes it longer.
\<close>

definition producer_inv :: "int \<Rightarrow> 'a spsc \<Rightarrow> bool" where
  "producer_inv cap s \<longleftrightarrow> (let q = shared s; n = GetSize cap q in
     case producer s of
       PIdle \<Rightarrow> True
     | PReadRd v w \<Rightarrow> w = wtIdx q
     | PTest v m \<Rightarrow> n \<le> m \<and> m < cap
     | PStore v \<Rightarrow> n < cap - 1
     | PPublish v \<Rightarrow> n < cap - 1 \<and> queue q ! nat (wtIdx q) = Some v)"

definition consumer_inv :: "int \<Rightarrow> 'a spsc \<Rightarrow> bool" where
  "consumer_inv cap s \<longleftrightarrow> (let q = shared s in
     case consumer s of
       CIdle \<Rightarrow> True
     | CTest r \<Rightarrow> r = rdIdx q
     | CLoad \<Rightarrow> rdIdx q \<noteq> wtIdx q
     | CAdvance x \<Rightarrow> rdIdx q \<noteq> wtIdx q \<and> x = queue q ! nat (rdIdx q))"

definition spsc_inv :: "int \<Rightarrow> 'a spsc \<Rightarrow> bool" where
  "spsc_inv cap s \<longleftrightarrow> lfq_inv cap (shared s) \<and> producer_inv cap s \<and> consumer_inv cap s
     \<and> map Some (pushed s) = popped s @ map Some (lfq_items cap (shared s))"

lemmas spsc_inv_defs = spsc_inv_def producer_inv_def consumer_inv_def Let_def

lemma lfq_inv_init: "0 < cap \<Longrightarrow> lfq_inv cap (lfq_init cap)"
  by (auto simp: lfq_inv_def lfq_init_def GetSize_def)

lemma spsc_inv_init: "0 < cap \<Longrightarrow> spsc_inv cap (spsc_init cap)"
  by (simp add: spsc_inv_defs spsc_init_def lfq_inv_init lfq_items_def)
    (simp add: lfq_init_def GetSize_def)

text \<open>The store of \<open>Push\<close> goes to a slot outside the window the consumer reads.\<close>

lemma store_outside:
  fixes v :: 'a
  assumes "lfq_inv cap q" "GetSize cap q < cap - 1"
  defines "q' \<equiv> q\<lparr>queue := (queue q)[nat (wtIdx q) := Some v]\<rparr>"
  shows "lfq_inv cap q'" "lfq_items cap q' = lfq_items cap q" "GetSize cap q' = GetSize cap q"
    "queue q' ! nat (wtIdx q) = Some v"
    "rdIdx q \<noteq> wtIdx q \<Longrightarrow> queue q' ! nat (rdIdx q) = queue q ! nat (rdIdx q)"
proof -
  show size: "GetSize cap q' = GetSize cap q" by (simp add: q'_def GetSize_def)
  have eq: "slot cap q' i = slot cap q i" if "0 \<le> i" "i < GetSize cap q" for i
    using Push_room_slot [of cap q i "Some v"] assms that
    by (simp add: q'_def Push_room)
  show "lfq_inv cap q'"
    using assms(1) eq by (auto simp: lfq_inv_def size) (simp_all add: q'_def)
  show "queue q' ! nat (wtIdx q) = Some v"
    using assms(1) by (simp add: q'_def lfq_inv_def)
  show "lfq_items cap q' = lfq_items cap q"
    using eq by (simp add: lfq_items_def size)
  assume "rdIdx q \<noteq> wtIdx q"
  then show "queue q' ! nat (rdIdx q) = queue q ! nat (rdIdx q)"
    using assms(1) by (simp add: q'_def lfq_inv_def eq_nat_nat_iff)
qed

text \<open>Store and publication together are one successful \<open>Push\<close>.\<close>

lemma publish_is_Push:
  assumes "lfq_inv cap q" "GetSize cap q < cap - 1" "queue q ! nat (wtIdx q) = Some v"
  shows "q\<lparr>wtIdx := (wtIdx q + 1) smod cap\<rparr> = snd (Push cap (Some v) q)"
proof -
  have "(queue q)[nat (wtIdx q) := Some v] = queue q"
    using assms(3) by (metis list_update_id)
  then show ?thesis using assms(2) by (simp add: Push_room)
qed

lemma advance_is_Pop:
  "rdIdx q \<noteq> wtIdx q \<Longrightarrow> q\<lparr>rdIdx := (rdIdx q + 1) smod cap\<rparr> = snd (Pop cap q)"
  "rdIdx q \<noteq> wtIdx q \<Longrightarrow> queue q ! nat (rdIdx q) = fst (Pop cap q)"
  by (simp_all add: Pop_def)

lemma GetSize_nonneg: "lfq_inv cap q \<Longrightarrow> rdIdx q \<noteq> wtIdx q \<Longrightarrow> 0 < GetSize cap q"
  using lfq_items_Nil_iff [of cap q] length_lfq_items [of cap q] by (cases "lfq_items cap q") auto

lemma push_size_bound:
  "lfq_inv cap q \<Longrightarrow> w = wtIdx q \<Longrightarrow> size0 = w - rdIdx q \<Longrightarrow>
   (if size0 < 0 then size0 + cap else size0) = GetSize cap q"
  by (simp add: GetSize_def)

lemma publish_step:
  assumes "spsc_inv cap s" "producer s = PPublish v" "q = shared s"
  shows "spsc_inv cap (s\<lparr>shared := q\<lparr>wtIdx := (wtIdx q + 1) smod cap\<rparr>, producer := PIdle,
                           pushed := pushed s @ [v]\<rparr>)"
proof -
  have inv: "lfq_inv cap q" and room: "GetSize cap q < cap - 1"
    and st: "queue q ! nat (wtIdx q) = Some v"
    using assms by (auto simp: spsc_inv_defs)
  define q' where "q' = snd (Push cap (Some v) q)"
  have eq: "q\<lparr>wtIdx := (wtIdx q + 1) smod cap\<rparr> = q'"
    by (simp add: publish_is_Push [OF inv room st] q'_def)
  have items: "lfq_items cap q' = lfq_items cap q @ [v]" and inv': "lfq_inv cap q'"
    using lfq_items_Push [OF inv] lfq_inv_Push [OF inv] room by (auto simp: q'_def)
  have "rdIdx q' = rdIdx q" "queue q' = queue q" by (simp_all flip: eq)
  moreover have "rdIdx q' \<noteq> wtIdx q'" using items lfq_items_Nil_iff [OF inv'] by auto
  ultimately have "consumer_inv cap (s\<lparr>shared := q'\<rparr>)"
    using assms by (auto simp: spsc_inv_defs split: pop_pc.splits)
  then show ?thesis
    unfolding eq using assms items inv' by (simp add: spsc_inv_defs)
qed

lemma advance_step:
  assumes "spsc_inv cap s" "consumer s = CAdvance x" "q = shared s"
  shows "spsc_inv cap (s\<lparr>shared := q\<lparr>rdIdx := (rdIdx q + 1) smod cap\<rparr>, consumer := CIdle,
                           popped := popped s @ [x]\<rparr>)"
proof -
  have inv: "lfq_inv cap q" and ne: "rdIdx q \<noteq> wtIdx q" and x: "x = fst (Pop cap q)"
    using assms by (auto simp: spsc_inv_defs advance_is_Pop)
  define q' where "q' = snd (Pop cap q)"
  have eq: "q\<lparr>rdIdx := (rdIdx q + 1) smod cap\<rparr> = q'"
    by (simp add: advance_is_Pop [OF ne] q'_def)
  note pop = Pop_some [OF inv ne, folded q'_def]
  have x_eq: "Some (hd (lfq_items cap q)) = x" unfolding x by (subst pop(3)) simp
  then have "map Some (lfq_items cap q) = x # map Some (lfq_items cap q')"
    by (subst pop(4)) simp
  then have "map Some (pushed s) = (popped s @ [x]) @ map Some (lfq_items cap q')"
    using assms by (simp add: spsc_inv_def)
  moreover have "wtIdx q' = wtIdx q" "queue q' = queue q" by (simp_all flip: eq)
  then have "producer_inv cap (s\<lparr>shared := q'\<rparr>)"
    using assms pop(2) by (auto simp: spsc_inv_defs split: push_pc.splits)
  ultimately show ?thesis
    unfolding eq using assms pop(1) by (simp add: spsc_inv_defs)
qed

lemma lfq_step_inv: "lfq_step cap s t \<Longrightarrow> spsc_inv cap s \<Longrightarrow> spsc_inv cap t"
proof (induction rule: lfq_step.induct)
  case (push_size s v w size0)
  then have "(if size0 < 0 then size0 + cap else size0) = GetSize cap (shared s)"
    by (intro push_size_bound) (auto simp: spsc_inv_defs)
  then show ?case
    using push_size GetSize_bounds [of cap "shared s"] by (simp add: spsc_inv_defs)
next
  case (push_store s v q)
  then show ?case
    using store_outside [of cap q v] by (auto simp: spsc_inv_defs split: pop_pc.splits)
next
  case (push_publish s v q)
  then show ?case by (intro publish_step)
next
  case (pop_advance s x q)
  then show ?case by (intro advance_step)
qed (auto simp: spsc_inv_defs)

lemma lfq_reachable_inv: "lfq_reachable cap s \<Longrightarrow> 0 < cap \<Longrightarrow> spsc_inv cap s"
  by (induction rule: lfq_reachable.induct) (auto intro: spsc_inv_init lfq_step_inv)

section \<open>Properties\<close>

text \<open>
  C14. \<open>Push\<close> and \<open>Pop\<close> implement a bounded FIFO queue. On a well-formed ring of capacity
  \<open>cap\<close> a push of a pointer succeeds exactly when fewer than \<open>cap - 1\<close> pointers are
  queued, and then appends it; a failed push changes nothing; a pop returns the oldest
  pointer and removes it, or null on the empty queue; \<open>GetSize\<close> is the number queued; and
  the ring stays well-formed.
\<close>

theorem lfq_refines_fifo:
  assumes "lfq_inv cap q"
  shows "(let n = int (length (lfq_items cap q)); (ok, q1) = Push cap (Some v) q; (x, q2) = Pop cap q in
      GetSize cap q = n
      \<and> ok = (n < cap - 1)
      \<and> lfq_items cap q1 = (if ok then lfq_items cap q @ [v] else lfq_items cap q)
      \<and> (\<not> ok \<longrightarrow> q1 = q)
      \<and> x = (case lfq_items cap q of [] \<Rightarrow> None | y # ys \<Rightarrow> Some y)
      \<and> lfq_items cap q2 = tl (lfq_items cap q)
      \<and> lfq_inv cap q1 \<and> lfq_inv cap q2)"
proof -
  have size: "GetSize cap q = int (length (lfq_items cap q))"
    by (simp add: length_lfq_items assms)
  have push: "fst (Push cap (Some v) q) = (int (length (lfq_items cap q)) < cap - 1)"
    "lfq_items cap (snd (Push cap (Some v) q)) =
       (if fst (Push cap (Some v) q) then lfq_items cap q @ [v] else lfq_items cap q)"
    "\<not> fst (Push cap (Some v) q) \<longrightarrow> snd (Push cap (Some v) q) = q"
    using ring.enq_room [OF assms, of v] ring.enq_full [OF assms, of v]
    by (cases "int (length (lfq_items cap q)) < cap - 1"; simp add: zless_nat_eq_int_zless)+
  have pop: "fst (Pop cap q) = (case lfq_items cap q of [] \<Rightarrow> None | y # ys \<Rightarrow> Some y)"
    "lfq_items cap (snd (Pop cap q)) = tl (lfq_items cap q)"
    using ring.deq_cases [OF assms] by auto
  show ?thesis
    using size push pop ring.inv_enq [OF assms, of v] ring.inv_deq [OF assms]
    by (simp add: Let_def case_prod_beta)
qed

text \<open>
  C15. Under every interleaving of one producer and one consumer the queue neither loses,
  duplicates nor reorders pointers: what the consumer has received is a prefix of what the
  producer has published, and at most \<open>cap - 1\<close> published pointers are outstanding.
\<close>

theorem lfq_threads_fifo:
  assumes "lfq_reachable cap s" "0 < cap"
  shows "\<exists>rest. map Some (pushed s) = popped s @ map Some rest \<and> int (length rest) \<le> cap - 1"
proof -
  have inv: "spsc_inv cap s" by (rule lfq_reachable_inv [OF assms])
  then have "length (lfq_items cap (shared s)) \<le> nat (cap - 1)"
    by (intro ring.items_bound) (simp add: spsc_inv_def)
  then show ?thesis
    using inv assms(2) by (intro exI [of _ "lfq_items cap (shared s)"]) (simp add: spsc_inv_def)
qed

lemma lfq_refines_fifo_witness:
  "lfq_inv 2 (lfq_init 2 :: nat lfq) \<and> lfq_items 2 (snd (Push 2 (Some (7::nat)) (lfq_init 2))) = [7]"
proof -
  have inv: "lfq_inv 2 (lfq_init 2 :: nat lfq)" by (rule lfq_inv_init) simp
  have "lfq_items 2 (lfq_init 2 :: nat lfq) = []"
    by (simp add: lfq_items_def lfq_init_def GetSize_def)
  then show ?thesis
    using inv lfq_refines_fifo [OF inv, of 7] by (simp add: Let_def case_prod_beta)
qed

lemma lfq_reachable_push:
  assumes "lfq_reachable cap s" "producer s = PIdle" "GetSize cap (shared s) \<noteq> cap - 1"
  shows "lfq_reachable cap (s\<lparr>shared := snd (Push cap (Some v) (shared s)), producer := PIdle,
                            pushed := pushed s @ [v]\<rparr>)"
proof -
  define s1 where "s1 = s\<lparr>producer := PReadRd v (wtIdx (shared s))\<rparr>"
  define s2 where "s2 = s\<lparr>producer := PTest v (GetSize cap (shared s))\<rparr>"
  define s3 where "s3 = s\<lparr>producer := PStore v\<rparr>"
  define s4 where "s4 = s\<lparr>shared := shared s\<lparr>queue := (queue (shared s))[nat (wtIdx (shared s)) := Some v]\<rparr>,
                           producer := PPublish v\<rparr>"
  have 1: "lfq_step cap s s1" unfolding s1_def by (rule push_call) (fact assms(2))
  have 2: "lfq_step cap s1 s2"
    using push_size [of s1 v "wtIdx (shared s)" "wtIdx (shared s) - rdIdx (shared s)" cap]
    by (simp add: s1_def s2_def GetSize_def Let_def)
  have 3: "lfq_step cap s2 s3"
    using push_room [of s2 v "GetSize cap (shared s)" cap] assms(3) by (simp add: s2_def s3_def)
  have 4: "lfq_step cap s3 s4"
    using push_store [of s3 v "shared s" cap] by (simp add: s3_def s4_def)
  have 5: "lfq_step cap s4 (s\<lparr>shared := snd (Push cap (Some v) (shared s)), producer := PIdle,
                            pushed := pushed s @ [v]\<rparr>)"
    using push_publish [of s4 v "shared s4" cap] assms(2,3) by (simp add: s4_def Push_room)
  show ?thesis
    by (rule lfq_next [OF lfq_next [OF lfq_next [OF lfq_next [OF lfq_next [OF assms(1) 1] 2] 3] 4] 5])
qed

lemma lfq_threads_fifo_witness:
  "\<exists>s. lfq_reachable 4 s \<and> pushed s = [7::nat] \<and>
     (\<exists>rest. map Some (pushed s) = popped s @ map Some rest \<and> int (length rest) \<le> 4 - 1)"
proof -
  let ?s = "spsc_init 4 \<lparr>shared := snd (Push 4 (Some 7) (lfq_init 4)), pushed := [7::nat]\<rparr>"
  have r: "lfq_reachable 4 ?s"
    using lfq_reachable_push [OF lfq_start, of 4 "7::nat"]
    by (simp add: spsc_init_def lfq_init_def GetSize_def)
  show ?thesis
    using r lfq_threads_fifo [OF r] by (intro exI [of _ ?s]) simp
qed

end
