(* ===== verification/Binary_Heap.thy ===== *)
theory Binary_Heap
  imports Prelude
begin

text \<open>
  The binary heap \<open>LLBC_BinaryHeap\<close> of llbc/core/timer/BinaryHeap.h and BinaryHeapInl.h, in which
  the timer scheduler keeps its timers.

  The elements are in \<open>_elems[1.._size]\<close>; slot 0 is not used. The comparison is that of the timer
  heap: by a key, the time at which a timer is due. \<open>dflt\<close> stands for \<open>T()\<close>. The contract is the
  locale \<open>prio_queue\<close>: a multiset from which a least element is taken; it is interpreted on the heap
  as \<open>heap\<close>, and gives that draining the elements that are due takes exactly those, in the order
  of their keys (\<open>heap_is_priority_queue\<close>).
\<close>

section \<open>The heap\<close>

record 'a bheap =
  bh_size :: nat
  bh_elems :: "'a list"

definition BinaryHeap_new :: "'a \<Rightarrow> nat \<Rightarrow> 'a bheap" where
  "BinaryHeap_new dflt capacity = \<lparr>bh_size = 0, bh_elems = replicate (if capacity > 1 then capacity else 1) dflt\<rparr>"

definition bh_IsEmpty :: "'a bheap \<Rightarrow> bool" where
  "bh_IsEmpty h \<longleftrightarrow> bh_size h = 0"

definition bh_FindTop :: "'a bheap \<Rightarrow> 'a result" where
  "bh_FindTop h = (if bh_IsEmpty h then Inl ERROR_NOT_FOUND else Inr (bh_elems h ! 1))"

text \<open>The loop of \<open>Insert\<close>; \<open>parentPos\<close> is always half of \<open>pos\<close>.\<close>

function bh_up :: "('a \<Rightarrow> int) \<Rightarrow> 'a \<Rightarrow> 'a list \<Rightarrow> nat \<Rightarrow> 'a list" where
  "bh_up key elem es pos =
     (if pos > 1 \<and> key elem < key (es ! (pos div 2))
      then bh_up key elem (es[pos := es ! (pos div 2)]) (pos div 2)
      else es[pos := elem])"
  by pat_completeness auto
termination by (relation "measure (\<lambda>(_, _, _, pos). pos)") auto

definition bh_Insert :: "'a \<Rightarrow> ('a \<Rightarrow> int) \<Rightarrow> 'a \<Rightarrow> 'a bheap \<Rightarrow> 'a bheap" where
  "bh_Insert dflt key elem h =
     (let n = length (bh_elems h);
          es = (if bh_size h = n - 1 then bh_elems h @ replicate n dflt else bh_elems h);
          pos = bh_size h + 1
      in \<lparr>bh_size = pos, bh_elems = bh_up key elem es pos\<rparr>)"

text \<open>The loop of \<open>PercolateDown\<close>; the index is never 0 (the guard only makes the function total).\<close>

function bh_down :: "('a \<Rightarrow> int) \<Rightarrow> nat \<Rightarrow> 'a \<Rightarrow> 'a list \<Rightarrow> nat \<Rightarrow> 'a list" where
  "bh_down key n elem es index =
     (if 0 < index \<and> index * 2 \<le> n
      then let child = (if index * 2 \<noteq> n \<and> key (es ! (index * 2 + 1)) < key (es ! (index * 2))
                        then index * 2 + 1 else index * 2)
           in if key (es ! child) < key elem then bh_down key n elem (es[index := es ! child]) child
              else es[index := elem]
      else es[index := elem])"
  by pat_completeness auto
termination
  by (relation "measure (\<lambda>(_, n, _, _, index). Suc n - index)") (auto split: if_splits)

definition bh_PercolateDown :: "('a \<Rightarrow> int) \<Rightarrow> nat \<Rightarrow> 'a bheap \<Rightarrow> 'a bheap" where
  "bh_PercolateDown key index h =
     h\<lparr>bh_elems := bh_down key (bh_size h) (bh_elems h ! index) (bh_elems h) index\<rparr>"

fun bh_build :: "('a \<Rightarrow> int) \<Rightarrow> nat \<Rightarrow> 'a bheap \<Rightarrow> 'a bheap" where
  "bh_build key 0 h = h"
| "bh_build key (Suc i) h = bh_build key i (bh_PercolateDown key (Suc i) h)"

definition bh_BuildHeap :: "('a \<Rightarrow> int) \<Rightarrow> 'a bheap \<Rightarrow> 'a bheap" where
  "bh_BuildHeap key h = bh_build key (bh_size h div 2) h"

definition BinaryHeap_of :: "'a \<Rightarrow> ('a \<Rightarrow> int) \<Rightarrow> 'a list \<Rightarrow> 'a bheap" where
  "BinaryHeap_of dflt key elems = bh_BuildHeap key \<lparr>bh_size = length elems, bh_elems = dflt # elems\<rparr>"

definition bh_DeleteTop :: "'a \<Rightarrow> ('a \<Rightarrow> int) \<Rightarrow> 'a bheap \<Rightarrow> 'a bheap result" where
  "bh_DeleteTop dflt key h =
     (if bh_IsEmpty h then Inl ERROR_NOT_FOUND
      else let n = bh_size h;
               es = (if n \<noteq> 1 then (bh_elems h)[1 := bh_elems h ! n] else bh_elems h)
           in Inr (bh_PercolateDown key 1 \<lparr>bh_size = n - 1, bh_elems = es[n := dflt]\<rparr>))"

definition bh_DeleteTop_elem :: "'a \<Rightarrow> ('a \<Rightarrow> int) \<Rightarrow> 'a bheap \<Rightarrow> ('a \<times> 'a bheap) result" where
  "bh_DeleteTop_elem dflt key h =
     (case bh_DeleteTop dflt key h of Inl e \<Rightarrow> Inl e | Inr h' \<Rightarrow> Inr (bh_elems h ! 1, h'))"

text \<open>\<open>DeleteElem(index)\<close> moves every later element one slot down and rebuilds the heap.\<close>

definition bh_DeleteElem_at :: "('a \<Rightarrow> int) \<Rightarrow> nat \<Rightarrow> 'a bheap \<Rightarrow> 'a bheap result" where
  "bh_DeleteElem_at key index h =
     (if bh_IsEmpty h then Inl ERROR_NOT_FOUND
      else if index \<le> 0 \<or> index > bh_size h then Inl ERROR_RANGE
      else let es = map (\<lambda>i. if index \<le> i \<and> i < bh_size h then bh_elems h ! (i + 1) else bh_elems h ! i)
                        [0..<length (bh_elems h)]
           in Inr (bh_BuildHeap key \<lparr>bh_size = bh_size h - 1, bh_elems = es\<rparr>))"

fun bh_search :: "'a \<Rightarrow> nat \<Rightarrow> 'a list \<Rightarrow> nat option" where
  "bh_search elem i [] = None"
| "bh_search elem i (e # es) = (if e = elem then Some i else bh_search elem (i + 1) es)"

definition bh_DeleteElem :: "('a \<Rightarrow> int) \<Rightarrow> 'a \<Rightarrow> 'a bheap \<Rightarrow> 'a bheap result" where
  "bh_DeleteElem key elem h =
     (case bh_search elem 1 (take (bh_size h) (tl (bh_elems h))) of
        None \<Rightarrow> Inl ERROR_NOT_FOUND | Some i \<Rightarrow> bh_DeleteElem_at key i h)"

definition bh_MakeEmpty :: "'a \<Rightarrow> 'a bheap \<Rightarrow> 'a bheap" where
  "bh_MakeEmpty dflt h = \<lparr>bh_size = 0, bh_elems = take 1 (bh_elems h @ [dflt])\<rparr>"

section \<open>The heap order\<close>

text \<open>Every slot up to \<open>n\<close> whose parent is at least \<open>m\<close> has a key that is at least its parent's.\<close>

definition ordered_from :: "('a \<Rightarrow> int) \<Rightarrow> 'a list \<Rightarrow> nat \<Rightarrow> nat \<Rightarrow> bool" where
  "ordered_from key es m n \<longleftrightarrow> (\<forall>i. 2 \<le> i \<and> i \<le> n \<and> m \<le> i div 2 \<longrightarrow> key (es ! (i div 2)) \<le> key (es ! i))"

text \<open>The same, but for the children of \<open>k\<close>, which are compared with their grandparent instead.\<close>

definition ordered_below :: "('a \<Rightarrow> int) \<Rightarrow> 'a list \<Rightarrow> nat \<Rightarrow> nat \<Rightarrow> nat \<Rightarrow> bool" where
  "ordered_below key es m n k \<longleftrightarrow> (\<forall>i. 2 \<le> i \<and> i \<le> n \<and> m \<le> i div 2 \<longrightarrow>
     (if i div 2 = k then m \<le> k div 2 \<and> 0 < k div 2 \<longrightarrow> key (es ! (k div 2)) \<le> key (es ! i)
      else key (es ! (i div 2)) \<le> key (es ! i)))"

text \<open>The same, but for \<open>k\<close> itself, whose children are compared with their grandparent too.\<close>

definition ordered_above :: "('a \<Rightarrow> int) \<Rightarrow> 'a list \<Rightarrow> nat \<Rightarrow> nat \<Rightarrow> bool" where
  "ordered_above key es n k \<longleftrightarrow> (\<forall>i. 2 \<le> i \<and> i \<le> n \<longrightarrow>
     (i \<noteq> k \<longrightarrow> key (es ! (i div 2)) \<le> key (es ! i))
     \<and> (i div 2 = k \<and> 0 < k div 2 \<longrightarrow> key (es ! (k div 2)) \<le> key (es ! i)))"

lemma swap_hole:
  "i < length es \<Longrightarrow> j < length es \<Longrightarrow> i \<noteq> j \<Longrightarrow> mset (es[i := es ! j, j := x]) = mset (es[i := x])"
  using mset_swap [of j "es[i := x]" i] by simp

declare bh_up.simps [simp del] bh_down.simps [simp del]

lemma length_bh_up [simp]: "length (bh_up key elem es pos) = length es"
proof (induction key elem es pos rule: bh_up.induct)
  case (1 key elem es pos)
  then show ?case by (subst bh_up.simps) simp
qed

lemma mset_bh_up: "pos < length es \<Longrightarrow> mset (bh_up key elem es pos) = mset (es[pos := elem])"
proof (induction key elem es pos rule: bh_up.induct)
  case (1 key elem es pos)
  show ?case
  proof (cases "pos > 1 \<and> key elem < key (es ! (pos div 2))")
    case True
    then have "mset (bh_up key elem es pos) = mset (es[pos := es ! (pos div 2), pos div 2 := elem])"
      using 1 by (subst bh_up.simps) simp
    also have "\<dots> = mset (es[pos := elem])" using True "1.prems" by (intro swap_hole) auto
    finally show ?thesis .
  next
    case False
    then show ?thesis by (subst bh_up.simps) auto
  qed
qed

text \<open>Slot 0 and the slots beyond the heap are left alone.\<close>

lemma bh_up_frame: "1 \<le> pos \<Longrightarrow> j = 0 \<or> pos < j \<Longrightarrow> bh_up key elem es pos ! j = es ! j"
proof (induction key elem es pos rule: bh_up.induct)
  case (1 key elem es pos)
  show ?case
  proof (cases "pos > 1 \<and> key elem < key (es ! (pos div 2))")
    case True
    then have "bh_up key elem (es[pos := es ! (pos div 2)]) (pos div 2) ! j = es[pos := es ! (pos div 2)] ! j"
      using 1 by (intro "1.IH") auto
    then show ?thesis using True "1.prems" by (subst bh_up.simps) auto
  next
    case False
    then show ?thesis using "1.prems" by (subst bh_up.simps) auto
  qed
qed

lemma ordered_above_step:
  assumes ord: "ordered_above key (es[pos := elem]) n pos" and "1 < pos" "pos \<le> n" "n < length es"
    and less: "key elem < key (es ! (pos div 2))"
  shows "ordered_above key (es[pos := es ! (pos div 2), pos div 2 := elem]) n (pos div 2)"
  unfolding ordered_above_def
proof (intro allI impI)
  fix i assume i: "2 \<le> i \<and> i \<le> n"
  let ?p = "pos div 2" and ?es = "es[pos := es ! (pos div 2), pos div 2 := elem]"
  have p: "?p < pos" "pos < length es" "?p < length es" using assms by auto
  have new: "?es ! j = (if j = ?p then elem else if j = pos then es ! ?p else es ! j)" for j
    using p by (simp add: nth_list_update)
  have o1: "key (es ! (j div 2)) \<le> key (es ! j)" if "2 \<le> j" "j \<le> n" "j \<noteq> pos" "j div 2 \<noteq> pos" for j
    using ord that p unfolding ordered_above_def by (metis nth_list_update_neq)
  have o2: "key (es ! ?p) \<le> key (es ! j)" if "2 \<le> j" "j \<le> n" "j div 2 = pos" for j
  proof -
    have "j \<noteq> pos" "0 < ?p" using that assms(2) by auto
    then show ?thesis using ord that p unfolding ordered_above_def by (metis nth_list_update_neq nat_neq_iff)
  qed
  have n1: "key (?es ! (i div 2)) \<le> key (?es ! i)" if "i \<noteq> ?p"
  proof -
    consider "i = pos" | "i \<noteq> pos" "i div 2 = pos" | "i \<noteq> pos" "i div 2 = ?p" | "i \<noteq> pos" "i div 2 \<noteq> pos" "i div 2 \<noteq> ?p"
      by blast
    then show ?thesis
    proof cases
      case 1 then show ?thesis using less p by (simp add: new)
    next
      case 2 then show ?thesis using o2 [of i] i that p by (simp add: new)
    next
      case 3 then show ?thesis using o1 [of i] i that p less by (simp add: new)
    next
      case 4 then show ?thesis using o1 [of i] i that by (simp add: new)
    qed
  qed
  have n2: "key (?es ! (?p div 2)) \<le> key (?es ! i)" if "i div 2 = ?p" "0 < ?p div 2"
  proof -
    have q: "?p div 2 \<noteq> ?p" "?p div 2 \<noteq> pos" "i \<noteq> ?p" "2 \<le> ?p" using that by auto
    have g: "key (es ! (?p div 2)) \<le> key (es ! ?p)" using o1 [of ?p] q assms(3) p by simp
    show ?thesis
    proof (cases "i = pos")
      case True then show ?thesis using g q by (simp add: new)
    next
      case False then show ?thesis using g q o1 [of i] i that p by (simp add: new)
    qed
  qed
  show "(i \<noteq> ?p \<longrightarrow> key (?es ! (i div 2)) \<le> key (?es ! i))
      \<and> (i div 2 = ?p \<and> 0 < ?p div 2 \<longrightarrow> key (?es ! (?p div 2)) \<le> key (?es ! i))"
    using n1 n2 by blast
qed

lemma ordered_bh_up:
  "ordered_above key (es[pos := elem]) n pos \<Longrightarrow> 1 \<le> pos \<Longrightarrow> pos \<le> n \<Longrightarrow> n < length es \<Longrightarrow>
   ordered_from key (bh_up key elem es pos) 1 n"
proof (induction key elem es pos rule: bh_up.induct)
  case (1 key elem es pos)
  show ?case
  proof (cases "pos > 1 \<and> key elem < key (es ! (pos div 2))")
    case True
    have "ordered_from key (bh_up key elem (es[pos := es ! (pos div 2)]) (pos div 2)) 1 n"
      using "1.IH" [OF True] ordered_above_step [of key es pos elem n] "1.prems" True by auto
    then show ?thesis using True by (subst bh_up.simps) simp
  next
    case False
    have le: "key (es[pos := elem] ! (pos div 2)) \<le> key (es[pos := elem] ! pos)" if "2 \<le> pos"
      using False "1.prems" that by simp
    have "ordered_from key (es[pos := elem]) 1 n"
      unfolding ordered_from_def
    proof (intro allI impI)
      fix i assume i: "2 \<le> i \<and> i \<le> n \<and> 1 \<le> i div 2"
      show "key (es[pos := elem] ! (i div 2)) \<le> key (es[pos := elem] ! i)"
        using i le "1.prems"(1) by (cases "i = pos") (simp_all add: ordered_above_def)
    qed
    then show ?thesis using False by (subst bh_up.simps) auto
  qed
qed

definition bh_child :: "('a \<Rightarrow> int) \<Rightarrow> nat \<Rightarrow> 'a list \<Rightarrow> nat \<Rightarrow> nat" where
  "bh_child key n es k =
     (if k * 2 \<noteq> n \<and> key (es ! (k * 2 + 1)) < key (es ! (k * 2)) then k * 2 + 1 else k * 2)"

lemma bh_down_unfold:
  "bh_down key n elem es k =
     (if 0 < k \<and> k * 2 \<le> n \<and> key (es ! bh_child key n es k) < key elem
      then bh_down key n elem (es[k := es ! bh_child key n es k]) (bh_child key n es k)
      else es[k := elem])"
  by (subst bh_down.simps) (simp add: bh_child_def Let_def)

lemma bh_child_range: "0 < k \<Longrightarrow> k * 2 \<le> n \<Longrightarrow>
    k < bh_child key n es k \<and> bh_child key n es k \<le> n \<and> bh_child key n es k div 2 = k"
  by (auto simp: bh_child_def)

lemma bh_child_min: "k * 2 \<le> n \<Longrightarrow> i div 2 = k \<Longrightarrow> i \<le> n \<Longrightarrow> key (es ! bh_child key n es k) \<le> key (es ! i)"
proof -
  assume a: "k * 2 \<le> n" "i div 2 = k" "i \<le> n"
  then have "i = k * 2 \<or> i = k * 2 + 1" by auto
  then show ?thesis using a by (auto simp: bh_child_def)
qed

text \<open>Induction along the way down.\<close>

lemma bh_down_induct [case_names down]:
  assumes "\<And>es k. (0 < k \<Longrightarrow> k * 2 \<le> n \<Longrightarrow> key (es ! bh_child key n es k) < key elem \<Longrightarrow>
      P (es[k := es ! bh_child key n es k]) (bh_child key n es k)) \<Longrightarrow> P es k"
  shows "P es k"
proof (induction "Suc n - k" arbitrary: es k rule: less_induct)
  case less
  show ?case
  proof (rule assms)
    assume "0 < k" "k * 2 \<le> n"
    then have "Suc n - bh_child key n es k < Suc n - k" using bh_child_range [of k n key es] by linarith
    then show "P (es[k := es ! bh_child key n es k]) (bh_child key n es k)" by (rule less)
  qed
qed

lemma length_bh_down [simp]: "length (bh_down key n elem es k) = length es"
proof (induction es k rule: bh_down_induct [where n = n and key = key and elem = elem])
  case (down es k)
  then show ?case by (subst bh_down_unfold) simp
qed

lemma mset_bh_down: "k < length es \<Longrightarrow> n < length es \<Longrightarrow> mset (bh_down key n elem es k) = mset (es[k := elem])"
proof (induction es k rule: bh_down_induct [where n = n and key = key and elem = elem])
  case (down es k)
  let ?c = "bh_child key n es k"
  show ?case
  proof (cases "0 < k \<and> k * 2 \<le> n \<and> key (es ! ?c) < key elem")
    case True
    have c: "k < ?c" "?c < length es" using bh_child_range [of k n key es] True down.prems by auto
    then have "mset (bh_down key n elem es k) = mset (es[k := es ! ?c, ?c := elem])"
      using down True by (subst bh_down_unfold) simp
    also have "\<dots> = mset (es[k := elem])" using c by (intro swap_hole) auto
    finally show ?thesis .
  next
    case False
    then show ?thesis by (subst bh_down_unfold) auto
  qed
qed

lemma bh_down_frame: "j < k \<or> n < j \<Longrightarrow> k \<le> n \<or> k < j \<Longrightarrow> bh_down key n elem es k ! j = es ! j"
proof (induction es k rule: bh_down_induct [where n = n and key = key and elem = elem])
  case (down es k)
  let ?c = "bh_child key n es k"
  show ?case
  proof (cases "0 < k \<and> k * 2 \<le> n \<and> key (es ! ?c) < key elem")
    case True
    have c: "k < ?c" "?c \<le> n" using bh_child_range [of k n key es] True by auto
    then have "bh_down key n elem (es[k := es ! ?c]) ?c ! j = es[k := es ! ?c] ! j"
      using down True by auto
    then show ?thesis using True down.prems by (subst bh_down_unfold) auto
  next
    case False
    then show ?thesis using down.prems by (subst bh_down_unfold) auto
  qed
qed

lemma ordered_below_step:
  assumes ord: "ordered_below key (es[k := elem]) m n k" and "0 < k" "m \<le> k" "k * 2 \<le> n" "n < length es"
    and less: "key (es ! bh_child key n es k) < key elem"
  defines "c \<equiv> bh_child key n es k"
  shows "ordered_below key (es[k := es ! c, c := elem]) m n c"
  unfolding ordered_below_def
proof (intro allI impI)
  fix i assume i: "2 \<le> i \<and> i \<le> n \<and> m \<le> i div 2"
  let ?es = "es[k := es ! c, c := elem]"
  have c: "k < c" "c \<le> n" "c div 2 = k" "c < length es"
    using bh_child_range [of k n key es] assms(2,4,5) by (auto simp: c_def)
  have new: "?es ! j = (if j = c then elem else if j = k then es ! c else es ! j)" for j
    using c by (simp add: nth_list_update)
  have o1: "key (es ! (j div 2)) \<le> key (es ! j)" if "2 \<le> j" "j \<le> n" "m \<le> j div 2" "j div 2 \<noteq> k" "j \<noteq> k" for j
    using ord that c unfolding ordered_below_def by (metis nth_list_update_neq)
  have min: "key (es ! c) \<le> key (es ! j)" if "j \<le> n" "j div 2 = k" for j
    using bh_child_min [of k n j key es] that assms(4) by (simp add: c_def)
  have up: "key (es ! (k div 2)) \<le> key (es ! c)" if "m \<le> k div 2" "0 < k div 2"
  proof -
    have "k div 2 \<noteq> k" "k \<noteq> c" "2 \<le> c" using that c by auto
    then show ?thesis using ord that c assms(3) unfolding ordered_below_def by (metis nth_list_update_neq)
  qed
  have "key (?es ! (i div 2)) \<le> key (?es ! i)" if "i div 2 \<noteq> c"
  proof -
    consider "i = c" | "i \<noteq> c" "i div 2 = k" | "i = k" | "i \<noteq> c" "i div 2 \<noteq> k" "i \<noteq> k" by blast
    then show ?thesis
    proof cases
      case 1 then show ?thesis using less c by (simp add: new c_def)
    next
      case 2 then show ?thesis using min [of i] i c by (auto simp: new)
    next
      case 3 then show ?thesis using up i c that by (auto simp: new)
    next
      case 4 then show ?thesis using o1 [of i] i that by (simp add: new)
    qed
  qed
  moreover have "key (?es ! (c div 2)) \<le> key (?es ! i)" if "i div 2 = c"
    using o1 [of i] i that c by (auto simp: new)
  ultimately show "if i div 2 = c then m \<le> c div 2 \<and> 0 < c div 2 \<longrightarrow> key (?es ! (c div 2)) \<le> key (?es ! i)
      else key (?es ! (i div 2)) \<le> key (?es ! i)"
    by simp
qed

lemma ordered_below_leaf:
  assumes "ordered_below key es m n k" "\<And>i. 2 \<le> i \<Longrightarrow> i \<le> n \<Longrightarrow> i div 2 = k \<Longrightarrow> key (es ! k) \<le> key (es ! i)"
  shows "ordered_from key es m n"
  unfolding ordered_from_def
proof (intro allI impI)
  fix i assume "2 \<le> i \<and> i \<le> n \<and> m \<le> i div 2"
  then show "key (es ! (i div 2)) \<le> key (es ! i)"
    using assms unfolding ordered_below_def by (cases "i div 2 = k") auto
qed

lemma ordered_bh_down:
  "ordered_below key (es[k := elem]) m n k \<Longrightarrow> 0 < k \<Longrightarrow> m \<le> k \<Longrightarrow> k \<le> n \<Longrightarrow> n < length es \<Longrightarrow>
   ordered_from key (bh_down key n elem es k) m n"
proof (induction es k rule: bh_down_induct [where n = n and key = key and elem = elem])
  case (down es k)
  let ?c = "bh_child key n es k"
  show ?case
  proof (cases "k * 2 \<le> n \<and> key (es ! ?c) < key elem")
    case True
    have c: "k < ?c" "?c \<le> n" using bh_child_range [of k n key es] True down.prems by auto
    have "ordered_from key (bh_down key n elem (es[k := es ! ?c]) ?c) m n"
      using down.IH ordered_below_step [OF down.prems(1,2,3)] True c down.prems by auto
    then show ?thesis using True down.prems by (subst bh_down_unfold) auto
  next
    case False
    have "ordered_from key (es[k := elem]) m n"
    proof (rule ordered_below_leaf [OF down.prems(1)])
      fix i assume i: "2 \<le> i" "i \<le> n" "i div 2 = k"
      then have "k * 2 \<le> n" "i \<noteq> k" by auto
      then show "key (es[k := elem] ! k) \<le> key (es[k := elem] ! i)"
        using bh_child_min [of k n i key es] False i down.prems by auto
    qed
    then show ?thesis using False by (subst bh_down_unfold) auto
  qed
qed

section \<open>The heap as a multiset\<close>

definition bh_items :: "'a bheap \<Rightarrow> 'a list" where
  "bh_items h = take (bh_size h) (tl (bh_elems h))"

definition bh_inv :: "('a \<Rightarrow> int) \<Rightarrow> 'a bheap \<Rightarrow> bool" where
  "bh_inv key h \<longleftrightarrow> bh_size h < length (bh_elems h) \<and> ordered_from key (bh_elems h) 1 (bh_size h)"

lemma nth_bh_items: "i < bh_size h \<Longrightarrow> bh_size h < length (bh_elems h) \<Longrightarrow> bh_items h ! i = bh_elems h ! Suc i"
  by (simp add: bh_items_def nth_tl)

lemma length_bh_items: "bh_size h < length (bh_elems h) \<Longrightarrow> length (bh_items h) = bh_size h"
  by (simp add: bh_items_def)

lemma split_slots:
  assumes "n < length es"
  shows "es = es ! 0 # take n (tl es) @ drop (Suc n) es"
  using assms by (cases es) auto

lemma mset_slots:
  assumes "length es' = length es" "n < length es" "mset es' = mset es" "es' ! 0 = es ! 0"
    "\<And>j. n < j \<Longrightarrow> es' ! j = es ! j"
  shows "mset (take n (tl es')) = mset (take n (tl es))"
proof -
  have "drop (Suc n) es' = drop (Suc n) es"
    by (rule nth_equalityI) (use assms in auto)
  moreover have "mset (es' ! 0 # take n (tl es') @ drop (Suc n) es') = mset (es ! 0 # take n (tl es) @ drop (Suc n) es)"
    using split_slots [of n es] split_slots [of n es'] assms(1-3) by simp
  ultimately show ?thesis using assms(4) by simp
qed

lemma mset_items_down:
  assumes "n < length es" "0 < k" "k \<le> n" "elem = es ! k"
  shows "mset (take n (tl (bh_down key n elem es k))) = mset (take n (tl es))"
proof (rule mset_slots)
  have "es[k := elem] = es" using assms(4) by simp
  then show "mset (bh_down key n elem es k) = mset es" using mset_bh_down [of k es n key elem] assms by simp
qed (use assms in \<open>simp_all add: bh_down_frame\<close>)

lemma ordered_from_below:
  assumes "ordered_from key es (Suc k) n"
  shows "ordered_below key es k n k"
  using assms unfolding ordered_from_def ordered_below_def
  by (metis Suc_leI div_le_dividend le_neq_implies_less less_irrefl_nat div_less_dividend one_less_numeral_iff semiring_norm(76) leD)

lemma bh_build_ok:
  assumes "bh_size h < length (bh_elems h)" "ordered_from key (bh_elems h) (Suc i) (bh_size h)" "i \<le> bh_size h"
  shows "bh_size (bh_build key i h) = bh_size h \<and> length (bh_elems (bh_build key i h)) = length (bh_elems h)
    \<and> ordered_from key (bh_elems (bh_build key i h)) 1 (bh_size h)
    \<and> mset (bh_items (bh_build key i h)) = mset (bh_items h)"
  using assms
proof (induction i arbitrary: h)
  case (Suc i)
  let ?h = "bh_PercolateDown key (Suc i) h"
  have el: "bh_elems ?h = bh_down key (bh_size h) (bh_elems h ! Suc i) (bh_elems h) (Suc i)" "bh_size ?h = bh_size h"
    by (simp_all add: bh_PercolateDown_def)
  have "ordered_from key (bh_elems ?h) (Suc i) (bh_size ?h)"
    unfolding el using Suc.prems by (intro ordered_bh_down) (auto intro: ordered_from_below)
  then have "bh_size (bh_build key i ?h) = bh_size ?h \<and> length (bh_elems (bh_build key i ?h)) = length (bh_elems ?h)
      \<and> ordered_from key (bh_elems (bh_build key i ?h)) 1 (bh_size ?h)
      \<and> mset (bh_items (bh_build key i ?h)) = mset (bh_items ?h)"
    using Suc.prems el by (intro Suc.IH) auto
  moreover have "mset (bh_items ?h) = mset (bh_items h)"
    unfolding bh_items_def el using Suc.prems by (intro mset_items_down) auto
  ultimately show ?case by (simp add: el)
qed simp

lemma bh_BuildHeap_ok:
  assumes "bh_size h < length (bh_elems h)"
  shows "bh_inv key (bh_BuildHeap key h) \<and> mset (bh_items (bh_BuildHeap key h)) = mset (bh_items h)"
proof -
  have "ordered_from key (bh_elems h) (Suc (bh_size h div 2)) (bh_size h)"
    by (auto simp: ordered_from_def)
  from bh_build_ok [OF assms this] show ?thesis
    using assms by (simp add: bh_BuildHeap_def bh_inv_def)
qed

lemma bh_Insert_ok:
  assumes "bh_inv key h"
  shows "bh_inv key (bh_Insert dflt key elem h)"
    "mset (bh_items (bh_Insert dflt key elem h)) = add_mset elem (mset (bh_items h))"
proof -
  let ?n = "bh_size h" and ?h = "bh_Insert dflt key elem h"
  define es where "es = (if ?n = length (bh_elems h) - 1 then bh_elems h @ replicate (length (bh_elems h)) dflt
      else bh_elems h)"
  have inv: "?n < length (bh_elems h)" "ordered_from key (bh_elems h) 1 ?n" using assms by (auto simp: bh_inv_def)
  have es: "Suc ?n < length es" "\<And>j. j \<le> ?n \<Longrightarrow> es ! j = bh_elems h ! j" "take ?n (tl es) = take ?n (tl (bh_elems h))"
    using inv(1) by (auto simp: es_def nth_append tl_append split: list.splits)
  have h: "bh_size ?h = Suc ?n" "bh_elems ?h = bh_up key elem es (Suc ?n)"
    by (simp_all add: bh_Insert_def es_def Let_def)
  have "ordered_above key (es[Suc ?n := elem]) (Suc ?n) (Suc ?n)"
    unfolding ordered_above_def
  proof (intro allI impI)
    fix i assume i: "2 \<le> i \<and> i \<le> Suc ?n"
    then have "i div 2 \<le> ?n" "i div 2 \<noteq> Suc ?n" "1 \<le> i div 2" by auto
    then show "(i \<noteq> Suc ?n \<longrightarrow> key (es[Suc ?n := elem] ! (i div 2)) \<le> key (es[Suc ?n := elem] ! i))
        \<and> (i div 2 = Suc ?n \<and> 0 < Suc ?n div 2 \<longrightarrow> key (es[Suc ?n := elem] ! (Suc ?n div 2)) \<le> key (es[Suc ?n := elem] ! i))"
      using inv(2) i es(2) unfolding ordered_from_def by auto
  qed
  then show "bh_inv key ?h" using es(1) ordered_bh_up [of key es "Suc ?n" elem "Suc ?n"] by (simp add: bh_inv_def h)
  have "mset (take (Suc ?n) (tl (bh_up key elem es (Suc ?n)))) = mset (take (Suc ?n) (tl (es[Suc ?n := elem])))"
    using es(1) by (intro mset_slots) (simp_all add: mset_bh_up bh_up_frame)
  also have "take (Suc ?n) (tl (es[Suc ?n := elem])) = take ?n (tl es) @ [elem]"
    using es(1) by (cases es) (simp_all add: take_Suc_conv_app_nth)
  finally show "mset (bh_items ?h) = add_mset elem (mset (bh_items h))"
    by (simp add: bh_items_def h es(3))
qed

lemma ordered_from_1_min:
  assumes "ordered_from key es 1 n" "1 \<le> i" "i \<le> n"
  shows "key (es ! 1) \<le> key (es ! i)"
  using assms(2,3)
proof (induction i rule: less_induct)
  case (less i)
  show ?case
  proof (cases "i = 1")
    case False
    then have i: "2 \<le> i" "i div 2 < i" "1 \<le> i div 2" using less.prems by auto
    then have "key (es ! 1) \<le> key (es ! (i div 2))" using less by auto
    also have "\<dots> \<le> key (es ! i)" using assms(1) i less.prems by (auto simp: ordered_from_def)
    finally show ?thesis .
  qed simp
qed

lemma bh_FindTop_ok:
  assumes "bh_inv key h" "bh_items h \<noteq> []"
  shows "\<exists>x. bh_FindTop h = Inr x \<and> x \<in># mset (bh_items h) \<and> (\<forall>y \<in># mset (bh_items h). key x \<le> key y)"
proof -
  have n: "bh_size h < length (bh_elems h)" using assms(1) by (simp add: bh_inv_def)
  have pos: "0 < bh_size h" using assms(2) by (auto simp: bh_items_def)
  then have top: "bh_elems h ! 1 = bh_items h ! 0" using nth_bh_items [OF _ n, of 0] by simp
  have "key (bh_elems h ! 1) \<le> key y" if y: "y \<in> set (bh_items h)" for y
  proof -
    obtain i where "i < bh_size h" "y = bh_elems h ! Suc i"
      using y n by (auto simp: in_set_conv_nth length_bh_items nth_bh_items)
    then show ?thesis using ordered_from_1_min [of key "bh_elems h" "bh_size h" "Suc i"] assms(1) by (simp add: bh_inv_def)
  qed
  moreover have "bh_items h ! 0 \<in> set (bh_items h)" using assms(2) by (cases "bh_items h") auto
  ultimately show ?thesis using pos top by (auto simp: bh_FindTop_def bh_IsEmpty_def)
qed

lemma bh_DeleteTop_ok:
  assumes "bh_inv key h" "bh_items h \<noteq> []"
  shows "\<exists>h'. bh_DeleteTop dflt key h = Inr h' \<and> bh_inv key h'
     \<and> mset (bh_items h) = add_mset (bh_elems h ! 1) (mset (bh_items h'))"
proof -
  let ?n = "bh_size h" and ?es = "bh_elems h"
  have n: "?n < length ?es" "0 < ?n" "ordered_from key ?es 1 ?n"
    using assms by (auto simp: bh_inv_def bh_items_def)
  define es where "es = (if ?n \<noteq> 1 then ?es[1 := ?es ! ?n] else ?es)[?n := dflt]"
  let ?h = "bh_PercolateDown key 1 \<lparr>bh_size = ?n - 1, bh_elems = es\<rparr>"
  have del: "bh_DeleteTop dflt key h = Inr ?h" using n by (simp add: bh_DeleteTop_def bh_IsEmpty_def es_def Let_def)
  have le: "length es = length ?es" by (simp add: es_def)
  have items: "mset (bh_items h) = add_mset (?es ! 1) (mset (take (?n - 1) (tl es)))"
  proof (cases "?n = 1")
    case True
    then show ?thesis using n by (cases ?es) (auto simp: bh_items_def take_Suc hd_conv_nth split: list.splits)
  next
    case False
    let ?t = "tl ?es"
    have t: "tl es = (?t[0 := ?es ! ?n])[?n - 1 := dflt]"
      using False n by (cases ?es) (auto simp: es_def split: nat.splits)
    then have "take (?n - 1) (tl es) = (take (?n - 1) ?t)[0 := ?es ! ?n]" by (simp add: take_update_swap list_update_beyond)
    moreover have "take ?n ?t = take (?n - 1) ?t @ [?t ! (?n - 1)]"
      using n take_Suc_conv_app_nth [of "?n - 1" ?t] by simp
    moreover have "?t ! (?n - 1) = ?es ! ?n" "?t ! 0 = ?es ! 1" using n by (simp_all add: nth_tl)
    moreover have "mset ((take (?n - 1) ?t)[0 := x]) = add_mset x (mset (take (?n - 1) ?t) - {#?t ! 0#})" for x
      using n False by (subst mset_update) auto
    moreover have "?t ! 0 \<in># mset (take (?n - 1) ?t)"
    proof -
      have "?t \<noteq> []" using n by (cases ?es) auto
      then show ?thesis using n False by (cases ?t) (auto simp: take_Cons')
    qed
    ultimately show ?thesis by (simp add: bh_items_def)
  qed
  have ob: "ordered_from key (bh_elems ?h) 1 (?n - 1) \<and> mset (take (?n - 1) (tl (bh_elems ?h))) = mset (take (?n - 1) (tl es))"
  proof (cases "?n = 1")
    case True
    have "bh_elems ?h = es" using True by (simp add: bh_PercolateDown_def bh_down_unfold)
    then show ?thesis using True by (simp add: ordered_from_def)
  next
    case False
    have nth: "es ! j = ?es ! j" if "1 < j" "j < ?n" for j using that by (simp add: es_def)
    have "ordered_from key es 2 (?n - 1)"
      unfolding ordered_from_def
    proof (intro allI impI)
      fix i assume "2 \<le> i \<and> i \<le> ?n - 1 \<and> 2 \<le> i div 2"
      then show "key (es ! (i div 2)) \<le> key (es ! i)" using n(3) nth [of i] nth [of "i div 2"] by (auto simp: ordered_from_def)
    qed
    then have "ordered_below key es 1 (?n - 1) 1" using ordered_from_below [of key es 1] by (simp add: numeral_2_eq_2)
    then show ?thesis
      using False n le ordered_bh_down [of key es 1 "es ! 1" 1 "?n - 1"] mset_items_down [of "?n - 1" es 1 "es ! 1" key]
      by (simp add: bh_PercolateDown_def)
  qed
  then show ?thesis
    using del items n le by (simp add: bh_inv_def bh_items_def bh_PercolateDown_def)
qed

text \<open>Deleting an element anywhere.\<close>

lemma bh_DeleteElem_at_ok:
  assumes "bh_inv key h" "1 \<le> i" "i \<le> bh_size h"
  shows "\<exists>h'. bh_DeleteElem_at key i h = Inr h' \<and> bh_inv key h'
     \<and> mset (bh_items h) = add_mset (bh_elems h ! i) (mset (bh_items h'))"
proof -
  let ?n = "bh_size h"
  have n: "?n < length (bh_elems h)" using assms(1) by (simp add: bh_inv_def)
  define es where "es = map (\<lambda>j. if i \<le> j \<and> j < ?n then bh_elems h ! (j + 1) else bh_elems h ! j) [0..<length (bh_elems h)]"
  let ?h = "\<lparr>bh_size = ?n - 1, bh_elems = es\<rparr>"
  have del: "bh_DeleteElem_at key i h = Inr (bh_BuildHeap key ?h)"
    using assms(2,3) by (simp add: bh_DeleteElem_at_def bh_IsEmpty_def es_def)
  have len: "length es = length (bh_elems h)" by (simp add: es_def)
  have it: "bh_items ?h = take (i - 1) (bh_items h) @ drop i (bh_items h)"
  proof (rule nth_equalityI)
    show "length (bh_items ?h) = length (take (i - 1) (bh_items h) @ drop i (bh_items h))"
      using assms n len by (simp add: length_bh_items)
    fix j assume "j < length (bh_items ?h)"
    then have j: "j < ?n - 1" using n len by (simp add: length_bh_items)
    then have "bh_items ?h ! j = es ! Suc j" using nth_bh_items [of j ?h] n len by simp
    also have "\<dots> = (if i \<le> Suc j then bh_elems h ! (j + 2) else bh_elems h ! Suc j)"
      using j n by (auto simp: es_def)
    also have "\<dots> = (take (i - 1) (bh_items h) @ drop i (bh_items h)) ! j"
      using j assms(2,3) n nth_bh_items [of j h] nth_bh_items [of "Suc j" h]
      by (auto simp: nth_append length_bh_items)
    finally show "bh_items ?h ! j = (take (i - 1) (bh_items h) @ drop i (bh_items h)) ! j" .
  qed
  have "bh_items h = take (i - 1) (bh_items h) @ bh_items h ! (i - 1) # drop i (bh_items h)"
    using id_take_nth_drop [of "i - 1" "bh_items h"] assms n by (simp add: length_bh_items)
  then have "mset (bh_items h) = mset (take (i - 1) (bh_items h) @ bh_items h ! (i - 1) # drop i (bh_items h))"
    by (rule arg_cong)
  then have "mset (bh_items h) = add_mset (bh_elems h ! i) (mset (bh_items ?h))"
    using it nth_bh_items [of "i - 1" h] assms n by simp
  moreover have "?n - 1 < length es" using n len by simp
  ultimately show ?thesis using del bh_BuildHeap_ok [of ?h key] by simp
qed

lemma bh_search_ok:
  "x \<in> set xs \<Longrightarrow> \<exists>j < length xs. bh_search x i xs = Some (i + j) \<and> xs ! j = x"
proof (induction x i xs rule: bh_search.induct)
  case (2 elem i e es)
  show ?case
  proof (cases "e = elem")
    case False
    then obtain j where "j < length es" "bh_search elem (i + 1) es = Some (i + 1 + j)" "es ! j = elem" using 2 by auto
    then show ?thesis using False by (intro exI [of _ "Suc j"]) simp
  qed auto
qed simp

lemma bh_DeleteElem_ok:
  assumes "bh_inv key h" "x \<in># mset (bh_items h)"
  shows "\<exists>h'. bh_DeleteElem key x h = Inr h' \<and> bh_inv key h' \<and> mset (bh_items h) = add_mset x (mset (bh_items h'))"
proof -
  have n: "bh_size h < length (bh_elems h)" using assms(1) by (simp add: bh_inv_def)
  obtain j where j: "j < bh_size h" "bh_search x 1 (bh_items h) = Some (1 + j)" "bh_items h ! j = x"
    using bh_search_ok [of x "bh_items h" 1] assms(2) n by (auto simp: length_bh_items)
  then show ?thesis
    using bh_DeleteElem_at_ok [OF assms(1), of "1 + j"] nth_bh_items [OF j(1) n]
    by (simp add: bh_DeleteElem_def bh_items_def)
qed

section \<open>The contract\<close>

text \<open>A priority queue: a multiset whose top is an element with a least key.\<close>

locale prio_queue =
  fixes key :: "'a \<Rightarrow> int"
    and top :: "'h \<Rightarrow> 'a result"
    and pop :: "'h \<Rightarrow> 'h result"
    and ins :: "'a \<Rightarrow> 'h \<Rightarrow> 'h"
    and del :: "'a \<Rightarrow> 'h \<Rightarrow> 'h result"
    and items :: "'h \<Rightarrow> 'a multiset"
    and ok :: "'h \<Rightarrow> bool"
  assumes top_empty: "items h = {#} \<Longrightarrow> ok h \<Longrightarrow> top h = Inl ERROR_NOT_FOUND"
    and top_least: "items h \<noteq> {#} \<Longrightarrow> ok h \<Longrightarrow> \<exists>x. top h = Inr x \<and> x \<in># items h \<and> (\<forall>y \<in># items h. key x \<le> key y)"
    and pop_top: "top h = Inr x \<Longrightarrow> ok h \<Longrightarrow> \<exists>h'. pop h = Inr h' \<and> ok h' \<and> items h = add_mset x (items h')"
    and ins_items: "ok h \<Longrightarrow> ok (ins x h) \<and> items (ins x h) = add_mset x (items h)"
    and del_items: "x \<in># items h \<Longrightarrow> ok h \<Longrightarrow> \<exists>h'. del x h = Inr h' \<and> ok h' \<and> items h = add_mset x (items h')"
begin

definition due :: "int \<Rightarrow> 'h \<Rightarrow> 'a multiset" where
  "due now h = filter_mset (\<lambda>x. key x \<le> now) (items h)"

lemma top_not_due:
  assumes "ok h" "top h = Inr x" "now < key x"
  shows "due now h = {#}"
proof -
  have "items h \<noteq> {#}" using pop_top [OF assms(2,1)] by auto
  then show ?thesis using top_least [OF _ assms(1)] assms(2,3) by (force simp: due_def)
qed

lemma pop_due:
  assumes "ok h" "top h = Inr x" "key x \<le> now"
  shows "\<exists>h'. pop h = Inr h' \<and> ok h' \<and> items h = add_mset x (items h') \<and> due now h = add_mset x (due now h')"
  using pop_top [OF assms(2,1)] assms(3) by (auto simp: due_def)

lemma ins_not_due: "ok h \<Longrightarrow> now < key x \<Longrightarrow> due now (ins x h) = due now h"
  using ins_items [of h x] by (simp add: due_def)

end

interpretation heap: prio_queue key bh_FindTop "bh_DeleteTop dflt key" "bh_Insert dflt key" "bh_DeleteElem key"
  "\<lambda>h. mset (bh_items h)" "bh_inv key" for key :: "'a \<Rightarrow> int" and dflt
proof (unfold_locales, goal_cases)
  case (1 h)
  have "length (bh_items h) = bh_size h" using 1(2) by (simp add: length_bh_items bh_inv_def)
  then have "bh_size h = 0" using 1(1) by simp
  then show ?case by (simp add: bh_FindTop_def bh_IsEmpty_def)
next
  case (2 h)
  then show ?case using bh_FindTop_ok [of key h] by simp
next
  case (3 h x)
  then have x: "x = bh_elems h ! 1" "0 < bh_size h" by (auto simp: bh_FindTop_def bh_IsEmpty_def split: if_splits)
  then have "length (bh_items h) \<noteq> 0" using 3(2) by (simp add: length_bh_items bh_inv_def)
  then show ?case using bh_DeleteTop_ok [OF 3(2), of dflt] x by auto
next
  case (4 h x)
  then show ?case using bh_Insert_ok [of key h dflt x] by simp
next
  case (5 x h)
  then show ?case using bh_DeleteElem_ok [of key h x] by simp
qed

lemma BinaryHeap_new_inv: "bh_inv key (BinaryHeap_new dflt n)" "bh_items (BinaryHeap_new dflt n) = []"
  by (auto simp: BinaryHeap_new_def bh_inv_def bh_items_def ordered_from_def)

section \<open>Properties\<close>

text \<open>C13: \<open>LLBC_BinaryHeap\<close> is a priority queue. On a well-formed heap \<open>Insert\<close> adds the element;
\<open>FindTop\<close> returns an element with a least key (or fails exactly on the empty heap); \<open>DeleteTop\<close>
removes that element and nothing else; \<open>DeleteElem\<close> removes one occurrence of the given element;
and every operation leaves a well-formed heap. A heap built from a list holds the list's elements.\<close>

theorem heap_is_priority_queue:
  assumes "bh_inv key h"
  shows "bh_inv key (bh_Insert dflt key x h)
     \<and> mset (bh_items (bh_Insert dflt key x h)) = add_mset x (mset (bh_items h))
     \<and> (bh_FindTop h = Inl ERROR_NOT_FOUND \<longleftrightarrow> bh_items h = [])
     \<and> (bh_items h \<noteq> [] \<longrightarrow> (\<exists>y h'. bh_FindTop h = Inr y \<and> bh_DeleteTop_elem dflt key h = Inr (y, h')
          \<and> bh_inv key h' \<and> mset (bh_items h) = add_mset y (mset (bh_items h'))
          \<and> (\<forall>z \<in> set (bh_items h). key y \<le> key z)))
     \<and> (x \<in> set (bh_items h) \<longrightarrow> (\<exists>h'. bh_DeleteElem key x h = Inr h' \<and> bh_inv key h'
          \<and> mset (bh_items h) = add_mset x (mset (bh_items h'))))
     \<and> bh_inv key (BinaryHeap_of dflt key xs) \<and> mset (bh_items (BinaryHeap_of dflt key xs)) = mset xs"
proof -
  have "\<exists>y h'. bh_FindTop h = Inr y \<and> bh_DeleteTop_elem dflt key h = Inr (y, h') \<and> bh_inv key h'
      \<and> mset (bh_items h) = add_mset y (mset (bh_items h')) \<and> (\<forall>z \<in> set (bh_items h). key y \<le> key z)"
    if ne: "bh_items h \<noteq> []"
  proof -
    obtain y where y: "bh_FindTop h = Inr y" "\<forall>z \<in> set (bh_items h). key y \<le> key z"
      using bh_FindTop_ok [OF assms ne] by auto
    then have "y = bh_elems h ! 1" by (auto simp: bh_FindTop_def split: if_splits)
    then show ?thesis
      using y heap.pop_top [OF y(1) assms, of dflt] by (auto simp: bh_DeleteTop_elem_def)
  qed
  moreover have "bh_FindTop h = Inl ERROR_NOT_FOUND \<longleftrightarrow> bh_items h = []"
    using bh_FindTop_ok [OF assms] heap.top_empty [OF _ assms] by force
  ultimately show ?thesis
    using bh_Insert_ok [OF assms] bh_DeleteElem_ok [OF assms, of x]
      bh_BuildHeap_ok [of "\<lparr>bh_size = length xs, bh_elems = dflt # xs\<rparr>" key]
    by (simp add: BinaryHeap_of_def bh_items_def)
qed

definition demo_heap :: "int bheap" where
  "demo_heap = \<lparr>bh_size = 2, bh_elems = [0, 5, 9]\<rparr>"

theorem heap_is_priority_queue_witness:
  "bh_inv (\<lambda>x. x) demo_heap
   \<and> (\<exists>h'. bh_DeleteTop_elem 0 (\<lambda>x. x) demo_heap = Inr (5, h') \<and> mset (bh_items h') = {#9#})"
proof -
  have inv: "bh_inv (\<lambda>x. x) demo_heap"
  proof -
    have "i = 2" if "2 \<le> i" "i \<le> 2" for i :: nat using that by simp
    then show ?thesis by (auto simp: bh_inv_def demo_heap_def ordered_from_def)
  qed
  have "bh_items demo_heap = [5, 9]" "bh_FindTop demo_heap = Inr 5"
    by (simp_all add: demo_heap_def bh_items_def bh_FindTop_def bh_IsEmpty_def)
  with heap_is_priority_queue [OF inv, of 0 0 "[]"] show ?thesis using inv by auto
qed

end
