(* ===== verification/Timer.thy ===== *)
theory Timer
  imports Binary_Heap
begin

text \<open>
  Timers: \<open>LLBC_TimerData\<close> (llbc/core/timer/TimerData.h), \<open>LLBC_TimerScheduler\<close>
  (TimerScheduler.cpp) and \<open>LLBC_Timer\<close> (Timer.cpp).

  The state is the record \<open>tstate\<close>, which the coroutine layer extends: the clock, the scheduler's
  fields, the timer data objects that are allocated (\<open>ts_data\<close>, by address), and for every timer
  object its \<open>_timerData\<close> pointer (\<open>ts_timers\<close>). Deleted objects are absent from these maps and an
  access to one is the fault \<open>UseAfterFree\<close>. The delegates of a timer are arguments of the
  operations that call them. The scheduler pointer of a timer is never null here, as in \<open>Coro\<close>.
  LLBC_CFG_CORE_TIMER_STRICT_SCHEDULE is 0, so the inner loop of \<open>Update\<close> is one call. \<open>Update\<close> has
  fuel; the locale \<open>timeout_client\<close> shows how much is enough.
\<close>

section \<open>State\<close>

record timer_data =
  td_handle :: int
  td_timerId :: nat
  td_dueTime :: int
  td_period :: int
  td_repeatTimes :: int
  td_timer :: nat
  td_validate :: bool
  td_cancelling :: bool
  td_timeouting :: bool
  td_refCount :: nat

record tstate =
  ts_now :: int
  ts_heap :: "nat bheap"
  ts_maxTimerId :: nat
  ts_enabled :: bool
  ts_destroyed :: bool
  ts_data :: "nat \<rightharpoonup> timer_data"
  ts_timers :: "nat \<rightharpoonup> nat option"
  ts_next :: nat

type_synonym 'b handler = "nat \<Rightarrow> 'b tstate_scheme \<Rightarrow> 'b tstate_scheme outcome"

text \<open>\<open>std::less<LLBC_TimerData *>\<close> compares handles.\<close>

definition ts_key :: "'b tstate_scheme \<Rightarrow> nat \<Rightarrow> int" where
  "ts_key w p = (case ts_data w p of None \<Rightarrow> 0 | Some d \<Rightarrow> td_handle d)"

definition data_at :: "nat \<Rightarrow> 'b tstate_scheme \<Rightarrow> timer_data outcome" where
  "data_at p w = (case ts_data w p of None \<Rightarrow> Fault UseAfterFree | Some d \<Rightarrow> Ok d)"

definition set_data :: "nat \<Rightarrow> timer_data \<Rightarrow> 'b tstate_scheme \<Rightarrow> 'b tstate_scheme" where
  "set_data p d w = w\<lparr>ts_data := (ts_data w)(p \<mapsto> d)\<rparr>"

text \<open>\<open>if (--data->refCount == 0) delete data;\<close> with an 8-bit counter.\<close>

definition drop_ref :: "nat \<Rightarrow> 'b tstate_scheme \<Rightarrow> 'b tstate_scheme outcome" where
  "drop_ref p w = obind (data_at p w) (\<lambda>d. let n = (td_refCount d + 255) mod 256 in
     Ok (if n = 0 then w\<lparr>ts_data := (ts_data w)(p := None)\<rparr> else set_data p (d\<lparr>td_refCount := n\<rparr>) w))"

definition timer_ptr :: "nat \<Rightarrow> 'b tstate_scheme \<Rightarrow> nat option outcome" where
  "timer_ptr t w = (case ts_timers w t of None \<Rightarrow> Fault UseAfterFree | Some p \<Rightarrow> Ok p)"

definition ts_init :: "int \<Rightarrow> tstate" where
  "ts_init now = \<lparr>ts_now = now, ts_heap = BinaryHeap_new 0 0, ts_maxTimerId = 0, ts_enabled = True,
     ts_destroyed = False, ts_data = Map.empty, ts_timers = Map.empty, ts_next = 1\<rparr>"

section \<open>The scheduler\<close>

definition LONG_TIMEOUT_TIME :: int where
  "LONG_TIMEOUT_TIME = 864000000"

text \<open>The object that \<open>Schedule\<close> allocates; and \<open>Schedule\<close>, whose first result is the error, if any.\<close>

definition fresh_data :: "nat \<Rightarrow> int \<Rightarrow> int \<Rightarrow> 'b tstate_scheme \<Rightarrow> timer_data" where
  "fresh_data t due per w = \<lparr>td_handle = ts_now w + due, td_timerId = ts_maxTimerId w + 1, td_dueTime = due,
     td_period = per, td_repeatTimes = 0, td_timer = t, td_validate = True, td_cancelling = False,
     td_timeouting = False, td_refCount = 2\<rparr>"

definition Scheduler_Schedule :: "nat \<Rightarrow> int \<Rightarrow> int \<Rightarrow> 'b tstate_scheme
    \<Rightarrow> (llbc_error option \<times> 'b tstate_scheme) outcome" where
  "Scheduler_Schedule timer dueTime period w =
     (if ts_destroyed w then Ok (Some ERROR_INVALID, w)
      else let data = ts_next w;
               w1 = (set_data data (fresh_data timer dueTime period w) w)\<lparr>ts_next := data + 1, ts_maxTimerId := ts_maxTimerId w + 1\<rparr>
           in obind (timer_ptr timer w1) (\<lambda>old.
              obind (case old of None \<Rightarrow> Ok w1 | Some p \<Rightarrow> drop_ref p w1) (\<lambda>w2.
                let w3 = w2\<lparr>ts_timers := (ts_timers w2)(timer \<mapsto> Some data)\<rparr>
                in Ok (None, w3\<lparr>ts_heap := bh_Insert 0 (ts_key w3) data (ts_heap w3)\<rparr>))))"

definition Scheduler_Cancel :: "'b handler \<Rightarrow> nat \<Rightarrow> 'b tstate_scheme
    \<Rightarrow> (llbc_error option \<times> 'b tstate_scheme) outcome" where
  "Scheduler_Cancel onCancel timer w =
     (if ts_destroyed w then Ok (Some ERROR_INVALID, w)
      else obind (timer_ptr timer w) (\<lambda>ptr. case ptr of None \<Rightarrow> Fault NullDeref | Some data \<Rightarrow>
        obind (data_at data w) (\<lambda>d. if td_timer d \<noteq> timer then Fault AssertFail else
        obind (onCancel timer (set_data data (d\<lparr>td_validate := False, td_cancelling := True\<rparr>) w)) (\<lambda>w1.
        obind (data_at data w1) (\<lambda>d1.
          let w2 = set_data data (d1\<lparr>td_cancelling := False\<rparr>) w1 in
          if td_timeouting d1 then Ok (None, w2)
          else if td_handle d1 - ts_now w2 \<ge> LONG_TIMEOUT_TIME
          then (case bh_DeleteElem (ts_key w2) data (ts_heap w2) of Inl _ \<Rightarrow> Fault AssertFail
                | Inr h \<Rightarrow> obind (drop_ref data (w2\<lparr>ts_heap := h\<rparr>)) (\<lambda>w3.
                    Ok (None, if ts_data w3 data = None
                              then w3\<lparr>ts_timers := (ts_timers w3)(timer \<mapsto> None)\<rparr> else w3)))
          else Ok (None, w2))))))"

text \<open>\<open>Update\<close>: the loop over the heap, and its body for a timer that is due and valid.\<close>

definition fire_timer :: "'b handler \<Rightarrow> int \<Rightarrow> nat \<Rightarrow> timer_data \<Rightarrow> 'b tstate_scheme \<Rightarrow> 'b tstate_scheme outcome" where
  "fire_timer onTimeout now data d w =
     (if ts_timers w (td_timer d) = None then Fault UseAfterFree
      else obind (onTimeout (td_timer d)
            (set_data data (d\<lparr>td_timeouting := True, td_repeatTimes := td_repeatTimes d + 1\<rparr>) w)) (\<lambda>w1.
        obind (data_at data w1) (\<lambda>d1.
          let w2 = set_data data (d1\<lparr>td_timeouting := False\<rparr>) w1 in
          if td_validate d1
          then let delay = (if td_period d1 \<noteq> 0 then (now - td_handle d1) smod td_period d1 else 0);
                   w3 = set_data data (d1\<lparr>td_timeouting := False, td_handle := now + td_period d1 - delay\<rparr>) w2
               in Ok (w3\<lparr>ts_heap := bh_Insert 0 (ts_key w3) data (ts_heap w3)\<rparr>)
          else drop_ref data w2)))"

fun Update_loop :: "nat \<Rightarrow> 'b handler \<Rightarrow> int \<Rightarrow> 'b tstate_scheme \<Rightarrow> 'b tstate_scheme outcome" where
  "Update_loop 0 onTimeout now w = Fuel"
| "Update_loop (Suc n) onTimeout now w =
     (case bh_FindTop (ts_heap w) of Inl _ \<Rightarrow> Ok w
      | Inr data \<Rightarrow> obind (data_at data w) (\<lambda>d.
          if now < td_handle d then Ok w
          else (case bh_DeleteTop 0 (ts_key w) (ts_heap w) of Inl _ \<Rightarrow> Fault AssertFail
            | Inr h \<Rightarrow> obind (if \<not> td_validate d then drop_ref data (w\<lparr>ts_heap := h\<rparr>)
                             else fire_timer onTimeout now data d (w\<lparr>ts_heap := h\<rparr>))
                        (Update_loop n onTimeout now))))"

definition Scheduler_Update :: "nat \<Rightarrow> 'b handler \<Rightarrow> 'b tstate_scheme \<Rightarrow> 'b tstate_scheme outcome" where
  "Scheduler_Update fuel onTimeout w =
     (if \<not> ts_enabled w \<or> bh_IsEmpty (ts_heap w) then Ok w
      else Update_loop fuel onTimeout (ts_now w) w)"

section \<open>The timer\<close>

definition Timer_new :: "nat \<Rightarrow> 'b tstate_scheme \<Rightarrow> 'b tstate_scheme" where
  "Timer_new timer w = w\<lparr>ts_timers := (ts_timers w)(timer \<mapsto> None)\<rparr>"

definition Timer_Cancel :: "'b handler \<Rightarrow> nat \<Rightarrow> 'b tstate_scheme
    \<Rightarrow> (llbc_error option \<times> 'b tstate_scheme) outcome" where
  "Timer_Cancel onCancel timer w =
     obind (timer_ptr timer w) (\<lambda>ptr. case ptr of None \<Rightarrow> Ok (None, w)
       | Some data \<Rightarrow> obind (data_at data w) (\<lambda>d.
           if \<not> td_validate d then Ok (None, w) else Scheduler_Cancel onCancel timer w))"

text \<open>Times are in microseconds, as in \<open>LLBC_TimeSpan\<close>; the scheduler works with milliseconds.\<close>

definition Timer_Schedule :: "'b handler \<Rightarrow> nat \<Rightarrow> int \<Rightarrow> int \<Rightarrow> 'b tstate_scheme
    \<Rightarrow> (llbc_error option \<times> 'b tstate_scheme) outcome" where
  "Timer_Schedule onCancel timer dueTime period w =
     obind (Timer_Cancel onCancel timer w) (\<lambda>(ret, w1). case ret of Some e \<Rightarrow> Ok (Some e, w1)
       | None \<Rightarrow> let dueTimeMillis = max 0 (dueTime div 1000);
                     periodMillis = max 0 (period div 1000)
                 in Scheduler_Schedule timer dueTimeMillis
                      (if periodMillis = 0 then dueTimeMillis else periodMillis) w1)"

definition Timer_IsScheduling :: "nat \<Rightarrow> 'b tstate_scheme \<Rightarrow> bool outcome" where
  "Timer_IsScheduling timer w = obind (timer_ptr timer w) (\<lambda>ptr. case ptr of None \<Rightarrow> Ok False
     | Some data \<Rightarrow> obind (data_at data w) (\<lambda>d. Ok (td_validate d)))"

definition Timer_IsTimeouting :: "nat \<Rightarrow> 'b tstate_scheme \<Rightarrow> bool outcome" where
  "Timer_IsTimeouting timer w = obind (timer_ptr timer w) (\<lambda>ptr. case ptr of None \<Rightarrow> Ok False
     | Some data \<Rightarrow> obind (data_at data w) (\<lambda>d. Ok (td_timeouting d)))"

definition Timer_IsCancelling :: "nat \<Rightarrow> 'b tstate_scheme \<Rightarrow> bool outcome" where
  "Timer_IsCancelling timer w = obind (timer_ptr timer w) (\<lambda>ptr. case ptr of None \<Rightarrow> Ok False
     | Some data \<Rightarrow> obind (data_at data w) (\<lambda>d. Ok (td_cancelling d)))"

definition Timer_delete :: "'b handler \<Rightarrow> nat \<Rightarrow> 'b tstate_scheme \<Rightarrow> 'b tstate_scheme outcome" where
  "Timer_delete onCancel timer w = obind (timer_ptr timer w) (\<lambda>ptr.
     obind (case ptr of None \<Rightarrow> Ok w
            | Some _ \<Rightarrow> obind (Timer_Cancel onCancel timer w) (\<lambda>(_, w1).
                obind (timer_ptr timer w1) (\<lambda>ptr1. case ptr1 of None \<Rightarrow> Fault NullDeref
                  | Some data \<Rightarrow> drop_ref data w1)))
       (\<lambda>w2. Ok (w2\<lparr>ts_timers := (ts_timers w2)(timer := None)\<rparr>)))"

text \<open>\<open>CancelAll\<close> stops at the first timer in the heap array that is no longer valid.\<close>

fun CancelAll_loop :: "'b handler \<Rightarrow> nat list \<Rightarrow> 'b tstate_scheme \<Rightarrow> 'b tstate_scheme outcome" where
  "CancelAll_loop onCancel [] w = Ok w"
| "CancelAll_loop onCancel (data # elems) w = obind (data_at data w) (\<lambda>d.
     if \<not> td_validate d then Ok w
     else obind (Timer_Cancel onCancel (td_timer d) w) (\<lambda>(_, w1). CancelAll_loop onCancel elems w1))"

definition Scheduler_CancelAll :: "'b handler \<Rightarrow> 'b tstate_scheme \<Rightarrow> 'b tstate_scheme outcome" where
  "Scheduler_CancelAll onCancel w =
     (if ts_destroyed w then Ok w else CancelAll_loop onCancel (bh_items (ts_heap w)) w)"

fun Scheduler_delete_loop :: "'b handler \<Rightarrow> nat list \<Rightarrow> 'b tstate_scheme \<Rightarrow> 'b tstate_scheme outcome" where
  "Scheduler_delete_loop onCancel [] w = Ok w"
| "Scheduler_delete_loop onCancel (data # elems) w = obind (data_at data w) (\<lambda>d.
     obind (if td_validate d
            then obind (onCancel (td_timer d) (set_data data (d\<lparr>td_validate := False, td_cancelling := True\<rparr>) w))
                   (\<lambda>w1. obind (data_at data w1) (\<lambda>d1. Ok (set_data data (d1\<lparr>td_cancelling := False\<rparr>) w1)))
            else Ok w)
       (\<lambda>w2. obind (drop_ref data w2) (Scheduler_delete_loop onCancel elems)))"

definition Scheduler_delete :: "'b handler \<Rightarrow> 'b tstate_scheme \<Rightarrow> 'b tstate_scheme outcome" where
  "Scheduler_delete onCancel w =
     Scheduler_delete_loop onCancel (bh_items (ts_heap w)) (w\<lparr>ts_destroyed := True\<rparr>)"

section \<open>Invariant\<close>

text \<open>
  \<open>fire\<close> is the timer data that \<open>Update\<close> has taken from the heap and is calling the handler of.
  The reference count of every timer data object counts the heap (or the firing) and the timer
  that points to it, and nothing else is allocated; a valid one is its timer's current one.
\<close>

definition ts_queued :: "nat option \<Rightarrow> 'b tstate_scheme \<Rightarrow> nat \<Rightarrow> bool" where
  "ts_queued fire w p \<longleftrightarrow> p \<in> set (bh_items (ts_heap w)) \<or> fire = Some p"

definition ts_owned :: "'b tstate_scheme \<Rightarrow> nat \<Rightarrow> timer_data \<Rightarrow> bool" where
  "ts_owned w p d \<longleftrightarrow> ts_timers w (td_timer d) = Some (Some p)"

definition data_ok :: "nat option \<Rightarrow> 'b tstate_scheme \<Rightarrow> nat \<Rightarrow> timer_data \<Rightarrow> bool" where
  "data_ok fire w p d \<longleftrightarrow> p < ts_next w \<and> (ts_queued fire w p \<or> ts_owned w p d)
     \<and> td_refCount d = (if ts_queued fire w p then 1 else 0) + (if ts_owned w p d then 1 else 0)
     \<and> (td_validate d \<longrightarrow> ts_queued fire w p \<and> ts_owned w p d) \<and> (td_timeouting d \<longleftrightarrow> fire = Some p)"

definition ts_inv :: "nat option \<Rightarrow> 'b tstate_scheme \<Rightarrow> bool" where
  "ts_inv fire w \<longleftrightarrow> \<not> ts_destroyed w \<and> bh_inv (ts_key w) (ts_heap w) \<and> distinct (bh_items (ts_heap w))
     \<and> (\<forall>p. ts_queued fire w p \<longrightarrow> ts_data w p \<noteq> None)
     \<and> (\<forall>p. fire = Some p \<longrightarrow> p \<notin> set (bh_items (ts_heap w)))
     \<and> (\<forall>t p. ts_timers w t = Some (Some p) \<longrightarrow> (\<exists>d. ts_data w p = Some d \<and> td_timer d = t))
     \<and> (\<forall>p d. ts_data w p = Some d \<longrightarrow> data_ok fire w p d)"

text \<open>What a client sees of a timer: the time at which it will fire.\<close>

definition deadline :: "'b tstate_scheme \<Rightarrow> nat \<Rightarrow> int option" where
  "deadline w t = (case ts_timers w t of Some (Some p) \<Rightarrow>
       (case ts_data w p of Some d \<Rightarrow> if td_validate d then Some (td_handle d) else None | None \<Rightarrow> None)
     | _ \<Rightarrow> None)"

lemma ts_inv_init: "ts_inv None (ts_init now)"
  by (auto simp: ts_inv_def ts_init_def ts_queued_def BinaryHeap_new_inv)

lemma ts_invD:
  assumes "ts_inv fire w"
  shows "\<not> ts_destroyed w" "bh_inv (ts_key w) (ts_heap w)" "distinct (bh_items (ts_heap w))"
    "p \<in> set (bh_items (ts_heap w)) \<Longrightarrow> \<exists>d. ts_data w p = Some d"
    "fire = Some p \<Longrightarrow> \<exists>d. ts_data w p = Some d"
    "fire = Some p \<Longrightarrow> p \<notin> set (bh_items (ts_heap w))"
    "ts_timers w t = Some (Some p) \<Longrightarrow> \<exists>d. ts_data w p = Some d \<and> td_timer d = t"
    "ts_data w p = Some d \<Longrightarrow> data_ok fire w p d"
  using assms by (auto simp: ts_inv_def ts_queued_def)

lemma data_at_Some [simp]: "ts_data w p = Some d \<Longrightarrow> data_at p w = Ok d"
  by (simp add: data_at_def)

lemma timer_ptr_Some [simp]: "ts_timers w t = Some ptr \<Longrightarrow> timer_ptr t w = Ok ptr"
  by (simp add: timer_ptr_def)

text \<open>The heap order only depends on the keys of the elements in the heap.\<close>

lemma ordered_cong:
  assumes "\<And>i. 1 \<le> i \<Longrightarrow> i \<le> n \<Longrightarrow> key (es ! i) = key' (es ! i)"
  shows "ordered_from key es 1 n \<longleftrightarrow> ordered_from key' es 1 n"
proof -
  have "key (es ! (i div 2)) = key' (es ! (i div 2)) \<and> key (es ! i) = key' (es ! i)"
    if "2 \<le> i" "i \<le> n" for i
    using that assms [of i] assms [of "i div 2"] by auto
  then show ?thesis by (auto simp: ordered_from_def)
qed

lemma bh_inv_cong:
  assumes "\<And>p. p \<in> set (bh_items h) \<Longrightarrow> key p = key' p"
  shows "bh_inv key h \<longleftrightarrow> bh_inv key' h"
proof (cases "bh_size h < length (bh_elems h)")
  case True
  have "key (bh_elems h ! i) = key' (bh_elems h ! i)" if "1 \<le> i" "i \<le> bh_size h" for i
  proof -
    have "bh_items h ! (i - 1) = bh_elems h ! i" using nth_bh_items [of "i - 1" h] True that by simp
    moreover have "bh_items h ! (i - 1) \<in> set (bh_items h)" using that True by (intro nth_mem) (simp add: length_bh_items)
    ultimately show ?thesis using assms by metis
  qed
  then show ?thesis using ordered_cong [of "bh_size h" key "bh_elems h" key'] by (simp add: bh_inv_def)
qed (simp add: bh_inv_def)

lemma ts_key_set_data: "ts_key (set_data p d w) q = (if q = p then td_handle d else ts_key w q)"
  by (simp add: ts_key_def set_data_def)

lemma set_data_fields [simp]:
  "ts_timers (set_data p d w) = ts_timers w" "ts_heap (set_data p d w) = ts_heap w"
  "ts_now (set_data p d w) = ts_now w" "ts_next (set_data p d w) = ts_next w"
  "ts_destroyed (set_data p d w) = ts_destroyed w" "ts_data (set_data p d w) = (ts_data w)(p \<mapsto> d)"
  "ts_enabled (set_data p d w) = ts_enabled w" "tstate.more (set_data p d w) = tstate.more w"
  by (simp_all add: set_data_def)

lemma set_data_twice [simp]: "set_data p d (set_data p d' w) = set_data p d w"
  by (simp add: set_data_def)

text \<open>Changing flags of a timer data object.\<close>

lemma set_data_inv:
  assumes inv: "ts_inv fire w" and p: "ts_data w p = Some d"
    and same: "td_timer d' = td_timer d" "td_refCount d' = td_refCount d" "td_handle d' = td_handle d"
      "td_timeouting d' = td_timeouting d" "td_validate d' \<longrightarrow> td_validate d"
  shows "ts_inv fire (set_data p d' w)"
proof -
  let ?w = "set_data p d' w"
  have key: "ts_key ?w = ts_key w"
    using p same(3) by (auto simp: ts_key_set_data ts_key_def fun_eq_iff)
  have qd: "ts_queued fire ?w q \<longleftrightarrow> ts_queued fire w q" for q by (simp add: ts_queued_def)
  have ow: "ts_owned ?w q e \<longleftrightarrow> ts_owned w q e" for q e by (simp add: ts_owned_def)
  show ?thesis
    unfolding ts_inv_def key qd
  proof (intro conjI allI impI)
    show "\<exists>e. ts_data ?w q = Some e \<and> td_timer e = t" if "ts_timers ?w t = Some (Some q)" for t q
      using ts_invD(7) [OF inv, of t q] that p same(1) by auto
    show "data_ok fire ?w q e" if e: "ts_data ?w q = Some e" for q e
    proof (cases "q = p")
      case True
      then show ?thesis
        using ts_invD(8) [OF inv p] e same unfolding data_ok_def qd ow by (simp add: ts_owned_def)
    next
      case False
      then show ?thesis using ts_invD(8) [OF inv, of q e] e unfolding data_ok_def qd ow by simp
    qed
  qed (use inv in \<open>simp_all add: ts_inv_def\<close>)
qed

text \<open>The heap (or the firing) lets go of a timer data object that is no longer valid.\<close>

lemma drop_queued:
  assumes inv: "ts_inv fire w" and p: "ts_data w p = Some d" "\<not> td_validate d" "ts_queued fire w p"
    and h: "bh_inv (ts_key w) h" "distinct (bh_items h)"
    and rest: "\<And>q. (q \<in> set (bh_items h) \<or> fire' = Some q) \<longleftrightarrow> ts_queued fire w q \<and> q \<noteq> p"
    and fire: "fire' = None \<or> fire' = fire" "fire' = None \<Longrightarrow> fire = None \<or> fire = Some p"
    and f': "\<And>q. fire' = Some q \<Longrightarrow> q \<notin> set (bh_items h)"
  shows "\<exists>w'. drop_ref p (set_data p (d\<lparr>td_timeouting := False\<rparr>) (w\<lparr>ts_heap := h\<rparr>)) = Ok w' \<and> ts_inv fire' w'
     \<and> w' = w\<lparr>ts_heap := h, ts_data := ts_data w'\<rparr> \<and> (\<forall>q. q \<noteq> p \<longrightarrow> ts_data w' q = ts_data w q)
     \<and> (\<forall>d'. ts_data w' p = Some d' \<longrightarrow> \<not> td_validate d')"
proof -
  let ?d = "d\<lparr>td_timeouting := False\<rparr>"
  have ok: "data_ok fire w p d" using ts_invD(8) [OF inv p(1)] .
  then have rc: "td_refCount d = 1 + (if ts_owned w p d then 1 else 0)" using p(3) by (simp add: data_ok_def)
  define D where "D = (if ts_owned w p d then (ts_data w)(p \<mapsto> ?d\<lparr>td_refCount := 1\<rparr>) else (ts_data w)(p := None))"
  have D: "\<And>q. q \<noteq> p \<Longrightarrow> D q = ts_data w q"
    "D p = (if ts_owned w p d then Some (?d\<lparr>td_refCount := 1\<rparr>) else None)"
    by (simp_all add: D_def)
  define w' where "w' = w\<lparr>ts_heap := h, ts_data := D\<rparr>"
  have w': "ts_heap w' = h" "ts_data w' = D" "ts_timers w' = ts_timers w" "ts_next w' = ts_next w"
    "ts_destroyed w' = ts_destroyed w"
    by (simp_all add: w'_def)
  have drop: "drop_ref p (set_data p ?d (w\<lparr>ts_heap := h\<rparr>)) = Ok w'"
    using rc by (auto simp: drop_ref_def D_def set_data_def w'_def)
  have qd: "ts_queued fire' w' q \<longleftrightarrow> ts_queued fire w q \<and> q \<noteq> p" for q
    using rest by (simp add: ts_queued_def w')
  have ow: "ts_owned w' q e \<longleftrightarrow> ts_owned w q e" for q e by (simp add: ts_owned_def w')
  have fq: "fire = Some q \<longleftrightarrow> fire' = Some q" if "q \<noteq> p" for q using fire that by auto
  have fp: "fire' \<noteq> Some p" using rest by blast
  have key: "ts_key w' q = ts_key w q" if "q \<in> set (bh_items h)" for q
    using rest [of q] that D(1) by (auto simp: ts_key_def w')
  have "ts_inv fire' w'"
    unfolding ts_inv_def
  proof (intro conjI allI impI)
    show "bh_inv (ts_key w') (ts_heap w')" using h(1) bh_inv_cong [of h "ts_key w'" "ts_key w"] key by (simp add: w')
    show "ts_data w' q \<noteq> None" if "ts_queued fire' w' q" for q
      using that qd D(1) inv by (simp add: w' ts_inv_def)
    show "\<exists>e. ts_data w' q = Some e \<and> td_timer e = t" if tq: "ts_timers w' t = Some (Some q)" for t q
    proof -
      have "ts_timers w t = Some (Some q)" using tq by (simp add: w')
      then obtain e where e: "ts_data w q = Some e" "td_timer e = t" using ts_invD(7) [OF inv] by blast
      moreover have "q = p \<Longrightarrow> ts_owned w p d" using tq e p(1) by (simp add: ts_owned_def w')
      ultimately show ?thesis using p(1) D by (cases "q = p") (simp_all add: w')
    qed
    show "data_ok fire' w' q e" if e: "ts_data w' q = Some e" for q e
    proof (cases "q = p")
      case True
      then have "ts_owned w p d" "e = ?d\<lparr>td_refCount := 1\<rparr>" using e D(2) by (simp_all add: w' split: if_splits)
      then show ?thesis using True ok p(2) fp unfolding data_ok_def qd ow by (simp add: ts_owned_def w')
    next
      case False
      then have "ts_data w q = Some e" using e D(1) by (simp add: w')
      then show ?thesis using ts_invD(8) [OF inv, of q e] False fq [of q] unfolding data_ok_def qd ow by (simp add: w')
    qed
  qed (use inv h f' in \<open>simp_all add: ts_inv_def w'\<close>)
  moreover have "w' = w\<lparr>ts_heap := h, ts_data := ts_data w'\<rparr>" by (simp add: w'_def)
  moreover have "\<not> td_validate d'" if "ts_data w' p = Some d'" for d'
    using that p(2) D(2) by (auto simp: w' split: if_splits)
  ultimately show ?thesis using drop D(1) w'(2) by blast
qed

lemma data_eta [simp]: "\<not> td_timeouting d \<Longrightarrow> d\<lparr>td_timeouting := False\<rparr> = d"
  by simp

lemma set_data_id [simp]: "ts_data w p = Some d \<Longrightarrow> set_data p d w = w"
  by (simp add: set_data_def map_upd_triv)

text \<open>\<open>Update\<close> meets a timer data object that is no longer valid.\<close>

lemma pop_stale:
  assumes inv: "ts_inv None w" and top: "bh_FindTop (ts_heap w) = Inr p"
    and p: "ts_data w p = Some d" "\<not> td_validate d"
  shows "\<exists>h w'. bh_DeleteTop 0 (ts_key w) (ts_heap w) = Inr h \<and> drop_ref p (w\<lparr>ts_heap := h\<rparr>) = Ok w'
     \<and> ts_inv None w' \<and> mset (bh_items (ts_heap w)) = add_mset p (mset (bh_items h))
     \<and> w' = w\<lparr>ts_heap := h, ts_data := ts_data w'\<rparr> \<and> (\<forall>q. q \<noteq> p \<longrightarrow> ts_data w' q = ts_data w q)
     \<and> (\<forall>d'. ts_data w' p = Some d' \<longrightarrow> \<not> td_validate d')"
proof -
  obtain h where h: "bh_DeleteTop 0 (ts_key w) (ts_heap w) = Inr h" "bh_inv (ts_key w) h"
    "mset (bh_items (ts_heap w)) = add_mset p (mset (bh_items h))"
    using heap.pop_top [OF top ts_invD(2) [OF inv], of 0] by blast
  have "distinct (p # bh_items h)" using h(3) ts_invD(3) [OF inv] mset_eq_imp_distinct_iff [of "bh_items (ts_heap w)" "p # bh_items h"] by simp
  moreover have "set (bh_items (ts_heap w)) = insert p (set (bh_items h))"
    using h(3) mset_eq_setD [of "bh_items (ts_heap w)" "p # bh_items h"] by simp
  moreover have "\<not> td_timeouting d" using ts_invD(8) [OF inv p(1)] by (simp add: data_ok_def)
  ultimately show ?thesis
    using drop_queued [OF inv p(1,2) _ h(2), of None] h p(1) by (auto simp: ts_queued_def)
qed

text \<open>\<open>Update\<close> takes a valid timer and marks it before the call of the handler.\<close>

lemma start_fire:
  assumes inv: "ts_inv None w" and top: "bh_FindTop (ts_heap w) = Inr p" and p: "ts_data w p = Some d"
  shows "\<exists>h. bh_DeleteTop 0 (ts_key w) (ts_heap w) = Inr h
     \<and> mset (bh_items (ts_heap w)) = add_mset p (mset (bh_items h))
     \<and> ts_inv (Some p) (set_data p (d\<lparr>td_timeouting := True, td_repeatTimes := n\<rparr>) (w\<lparr>ts_heap := h\<rparr>))"
proof -
  obtain h where h: "bh_DeleteTop 0 (ts_key w) (ts_heap w) = Inr h" "bh_inv (ts_key w) h"
    "mset (bh_items (ts_heap w)) = add_mset p (mset (bh_items h))"
    using heap.pop_top [OF top ts_invD(2) [OF inv], of 0] by blast
  have dist: "p \<notin> set (bh_items h)" "distinct (bh_items h)"
    using h(3) ts_invD(3) [OF inv] mset_eq_imp_distinct_iff [of "bh_items (ts_heap w)" "p # bh_items h"] by simp_all
  have set: "set (bh_items (ts_heap w)) = insert p (set (bh_items h))"
    using h(3) mset_eq_setD [of "bh_items (ts_heap w)" "p # bh_items h"] by simp
  let ?d = "d\<lparr>td_timeouting := True, td_repeatTimes := n\<rparr>"
  let ?w = "set_data p ?d (w\<lparr>ts_heap := h\<rparr>)"
  have key: "ts_key ?w = ts_key w" using p by (auto simp: ts_key_set_data ts_key_def fun_eq_iff)
  have qd: "ts_queued (Some p) ?w q \<longleftrightarrow> ts_queued None w q" for q using set by (auto simp: ts_queued_def)
  have ow: "ts_owned ?w q e \<longleftrightarrow> ts_owned w q e" for q e by (simp add: ts_owned_def)
  have "ts_inv (Some p) ?w"
    unfolding ts_inv_def key qd
  proof (intro conjI allI impI)
    show "\<exists>e. ts_data ?w q = Some e \<and> td_timer e = t" if "ts_timers ?w t = Some (Some q)" for t q
      using ts_invD(7) [OF inv, of t q] that p by auto
    show "data_ok (Some p) ?w q e" if e: "ts_data ?w q = Some e" for q e
    proof (cases "q = p")
      case True
      then show ?thesis using ts_invD(8) [OF inv p] e unfolding data_ok_def qd ow by (auto simp: ts_owned_def)
    next
      case False
      then show ?thesis using ts_invD(8) [OF inv, of q e] e unfolding data_ok_def qd ow by simp
    qed
  qed (use inv h dist p in \<open>auto simp: ts_inv_def\<close>)
  then show ?thesis using h by blast
qed

lemma finish_fire:
  assumes inv: "ts_inv (Some p) w" and p: "ts_data w p = Some d" "\<not> td_validate d"
  shows "\<exists>w'. drop_ref p (set_data p (d\<lparr>td_timeouting := False\<rparr>) w) = Ok w' \<and> ts_inv None w'
     \<and> w' = w\<lparr>ts_data := ts_data w'\<rparr> \<and> (\<forall>q. q \<noteq> p \<longrightarrow> ts_data w' q = ts_data w q)
     \<and> (\<forall>d'. ts_data w' p = Some d' \<longrightarrow> \<not> td_validate d')"
  using drop_queued [OF inv p _ ts_invD(2,3) [OF inv], of None] ts_invD(6) [OF inv, of p]
  by (auto simp: ts_queued_def)

text \<open>What becomes of the data that a timer had before.\<close>

definition release_data :: "nat option \<Rightarrow> 'b tstate_scheme \<Rightarrow> nat option \<Rightarrow> (nat \<rightharpoonup> timer_data)" where
  "release_data fire w old = (case old of None \<Rightarrow> ts_data w
     | Some p \<Rightarrow> (ts_data w)(p := if ts_queued fire w p
         then map_option (\<lambda>d. d\<lparr>td_refCount := 1\<rparr>) (ts_data w p) else None))"

lemma drop_owner:
  assumes inv: "ts_inv fire w" and t: "ts_timers w t = Some (Some p)" and p: "ts_data w p = Some d"
    and w1: "ts_data w1 p = ts_data w p"
  shows "drop_ref p w1 = Ok (w1\<lparr>ts_data := (ts_data w1)(p := if ts_queued fire w p
      then map_option (\<lambda>d. d\<lparr>td_refCount := 1\<rparr>) (ts_data w p) else None)\<rparr>)"
proof -
  have "ts_owned w p d" using ts_invD(7) [OF inv t] t p by (simp add: ts_owned_def)
  then have "td_refCount d = (if ts_queued fire w p then 2 else 1)"
    using ts_invD(8) [OF inv p] by (simp add: data_ok_def)
  then show ?thesis using p w1 by (simp add: drop_ref_def set_data_def)
qed

lemma Schedule_eq:
  fixes due per :: int
  assumes inv: "ts_inv fire w" and t: "ts_timers w t = Some old"
  defines "D \<equiv> (release_data fire w old)(ts_next w \<mapsto> fresh_data t due per w)"
  shows "Scheduler_Schedule t due per w = Ok (None, w\<lparr>ts_data := D,
     ts_timers := (ts_timers w)(t \<mapsto> Some (ts_next w)), ts_next := ts_next w + 1,
     ts_maxTimerId := ts_maxTimerId w + 1,
     ts_heap := bh_Insert 0 (\<lambda>q. case D q of None \<Rightarrow> 0 | Some d \<Rightarrow> td_handle d) (ts_next w) (ts_heap w)\<rparr>)"
proof -
  let ?n = "ts_next w"
  define w1 where "w1 = (set_data ?n (fresh_data t due per w) w)\<lparr>ts_next := ?n + 1, ts_maxTimerId := ts_maxTimerId w + 1\<rparr>"
  have key: "ts_key w' = (\<lambda>q. case ts_data w' q of None \<Rightarrow> 0 | Some d \<Rightarrow> td_handle d)" for w' :: "'b tstate_scheme"
    by (simp add: ts_key_def fun_eq_iff)
  have ptr: "timer_ptr t w1 = Ok old" using t by (simp add: w1_def timer_ptr_def)
  have drop: "(case old of None \<Rightarrow> Ok w1 | Some p \<Rightarrow> drop_ref p w1) = Ok (w1\<lparr>ts_data := D\<rparr>)"
  proof (cases old)
    case None
    then show ?thesis by (simp add: D_def release_data_def w1_def set_data_def)
  next
    case (Some p)
    obtain d where d: "ts_data w p = Some d" using ts_invD(7) [OF inv, of t p] t Some by auto
    then have n: "p < ?n" using ts_invD(8) [OF inv] by (simp add: data_ok_def)
    then have "ts_data w1 p = ts_data w p" by (simp add: w1_def)
    from drop_owner [OF inv _ d this] show ?thesis
      using t Some n by (simp add: D_def release_data_def w1_def set_data_def fun_upd_twist)
  qed
  have "Scheduler_Schedule t due per w = (let w3 = w1\<lparr>ts_data := D, ts_timers := (ts_timers w1)(t \<mapsto> Some ?n)\<rparr>
      in Ok (None, w3\<lparr>ts_heap := bh_Insert 0 (ts_key w3) ?n (ts_heap w3)\<rparr>))"
    using ts_invD(1) [OF inv] unfolding Scheduler_Schedule_def Let_def w1_def [symmetric] ptr obind.simps drop
    by simp
  then show ?thesis by (simp add: key w1_def set_data_def Let_def)
qed

lemma release_data_cases:
  assumes "release_data fire w old q = Some e"
  shows "\<exists>d. ts_data w q = Some d \<and> td_handle e = td_handle d \<and> td_timer e = td_timer d
     \<and> td_validate e = td_validate d \<and> td_timeouting e = td_timeouting d
     \<and> (old \<noteq> Some q \<longrightarrow> e = d) \<and> (old = Some q \<longrightarrow> ts_queued fire w q \<and> e = d\<lparr>td_refCount := 1\<rparr>)"
  using assms by (cases old) (auto simp: release_data_def split: if_splits)

text \<open>The data of a newly scheduled timer is at an address that nothing else uses.\<close>

lemma fresh_ptr:
  assumes "ts_inv fire w"
  shows "ts_data w q = Some e \<Longrightarrow> q \<noteq> ts_next w" "\<not> ts_queued fire w (ts_next w)"
proof -
  show new: "q \<noteq> ts_next w" if "ts_data w q = Some e" for q e using ts_invD(8) [OF assms that] by (auto simp: data_ok_def)
  show "\<not> ts_queued fire w (ts_next w)" using assms new [of "ts_next w"] unfolding ts_inv_def by blast
qed

lemma Schedule_timers_ok:
  assumes inv: "ts_inv fire w" and t: "ts_timers w t = Some old"
    and w': "ts_data w' = (release_data fire w old)(ts_next w \<mapsto> fresh_data t due per w)"
      "ts_timers w' = (ts_timers w)(t \<mapsto> Some (ts_next w))" "ts_next w' = ts_next w + 1"
    and u: "ts_timers w' u = Some (Some q)"
  shows "\<exists>e. ts_data w' q = Some e \<and> td_timer e = u"
proof (cases "u = t")
  case True
  then show ?thesis using u by (simp add: w' fresh_data_def)
next
  case False
  then have uq: "ts_timers w u = Some (Some q)" using u by (simp add: w')
  then obtain e where e: "ts_data w q = Some e" "td_timer e = u" using ts_invD(7) [OF inv] by blast
  have "old \<noteq> Some q" using False e t ts_invD(7) [OF inv, of t q] by auto
  then have "ts_data w' q = Some e" using fresh_ptr(1) [OF inv e(1)] e(1) by (cases old) (simp_all add: w' release_data_def)
  then show ?thesis using e(2) by simp
qed

lemma Schedule_data_ok:
  assumes inv: "ts_inv fire w" and t: "ts_timers w t = Some old"
    and w': "ts_data w' = (release_data fire w old)(ts_next w \<mapsto> fresh_data t due per w)"
      "ts_timers w' = (ts_timers w)(t \<mapsto> Some (ts_next w))" "ts_next w' = ts_next w + 1"
    and qd: "\<And>q. ts_queued fire w' q \<longleftrightarrow> q = ts_next w \<or> ts_queued fire w q"
    and stale: "\<And>p d. old = Some p \<Longrightarrow> ts_data w p = Some d \<Longrightarrow> \<not> td_validate d"
    and e: "ts_data w' q = Some e"
  shows "data_ok fire w' q e"
proof (cases "q = ts_next w")
  case True
  then have "e = fresh_data t due per w" using e by (simp add: w')
  moreover have "fire \<noteq> Some (ts_next w)" using fresh_ptr(2) [OF inv] by (simp add: ts_queued_def)
  ultimately show ?thesis using True unfolding data_ok_def qd by (simp add: ts_owned_def w' fresh_data_def)
next
  case False
  obtain d where d: "ts_data w q = Some d" "td_timer e = td_timer d" "td_validate e = td_validate d"
    "td_timeouting e = td_timeouting d" "old \<noteq> Some q \<longrightarrow> e = d" "old = Some q \<longrightarrow> ts_queued fire w q \<and> e = d\<lparr>td_refCount := 1\<rparr>"
    using release_data_cases [of fire w old q e] e False by (auto simp: w')
  note ok = ts_invD(8) [OF inv d(1)]
  have ow: "ts_owned w' q e \<longleftrightarrow> (if td_timer e = t then q = ts_next w else ts_owned w q e)" for q e
    by (auto simp: ts_owned_def w')
  have own: "ts_owned w q d \<longleftrightarrow> old = Some q" if "td_timer d = t" using that t by (auto simp: ts_owned_def)
  show ?thesis
  proof (cases "old = Some q")
    case True
    then have "td_timer d = t" using ts_invD(7) [OF inv, of t q] t d(1) by auto
    moreover have "ts_queued fire w q" "e = d\<lparr>td_refCount := 1\<rparr>" "\<not> td_validate d"
      using True d(1,6) stale by simp_all
    ultimately show ?thesis using ok False unfolding data_ok_def qd ow by (simp add: w')
  next
    case old: False
    have e: "e = d" using d(5) old by simp
    have "ts_owned w' q e \<longleftrightarrow> ts_owned w q e" using own old False unfolding ow e by simp
    then show ?thesis using ok False unfolding data_ok_def qd e by (simp add: w')
  qed
qed

lemma Schedule_ok:
  fixes due per :: int
  assumes inv: "ts_inv fire w" and t: "ts_timers w t = Some old"
    and stale: "\<And>p d. old = Some p \<Longrightarrow> ts_data w p = Some d \<Longrightarrow> \<not> td_validate d"
  shows "\<exists>w'. Scheduler_Schedule t due per w = Ok (None, w') \<and> ts_inv fire w'
     \<and> w' = w\<lparr>ts_data := ts_data w', ts_timers := (ts_timers w)(t \<mapsto> Some (ts_next w)), ts_next := ts_next w + 1,
              ts_maxTimerId := ts_maxTimerId w + 1, ts_heap := ts_heap w'\<rparr>
     \<and> ts_data w' = (release_data fire w old)(ts_next w \<mapsto> fresh_data t due per w)
     \<and> mset (bh_items (ts_heap w')) = add_mset (ts_next w) (mset (bh_items (ts_heap w)))"
proof -
  let ?n = "ts_next w"
  define D where "D = (release_data fire w old)(?n \<mapsto> fresh_data t due per w)"
  define key where "key = (\<lambda>q. case D q of None \<Rightarrow> 0 | Some d \<Rightarrow> td_handle d)"
  define h where "h = bh_Insert 0 key ?n (ts_heap w)"
  define w' where "w' = w\<lparr>ts_data := D, ts_timers := (ts_timers w)(t \<mapsto> Some ?n), ts_next := ?n + 1,
      ts_maxTimerId := ts_maxTimerId w + 1, ts_heap := h\<rparr>"
  have w': "ts_data w' = D" "ts_timers w' = (ts_timers w)(t \<mapsto> Some ?n)" "ts_next w' = ?n + 1" "ts_heap w' = h"
    "ts_destroyed w' = ts_destroyed w"
    by (simp_all add: w'_def)
  have sched: "Scheduler_Schedule t due per w = Ok (None, w')"
    using Schedule_eq [OF inv t, of due per] by (simp add: w'_def D_def h_def key_def)
  have keyw: "ts_key w' = key" by (simp add: ts_key_def key_def w' fun_eq_iff)
  note new = fresh_ptr(1) [OF inv] and nn = fresh_ptr(2) [OF inv]
  have Dq: "D q = release_data fire w old q" if "q \<noteq> ?n" for q using that by (simp add: D_def)
  have keyq: "key q = ts_key w q" if q: "q \<in> set (bh_items (ts_heap w))" for q
  proof -
    obtain e where e: "ts_data w q = Some e" using ts_invD(4) [OF inv q] by blast
    then have "D q = release_data fire w old q" using Dq [OF new [OF e]] by simp
    then show ?thesis
      using e q by (cases old) (auto simp: key_def ts_key_def release_data_def ts_queued_def)
  qed
  have "bh_inv key (ts_heap w)" using ts_invD(2) [OF inv] bh_inv_cong [of "ts_heap w" key "ts_key w"] keyq by simp
  then have h: "bh_inv key h" "mset (bh_items h) = add_mset ?n (mset (bh_items (ts_heap w)))"
    using bh_Insert_ok [of key "ts_heap w" 0 ?n] by (simp_all add: h_def)
  then have hset: "set (bh_items h) = insert ?n (set (bh_items (ts_heap w)))"
    using mset_eq_setD [of "bh_items h" "?n # bh_items (ts_heap w)"] by simp
  have dist: "distinct (bh_items h)"
    using h(2) ts_invD(3) [OF inv] nn mset_eq_imp_distinct_iff [of "bh_items h" "?n # bh_items (ts_heap w)"]
    by (simp add: ts_queued_def)
  have qd: "ts_queued fire w' q \<longleftrightarrow> q = ?n \<or> ts_queued fire w q" for q
    using hset by (auto simp: ts_queued_def w')
  have "ts_inv fire w'"
    unfolding ts_inv_def keyw
  proof (intro conjI allI impI)
    show "bh_inv key (ts_heap w')" "distinct (bh_items (ts_heap w'))" using h(1) dist by (simp_all add: w')
    show "\<not> ts_destroyed w'" using ts_invD(1) [OF inv] by (simp add: w')
    show "ts_data w' q \<noteq> None" if "ts_queued fire w' q" for q
    proof (cases "q = ?n")
      case False
      then have "ts_queued fire w q" using that qd by simp
      moreover from this have "ts_data w q \<noteq> None" using inv by (simp add: ts_inv_def)
      ultimately show ?thesis using False Dq by (cases old) (auto simp: w' release_data_def)
    qed (simp add: w' D_def)
    show "q \<notin> set (bh_items (ts_heap w'))" if "fire = Some q" for q
      using that ts_invD(6) [OF inv that] nn hset by (auto simp: w' ts_queued_def)
    show "\<exists>e. ts_data w' q = Some e \<and> td_timer e = u" if "ts_timers w' u = Some (Some q)" for u q
      by (rule Schedule_timers_ok [OF inv t w'(1-3) [unfolded D_def] that])
    show "data_ok fire w' q e" if "ts_data w' q = Some e" for q e
      by (rule Schedule_data_ok [OF inv t w'(1-3) [unfolded D_def] qd stale that])
  qed
  moreover have "w' = w\<lparr>ts_data := ts_data w', ts_timers := (ts_timers w)(t \<mapsto> Some ?n), ts_next := ?n + 1,
              ts_maxTimerId := ts_maxTimerId w + 1, ts_heap := ts_heap w'\<rparr>"
    by (simp add: w'_def)
  ultimately show ?thesis using sched h(2) w'(1,4) D_def by blast
qed

section \<open>What the client of a timer sees\<close>

text \<open>The timer data objects in the heap that \<open>Update\<close> still has to take.\<close>

definition due_items :: "'b tstate_scheme \<Rightarrow> nat set" where
  "due_items w = {q \<in> set (bh_items (ts_heap w)). ts_key w q \<le> ts_now w}"

lemma finite_due_items [simp]: "finite (due_items w)"
  by (simp add: due_items_def)

lemma deadline_valid:
  assumes "ts_inv fire w" "deadline w t = Some dl"
  obtains p d where "ts_timers w t = Some (Some p)" "ts_data w p = Some d" "td_timer d = t" "td_validate d"
    "td_handle d = dl" "ts_queued fire w p"
proof -
  obtain p d where p: "ts_timers w t = Some (Some p)" "ts_data w p = Some d" "td_validate d" "td_handle d = dl"
    using assms(2) by (auto simp: deadline_def split: option.splits if_splits)
  moreover from this have "td_timer d = t" using ts_invD(7) [OF assms(1) p(1)] by auto
  moreover have "ts_queued fire w p" using ts_invD(8) [OF assms(1) p(2)] p(3) by (simp add: data_ok_def)
  ultimately show thesis using that by blast
qed

lemma deadline_Some:
  assumes "ts_inv fire w" "ts_data w p = Some d" "td_validate d"
  shows "ts_timers w (td_timer d) = Some (Some p)" "deadline w (td_timer d) = Some (td_handle d)"
  using ts_invD(8) [OF assms(1,2)] assms(2,3) by (auto simp: data_ok_def ts_owned_def deadline_def)

text \<open>The other timers do not notice a change of one timer's data, or of data that is not valid.\<close>

lemma deadline_frame:
  assumes "ts_inv fire w" "ts_timers w' s = ts_timers w s"
    and "\<And>q d. ts_data w q = Some d \<Longrightarrow> td_timer d = s \<Longrightarrow>
          map_option (\<lambda>d. (td_validate d, td_handle d)) (ts_data w' q) = Some (td_validate d, td_handle d)"
  shows "deadline w' s = deadline w s"
proof (cases "ts_timers w s")
  case (Some ptr)
  then show ?thesis
  proof (cases ptr)
    case (Some p)
    with \<open>ts_timers w s = Some ptr\<close> obtain d where "ts_data w p = Some d" "td_timer d = s"
      using ts_invD(7) [OF assms(1)] by blast
    with assms(3) [of p d] assms(2) \<open>ts_timers w s = Some ptr\<close> Some show ?thesis
      by (auto simp: deadline_def)
  qed (simp add: deadline_def assms(2))
qed (simp add: deadline_def assms(2))

lemma deadline_stale:
  assumes "ts_inv fire w" "ts_data w p = Some d" "\<not> td_validate d" "ts_timers w' = ts_timers w"
    "\<And>q. q \<noteq> p \<Longrightarrow> ts_data w' q = ts_data w q" "\<And>d'. ts_data w' p = Some d' \<Longrightarrow> \<not> td_validate d'"
  shows "deadline w' = deadline w"
proof
  fix s
  show "deadline w' s = deadline w s"
  proof (cases "ts_timers w s = Some (Some p)")
    case True
    then show ?thesis using assms(2-4,6) by (auto simp: deadline_def split: option.splits)
  next
    case False
    then show ?thesis using assms(4,5) by (auto simp: deadline_def split: option.splits)
  qed
qed

lemma deadline_set_data:
  assumes "ts_data w p = Some d" "td_validate d' = td_validate d" "td_handle d' = td_handle d"
  shows "deadline (set_data p d' w) = deadline w"
  using assms by (auto simp: deadline_def fun_eq_iff split: option.splits)

lemma deadline_heap [simp]: "deadline (w\<lparr>ts_heap := h\<rparr>) = deadline w"
  by (simp add: deadline_def fun_eq_iff cong: option.case_cong)

definition same_timing :: "timer_data \<Rightarrow> timer_data \<Rightarrow> bool" where
  "same_timing d d' \<longleftrightarrow> td_validate d' = td_validate d \<and> td_handle d' = td_handle d \<and> td_timeouting d' = td_timeouting d"

text \<open>\<open>Schedule\<close> of a timer that is not running.\<close>

lemma Schedule_deadline:
  fixes due per :: int
  assumes inv: "ts_inv fire w" and t: "ts_timers w t = Some old" and idle: "deadline w t = None"
  shows "\<exists>w'. Scheduler_Schedule t due per w = Ok (None, w') \<and> ts_inv fire w'
     \<and> w' = w\<lparr>ts_data := ts_data w', ts_timers := (ts_timers w)(t \<mapsto> Some (ts_next w)), ts_next := ts_next w + 1,
              ts_maxTimerId := ts_maxTimerId w + 1, ts_heap := ts_heap w'\<rparr>
     \<and> deadline w' = (deadline w)(t \<mapsto> ts_now w + due)
     \<and> (0 < due \<longrightarrow> due_items w' \<subseteq> due_items w)
     \<and> (\<forall>p d. ts_data w p = Some d \<longrightarrow> td_timer d \<noteq> t \<longrightarrow> ts_data w' p = Some d)
     \<and> (\<forall>p d d'. ts_data w p = Some d \<longrightarrow> ts_data w' p = Some d' \<longrightarrow> same_timing d d')
     \<and> set (bh_items (ts_heap w)) \<subseteq> set (bh_items (ts_heap w'))"
proof -
  have stale: "\<not> td_validate d" if "old = Some p" "ts_data w p = Some d" for p d
    using idle t that by (auto simp: deadline_def)
  obtain w' where w': "Scheduler_Schedule t due per w = Ok (None, w')" "ts_inv fire w'"
    "w' = w\<lparr>ts_data := ts_data w', ts_timers := (ts_timers w)(t \<mapsto> Some (ts_next w)), ts_next := ts_next w + 1,
              ts_maxTimerId := ts_maxTimerId w + 1, ts_heap := ts_heap w'\<rparr>"
    "ts_data w' = (release_data fire w old)(ts_next w \<mapsto> fresh_data t due per w)"
    "mset (bh_items (ts_heap w')) = add_mset (ts_next w) (mset (bh_items (ts_heap w)))"
    using Schedule_ok [OF inv t, of due per] stale by metis
  have tm: "ts_timers w' = (ts_timers w)(t \<mapsto> Some (ts_next w))" "ts_now w' = ts_now w"
    by (subst w'(3), simp)+
  have new: "q \<noteq> ts_next w" if "ts_data w q = Some e" for q e using ts_invD(8) [OF inv that] by (auto simp: data_ok_def)
  have keep: "ts_data w' q = Some d" if "ts_data w q = Some d" "td_timer d \<noteq> t" for q d
  proof -
    have "old \<noteq> Some q" using that ts_invD(7) [OF inv, of t q] t by auto
    then show ?thesis using that(1) new [OF that(1)] w'(4) by (cases old) (auto simp: release_data_def)
  qed
  have "deadline w' = (deadline w)(t \<mapsto> ts_now w + due)"
  proof
    fix s
    show "deadline w' s = ((deadline w)(t \<mapsto> ts_now w + due)) s"
    proof (cases "s = t")
      case True
      then show ?thesis using tm w'(4) by (simp add: deadline_def fresh_data_def)
    next
      case False
      then show ?thesis using deadline_frame [OF inv, of w' s] tm keep by simp
    qed
  qed
  moreover have "due_items w' \<subseteq> due_items w" if "0 < due"
  proof
    fix q assume q: "q \<in> due_items w'"
    have "set (bh_items (ts_heap w')) = insert (ts_next w) (set (bh_items (ts_heap w)))"
      using w'(5) mset_eq_setD [of "bh_items (ts_heap w')" "ts_next w # bh_items (ts_heap w)"] by simp
    moreover have "q \<noteq> ts_next w"
      using q that w'(4) tm by (auto simp: due_items_def ts_key_def fresh_data_def)
    ultimately have qi: "q \<in> set (bh_items (ts_heap w))" using q by (simp add: due_items_def)
    then obtain d where d: "ts_data w q = Some d" using ts_invD(4) [OF inv] by blast
    have "ts_queued fire w q" using qi by (simp add: ts_queued_def)
    then have "ts_key w' q = ts_key w q"
      using d w'(4) \<open>q \<noteq> ts_next w\<close> by (cases old) (auto simp: ts_key_def release_data_def)
    then show "q \<in> due_items w" using q qi tm by (simp add: due_items_def)
  qed
  moreover have "same_timing d d'" if "ts_data w p = Some d" "ts_data w' p = Some d'" for p d d'
    using that new [OF that(1)] release_data_cases [of fire w old p d'] w'(4) by (auto simp: same_timing_def)
  moreover have "set (bh_items (ts_heap w)) \<subseteq> set (bh_items (ts_heap w'))"
    using w'(5) mset_eq_setD [of "bh_items (ts_heap w')" "ts_next w # bh_items (ts_heap w)"] by auto
  moreover note w'(1-3) keep
  ultimately show ?thesis by (intro exI [of _ w'] conjI allI impI) blast+
qed

text \<open>\<open>Cancel\<close> of a timer that is not running, and of one that is.\<close>

lemma Timer_Cancel_idle:
  assumes "ts_inv fire w" "ts_timers w t \<noteq> None" "deadline w t = None"
  shows "Timer_Cancel onCancel t w = Ok (None, w)"
proof -
  obtain ptr where ptr: "ts_timers w t = Some ptr" using assms(2) by auto
  show ?thesis
  proof (cases ptr)
    case (Some p)
    then obtain d where "ts_data w p = Some d" using ts_invD(7) [OF assms(1)] ptr by blast
    then show ?thesis using assms(3) ptr Some by (simp add: Timer_Cancel_def deadline_def split: if_splits)
  qed (simp add: Timer_Cancel_def ptr)
qed

lemma Timer_Cancel_valid:
  assumes "\<not> ts_destroyed w" "ts_timers w t = Some (Some p)" "ts_data w p = Some d" "td_validate d" "td_timer d = t"
  shows "Timer_Cancel onCancel t w =
     obind (onCancel t (set_data p (d\<lparr>td_validate := False, td_cancelling := True\<rparr>) w)) (\<lambda>w1.
     obind (data_at p w1) (\<lambda>d1. let w2 = set_data p (d1\<lparr>td_cancelling := False\<rparr>) w1 in
       if td_timeouting d1 \<or> td_handle d1 - ts_now w1 < LONG_TIMEOUT_TIME then Ok (None, w2)
       else (case bh_DeleteElem (ts_key w2) p (ts_heap w2) of Inl _ \<Rightarrow> Fault AssertFail
             | Inr h \<Rightarrow> obind (drop_ref p (w2\<lparr>ts_heap := h\<rparr>)) (\<lambda>w3.
                 Ok (None, if ts_data w3 p = None
                           then w3\<lparr>ts_timers := (ts_timers w3)(t \<mapsto> None)\<rparr> else w3)))))"
  using assms by (auto simp: Timer_Cancel_def Scheduler_Cancel_def Let_def intro!: arg_cong2 [of _ _ _ _ obind] ext)

lemma Timer_Cancel_callback:
  assumes inv: "ts_inv fire w" and t: "ts_timers w t = Some (Some p)" and d: "ts_data w p = Some d" "td_validate d"
    and cb: "onCancel t (set_data p (d\<lparr>td_validate := False, td_cancelling := True\<rparr>) w) = Ok w1"
    and w1: "ts_inv fire w1" "ts_data w1 p = Some d1"
    and short: "td_timeouting d1 \<or> td_handle d1 - ts_now w1 < LONG_TIMEOUT_TIME"
  shows "Timer_Cancel onCancel t w = Ok (None, set_data p (d1\<lparr>td_cancelling := False\<rparr>) w1)"
    "ts_inv fire (set_data p (d1\<lparr>td_cancelling := False\<rparr>) w1)"
    "deadline (set_data p (d1\<lparr>td_cancelling := False\<rparr>) w1) = deadline w1"
proof -
  have tm: "td_timer d = t" using ts_invD(7) [OF inv t] d(1) by auto
  show "Timer_Cancel onCancel t w = Ok (None, set_data p (d1\<lparr>td_cancelling := False\<rparr>) w1)"
    using short unfolding Timer_Cancel_valid [OF ts_invD(1) [OF inv] t d tm] cb obind.simps
      data_at_Some [OF w1(2)] Let_def by simp
  show "ts_inv fire (set_data p (d1\<lparr>td_cancelling := False\<rparr>) w1)"
    by (rule set_data_inv [OF w1]) simp_all
  show "deadline (set_data p (d1\<lparr>td_cancelling := False\<rparr>) w1) = deadline w1"
    by (rule deadline_set_data [OF w1(2)]) simp_all
qed

lemma invalidate:
  assumes inv: "ts_inv fire w" and t: "ts_timers w t = Some (Some p)" and d: "ts_data w p = Some d"
    and w': "ts_timers w' = ts_timers w" "\<And>q. q \<noteq> p \<Longrightarrow> ts_data w' q = ts_data w q"
      "\<And>d'. ts_data w' p = Some d' \<Longrightarrow> \<not> td_validate d'"
  shows "deadline w' = (deadline w)(t := None)"
proof
  fix s
  show "deadline w' s = ((deadline w)(t := None)) s"
  proof (cases "s = t")
    case True
    then show ?thesis using t w' by (auto simp: deadline_def split: option.splits)
  next
    case False
    then have "td_timer e = s \<Longrightarrow> q \<noteq> p" if "ts_data w q = Some e" for q e
      using that ts_invD(7) [OF inv t] d by auto
    then show ?thesis using False deadline_frame [OF inv, of w' s] w'(1,2) by auto
  qed
qed

lemma Timer_Cancel_quiet:
  assumes inv: "ts_inv fire w" and t: "ts_timers w t = Some (Some p)" and d: "ts_data w p = Some d" "td_validate d"
    and cb: "\<And>w0. w0 = set_data p (d\<lparr>td_validate := False, td_cancelling := True\<rparr>) w \<Longrightarrow> onCancel t w0 = Ok w0"
  shows "\<exists>w'. Timer_Cancel onCancel t w = Ok (None, w') \<and> ts_inv fire w'
     \<and> w' = w\<lparr>ts_data := ts_data w', ts_heap := ts_heap w'\<rparr> \<and> deadline w' = (deadline w)(t := None)
     \<and> due_items w' \<subseteq> due_items w \<and> (\<forall>d'. ts_data w' p = Some d' \<longrightarrow> \<not> td_validate d')
     \<and> (\<forall>q. q \<noteq> p \<longrightarrow> ts_data w' q = ts_data w q)"
proof -
  let ?d0 = "d\<lparr>td_validate := False, td_cancelling := True\<rparr>" and ?d = "d\<lparr>td_validate := False, td_cancelling := False\<rparr>"
  let ?w0 = "set_data p ?d0 w" and ?w2 = "set_data p ?d w"
  have w2: "ts_inv fire ?w2" by (rule set_data_inv [OF inv d(1)]) simp_all
  have key: "ts_key ?w2 = ts_key w" using d(1) by (auto simp: ts_key_set_data ts_key_def fun_eq_iff)
  have tm: "td_timer d = t" using ts_invD(7) [OF inv t] d(1) by auto
  have d0: "data_at p ?w0 = Ok ?d0" by simp
  note eq = Timer_Cancel_valid [OF ts_invD(1) [OF inv] t d tm, of onCancel, unfolded cb [OF refl] obind.simps d0 Let_def set_data_twice]
  show ?thesis
  proof (cases "td_timeouting d \<or> td_handle d - ts_now w < LONG_TIMEOUT_TIME")
    case True
    have "Timer_Cancel onCancel t w = Ok (None, ?w2)"
      using True unfolding eq by simp
    moreover have "deadline ?w2 = (deadline w)(t := None)" by (rule invalidate [OF inv t d(1)]) auto
    ultimately show ?thesis using w2 key by (intro exI [of _ ?w2]) (simp add: due_items_def set_data_def)
  next
    case False
    have ok: "data_ok fire ?w2 p ?d" by (rule ts_invD(8) [OF w2]) simp
    have "data_ok fire w p d" by (rule ts_invD(8) [OF inv d(1)])
    then have "ts_queued fire w p" "fire \<noteq> Some p" using d(2) False by (auto simp: data_ok_def)
    then have pq: "p \<in> set (bh_items (ts_heap w))" "ts_queued fire ?w2 p" by (auto simp: ts_queued_def)
    obtain h where h: "bh_DeleteElem (ts_key w) p (ts_heap w) = Inr h" "bh_inv (ts_key w) h"
      "mset (bh_items (ts_heap w)) = add_mset p (mset (bh_items h))"
      using bh_DeleteElem_ok [OF ts_invD(2) [OF inv], of p] pq(1) by auto
    have "distinct (p # bh_items h)" using h(3) ts_invD(3) [OF inv] mset_eq_imp_distinct_iff [of "bh_items (ts_heap w)" "p # bh_items h"] by simp
    moreover have hs: "set (bh_items (ts_heap w)) = insert p (set (bh_items h))"
      using h(3) mset_eq_setD [of "bh_items (ts_heap w)" "p # bh_items h"] by simp
    ultimately have dist: "distinct (bh_items h)" "p \<notin> set (bh_items h)" by simp_all
    have "\<exists>w'. drop_ref p (set_data p (?d\<lparr>td_timeouting := False\<rparr>) (?w2\<lparr>ts_heap := h\<rparr>)) = Ok w' \<and> ts_inv fire w'
       \<and> w' = ?w2\<lparr>ts_heap := h, ts_data := ts_data w'\<rparr> \<and> (\<forall>q. q \<noteq> p \<longrightarrow> ts_data w' q = ts_data ?w2 q)
       \<and> (\<forall>d'. ts_data w' p = Some d' \<longrightarrow> \<not> td_validate d')"
      using h(2) dist hs pq \<open>fire \<noteq> Some p\<close> ts_invD(6) [OF inv]
      by (intro drop_queued [OF w2]) (auto simp: ts_queued_def key)
    then obtain w' where w': "drop_ref p (set_data p (?d\<lparr>td_timeouting := False\<rparr>) (?w2\<lparr>ts_heap := h\<rparr>)) = Ok w'" "ts_inv fire w'"
      "w' = ?w2\<lparr>ts_heap := h, ts_data := ts_data w'\<rparr>" "\<And>q. q \<noteq> p \<Longrightarrow> ts_data w' q = ts_data ?w2 q"
      "\<And>d'. ts_data w' p = Some d' \<Longrightarrow> \<not> td_validate d'"
      by blast
    have w2': "set_data p (?d\<lparr>td_timeouting := False\<rparr>) (?w2\<lparr>ts_heap := h\<rparr>) = ?w2\<lparr>ts_heap := h\<rparr>"
      using False by (simp add: set_data_def)
    have tms: "ts_timers w' = ts_timers w" "ts_heap w' = h" "ts_now w' = ts_now w" by (subst w'(3), simp)+
    have own: "ts_data w' p \<noteq> None"
    proof
      assume none: "ts_data w' p = None"
      have "ts_timers w' t = Some (Some p)" using t tms(1) by simp
      then show False using ts_invD(7) [OF w'(2)] none by fastforce
    qed
    have "Timer_Cancel onCancel t w = Ok (None, w')"
      using False w'(1) own h(1) w2' unfolding eq by (auto simp: key)
    moreover have "deadline w' = (deadline w)(t := None)"
      by (rule invalidate [OF inv t d(1) tms(1)]) (use w'(4,5) in auto)
    moreover have "due_items w' \<subseteq> due_items w"
    proof
      fix q assume q: "q \<in> due_items w'"
      then have "q \<noteq> p" using dist(2) by (auto simp: due_items_def tms)
      then have "ts_key w' q = ts_key w q" using w'(4) by (simp add: ts_key_def)
      then show "q \<in> due_items w" using q hs by (simp add: due_items_def tms)
    qed
    moreover have "w' = w\<lparr>ts_data := ts_data w', ts_heap := ts_heap w'\<rparr>" by (subst w'(3)) (simp add: set_data_def tms)
    ultimately show ?thesis using w'(2,4,5) by (intro exI [of _ w']) simp
  qed
qed

lemma Timer_new_inv:
  assumes inv: "ts_inv fire w" and new: "ts_timers w t = None"
  shows "ts_inv fire (Timer_new t w)" "deadline (Timer_new t w) = deadline w"
proof -
  let ?w = "Timer_new t w"
  have w': "ts_data ?w = ts_data w" "ts_heap ?w = ts_heap w" "ts_next ?w = ts_next w" "ts_destroyed ?w = ts_destroyed w"
    by (simp_all add: Timer_new_def)
  have key: "ts_key ?w = ts_key w" by (simp add: ts_key_def fun_eq_iff w')
  have qd: "ts_queued fire ?w q \<longleftrightarrow> ts_queued fire w q" for q by (simp add: ts_queued_def w')
  have ow: "ts_owned ?w q e \<longleftrightarrow> ts_owned w q e" for q e using new by (simp add: ts_owned_def Timer_new_def)
  have ok: "data_ok fire ?w q e \<longleftrightarrow> data_ok fire w q e" for q e by (simp add: data_ok_def qd ow w')
  show "ts_inv fire ?w"
    unfolding ts_inv_def key qd ok
    using inv by (simp add: ts_inv_def w') (simp add: Timer_new_def)
  show "deadline ?w = deadline w"
    using new by (simp add: deadline_def fun_eq_iff w' Timer_new_def cong: option.case_cong)
qed

lemma Timer_delete_idle:
  assumes inv: "ts_inv fire w" and t: "ts_timers w t = Some ptr" and idle: "deadline w t = None"
  shows "\<exists>w'. Timer_delete onCancel t w = Ok w' \<and> ts_inv fire w'
     \<and> w' = w\<lparr>ts_data := ts_data w', ts_timers := (ts_timers w)(t := None)\<rparr> \<and> deadline w' = deadline w"
proof -
  define w' where "w' = w\<lparr>ts_data := release_data fire w ptr, ts_timers := (ts_timers w)(t := None)\<rparr>"
  have w': "ts_data w' = release_data fire w ptr" "ts_timers w' = (ts_timers w)(t := None)" "ts_heap w' = ts_heap w"
    "ts_next w' = ts_next w" "ts_destroyed w' = ts_destroyed w"
    by (simp_all add: w'_def)
  have stale: "\<not> td_validate d" if "ptr = Some p" "ts_data w p = Some d" for p d
    using idle t that by (auto simp: deadline_def)
  have keep: "release_data fire w ptr q = Some d" if "ts_data w q = Some d" "td_timer d \<noteq> t" for q d
    using that ts_invD(7) [OF inv, of t q] t by (cases ptr) (auto simp: release_data_def)
  have del: "Timer_delete onCancel t w = Ok w'"
  proof (cases ptr)
    case None
    then show ?thesis using t by (simp add: Timer_delete_def w'_def release_data_def)
  next
    case (Some p)
    then obtain d where d: "ts_data w p = Some d" using ts_invD(7) [OF inv] t by blast
    have "Timer_Cancel onCancel t w = Ok (None, w)" by (rule Timer_Cancel_idle [OF inv _ idle]) (simp add: t)
    then show ?thesis
      using drop_owner [OF inv _ d, of t w] t Some by (simp add: Timer_delete_def w'_def release_data_def)
  qed
  have qd: "ts_queued fire w' q \<longleftrightarrow> ts_queued fire w q" for q by (simp add: ts_queued_def w')
  have ow: "ts_owned w' q e \<longleftrightarrow> td_timer e \<noteq> t \<and> ts_owned w q e" for q e by (simp add: ts_owned_def w')
  have key: "ts_key w' q = ts_key w q" if "ts_queued fire w q" for q
    using that by (cases ptr) (auto simp: ts_key_def w' release_data_def split: option.splits)
  have "ts_inv fire w'"
    unfolding ts_inv_def qd
  proof (intro conjI allI impI)
    show "bh_inv (ts_key w') (ts_heap w')"
      using ts_invD(2) [OF inv] bh_inv_cong [of "ts_heap w" "ts_key w'" "ts_key w"] key by (simp add: w' ts_queued_def)
    show "ts_data w' q \<noteq> None" if "ts_queued fire w q" for q
      using that inv by (cases ptr) (auto simp: w' release_data_def ts_inv_def)
    show "\<exists>e. ts_data w' q = Some e \<and> td_timer e = u" if "ts_timers w' u = Some (Some q)" for u q
    proof -
      have u: "ts_timers w u = Some (Some q)" "u \<noteq> t" using that by (auto simp: w' split: if_splits)
      then obtain e where "ts_data w q = Some e" "td_timer e = u" using ts_invD(7) [OF inv u(1)] by blast
      then show ?thesis using keep u(2) by (simp add: w')
    qed
    show "data_ok fire w' q e" if e: "ts_data w' q = Some e" for q e
    proof -
      obtain d where d: "ts_data w q = Some d" "td_timer e = td_timer d" "td_validate e = td_validate d"
        "td_timeouting e = td_timeouting d" "ptr \<noteq> Some q \<longrightarrow> e = d" "ptr = Some q \<longrightarrow> ts_queued fire w q \<and> e = d\<lparr>td_refCount := 1\<rparr>"
        using release_data_cases [of fire w ptr q e] e by (auto simp: w')
      note ok = ts_invD(8) [OF inv d(1)]
      show ?thesis
      proof (cases "ptr = Some q")
        case True
        then have "td_timer d = t" using ts_invD(7) [OF inv, of t q] t d(1) by auto
        moreover have "ts_queued fire w q" "e = d\<lparr>td_refCount := 1\<rparr>" "\<not> td_validate d"
          using True d(1,6) stale by simp_all
        ultimately show ?thesis using ok unfolding data_ok_def qd ow by (simp add: w')
      next
        case False
        have e: "e = d" using d(5) False by simp
        have "ts_owned w' q e \<longleftrightarrow> ts_owned w q e" using t False unfolding ow e by (auto simp: ts_owned_def)
        then show ?thesis using ok unfolding data_ok_def qd e by (simp add: w')
      qed
    qed
  qed (use inv in \<open>simp_all add: ts_inv_def w'\<close>)
  moreover have "deadline w' s = deadline w s" for s
  proof (cases "s = t")
    case True
    then show ?thesis using idle by (simp add: deadline_def w')
  next
    case False
    then show ?thesis using deadline_frame [OF inv, of w' s] keep by (simp add: w')
  qed
  moreover have "w' = w\<lparr>ts_data := ts_data w', ts_timers := (ts_timers w)(t := None)\<rparr>" by (simp add: w'_def)
  ultimately show ?thesis using del by (intro exI [of _ w']) auto
qed

section \<open>The clients of a scheduler\<close>

text \<open>
  What a component that schedules timers promises: its invariant \<open>cl\<close> and its view \<open>core\<close> of the
  world depend on the scheduler through the deadlines only, and its timeout handler, called for a
  timer that is due, succeeds, leaves that timer cancelled or scheduled for a later time and the
  others as they are, and changes the view as \<open>wake\<close> says. Then \<open>Update\<close> ends, and it wakes the
  timers that are due, each once and in the order of their deadlines, and no other.
\<close>

primrec wakes :: "(nat \<Rightarrow> 'v \<Rightarrow> 'v \<Rightarrow> bool) \<Rightarrow> nat list \<Rightarrow> 'v \<Rightarrow> 'v \<Rightarrow> bool" where
  "wakes wake [] v v' \<longleftrightarrow> v' = v"
| "wakes wake (t # ts) v v' \<longleftrightarrow> (\<exists>v1. wake t v v1 \<and> wakes wake ts v1 v')"

definition is_due :: "'b tstate_scheme \<Rightarrow> nat \<Rightarrow> bool" where
  "is_due w t \<longleftrightarrow> (\<exists>dl. deadline w t = Some dl \<and> dl \<le> ts_now w)"

lemma due_queued:
  assumes "ts_inv None w" "deadline w t = Some dl"
  shows "\<exists>p. ts_timers w t = Some (Some p) \<and> p \<in> set (bh_items (ts_heap w)) \<and> ts_key w p = dl"
  using deadline_valid [OF assms] by (metis option.simps(3,5) ts_key_def ts_queued_def)

locale timeout_client =
  fixes cl :: "'b tstate_scheme \<Rightarrow> bool"
    and core :: "'b tstate_scheme \<Rightarrow> 'v"
    and wake :: "nat \<Rightarrow> 'v \<Rightarrow> 'v \<Rightarrow> bool"
    and onTimeout :: "'b handler"
  assumes cl_timers: "cl w \<Longrightarrow> deadline (w\<lparr>ts_heap := h, ts_data := D\<rparr>) = deadline w \<Longrightarrow>
      cl (w\<lparr>ts_heap := h, ts_data := D\<rparr>) \<and> core (w\<lparr>ts_heap := h, ts_data := D\<rparr>) = core w"
    and cl_fire: "cl w \<Longrightarrow> ts_inv (Some p) w \<Longrightarrow> ts_timers w t = Some (Some p) \<Longrightarrow> is_due w t \<Longrightarrow>
      \<exists>w'. onTimeout t w = Ok w' \<and> cl w' \<and> ts_inv (Some p) w' \<and> ts_now w' = ts_now w
        \<and> (\<forall>d. ts_data w' p = Some d \<longrightarrow> \<not> td_validate d) \<and> wake t (core w) (core w') \<and> \<not> is_due w' t
        \<and> (\<forall>s. s \<noteq> t \<longrightarrow> deadline w' s = deadline w s) \<and> due_items w' \<subseteq> due_items w"
begin

lemma fire_due:
  assumes cl: "cl w" and inv: "ts_inv None w" and top: "bh_FindTop (ts_heap w) = Inr p"
    and d: "ts_data w p = Some d" "td_validate d" "td_handle d \<le> ts_now w"
  shows "\<exists>h w'. bh_DeleteTop 0 (ts_key w) (ts_heap w) = Inr h \<and> fire_timer onTimeout (ts_now w) p d (w\<lparr>ts_heap := h\<rparr>) = Ok w'
     \<and> cl w' \<and> ts_inv None w' \<and> ts_now w' = ts_now w \<and> wake (td_timer d) (core w) (core w') \<and> \<not> is_due w' (td_timer d)
     \<and> (\<forall>s. s \<noteq> td_timer d \<longrightarrow> deadline w' s = deadline w s) \<and> due_items w' \<subseteq> due_items w - {p}"
proof -
  let ?t = "td_timer d" and ?d = "d\<lparr>td_timeouting := True, td_repeatTimes := td_repeatTimes d + 1\<rparr>"
  obtain h where h: "bh_DeleteTop 0 (ts_key w) (ts_heap w) = Inr h"
    "mset (bh_items (ts_heap w)) = add_mset p (mset (bh_items h))"
    and inv1: "ts_inv (Some p) (set_data p ?d (w\<lparr>ts_heap := h\<rparr>))"
    using start_fire [OF inv top d(1)] by blast
  let ?w1 = "set_data p ?d (w\<lparr>ts_heap := h\<rparr>)"
  have dl: "deadline ?w1 = deadline w" using deadline_set_data [of "w\<lparr>ts_heap := h\<rparr>" p d ?d] d(1) by simp
  have w1: "?w1 = w\<lparr>ts_heap := h, ts_data := (ts_data w)(p \<mapsto> ?d)\<rparr>" by (simp add: set_data_def)
  have cl1: "cl ?w1" "core ?w1 = core w" using cl_timers [OF cl, where h = h and D = "(ts_data w)(p \<mapsto> ?d)"] dl unfolding w1 by simp_all
  have t: "ts_timers w ?t = Some (Some p)" "deadline w ?t = Some (td_handle d)" using deadline_Some [OF inv d(1,2)] by simp_all
  have due: "is_due ?w1 ?t" using t(2) d(3) dl by (simp add: is_due_def)
  have items: "due_items ?w1 \<subseteq> due_items w - {p}"
  proof
    fix q assume q: "q \<in> due_items ?w1"
    have "p \<notin> set (bh_items h)" using ts_invD(6) [OF inv1, of p] by simp
    then have "q \<noteq> p" using q by (auto simp: due_items_def)
    then have "ts_key ?w1 q = ts_key w q" by (simp add: ts_key_def)
    moreover have "set (bh_items h) \<subseteq> set (bh_items (ts_heap w))"
      using h(2) mset_eq_setD [of "bh_items (ts_heap w)" "p # bh_items h"] by auto
    ultimately show "q \<in> due_items w - {p}" using q \<open>q \<noteq> p\<close> by (auto simp: due_items_def)
  qed
  obtain w2 where w2: "onTimeout ?t ?w1 = Ok w2" "cl w2" "ts_inv (Some p) w2" "ts_now w2 = ts_now w"
    "\<And>d. ts_data w2 p = Some d \<Longrightarrow> \<not> td_validate d" "wake ?t (core w) (core w2)" "\<not> is_due w2 ?t"
    "\<And>s. s \<noteq> ?t \<Longrightarrow> deadline w2 s = deadline w s" "due_items w2 \<subseteq> due_items ?w1"
    using cl_fire [OF cl1(1) inv1 _ due] t(1) dl cl1(2) by auto
  obtain d2 where d2: "ts_data w2 p = Some d2" using ts_invD(5) [OF w2(3)] by blast
  obtain w' where w': "drop_ref p (set_data p (d2\<lparr>td_timeouting := False\<rparr>) w2) = Ok w'" "ts_inv None w'"
    "w' = w2\<lparr>ts_data := ts_data w'\<rparr>" "\<And>q. q \<noteq> p \<Longrightarrow> ts_data w' q = ts_data w2 q"
    "\<And>d'. ts_data w' p = Some d' \<Longrightarrow> \<not> td_validate d'"
    using finish_fire [OF w2(3) d2 w2(5) [OF d2]] by blast
  have tm: "ts_timers w' = ts_timers w2" "ts_now w' = ts_now w2" "ts_heap w' = ts_heap w2" by (subst w'(3), simp)+
  have dl': "deadline w' = deadline w2"
    by (rule deadline_stale [OF w2(3) d2 w2(5) [OF d2] tm(1) w'(4,5)])
  have w3: "w' = w2\<lparr>ts_heap := ts_heap w2, ts_data := ts_data w'\<rparr>" by (subst w'(3)) simp
  have "cl w'" "core w' = core w2" using cl_timers [OF w2(2), where h = "ts_heap w2" and D = "ts_data w'"] dl' w3 by simp_all
  moreover have "due_items w' \<subseteq> due_items w2"
  proof
    fix q assume q: "q \<in> due_items w'"
    then have "q \<noteq> p" using ts_invD(6) [OF w2(3), of p] by (auto simp: due_items_def tm)
    then have "ts_key w' q = ts_key w2 q" using w'(4) by (simp add: ts_key_def)
    then show "q \<in> due_items w2" using q by (simp add: due_items_def tm)
  qed
  moreover have "fire_timer onTimeout (ts_now w) p d (w\<lparr>ts_heap := h\<rparr>) = Ok w'"
    using t(1) w2(1,5) d2 w'(1) by (simp add: fire_timer_def Let_def)
  ultimately show ?thesis using h(1) w2 w'(2) items tm dl' by (intro exI [of _ h] exI [of _ w']) (auto simp: is_due_def)
qed

lemma skip_stale:
  assumes cl: "cl w" and inv: "ts_inv None w" and top: "bh_FindTop (ts_heap w) = Inr p"
    and d: "ts_data w p = Some d" "\<not> td_validate d"
  shows "\<exists>h w'. bh_DeleteTop 0 (ts_key w) (ts_heap w) = Inr h \<and> drop_ref p (w\<lparr>ts_heap := h\<rparr>) = Ok w'
     \<and> cl w' \<and> ts_inv None w' \<and> ts_now w' = ts_now w \<and> core w' = core w \<and> deadline w' = deadline w
     \<and> due_items w' \<subseteq> due_items w - {p}"
proof -
  obtain h w' where w': "bh_DeleteTop 0 (ts_key w) (ts_heap w) = Inr h" "drop_ref p (w\<lparr>ts_heap := h\<rparr>) = Ok w'"
    "ts_inv None w'" "mset (bh_items (ts_heap w)) = add_mset p (mset (bh_items h))"
    "w' = w\<lparr>ts_heap := h, ts_data := ts_data w'\<rparr>" "\<And>q. q \<noteq> p \<Longrightarrow> ts_data w' q = ts_data w q"
    "\<And>d'. ts_data w' p = Some d' \<Longrightarrow> \<not> td_validate d'"
    using pop_stale [OF inv top d] by blast
  have tm: "ts_timers w' = ts_timers w" "ts_now w' = ts_now w" "ts_heap w' = h" by (subst w'(5), simp)+
  have dl: "deadline w' = deadline w" by (rule deadline_stale [OF inv d tm(1) w'(6,7)])
  have "cl w' \<and> core w' = core w"
    using cl_timers [OF cl, where h = h and D = "ts_data w'"] dl w'(5) by simp
  moreover have "due_items w' \<subseteq> due_items w - {p}"
  proof
    fix q assume q: "q \<in> due_items w'"
    have set: "set (bh_items (ts_heap w)) = insert p (set (bh_items h))"
      using w'(4) mset_eq_setD [of "bh_items (ts_heap w)" "p # bh_items h"] by simp
    have "distinct (p # bh_items h)"
      using w'(4) ts_invD(3) [OF inv] mset_eq_imp_distinct_iff [of "bh_items (ts_heap w)" "p # bh_items h"] by simp
    then have "q \<noteq> p" using q by (auto simp: due_items_def tm)
    then have "ts_key w' q = ts_key w q" using w'(6) by (simp add: ts_key_def)
    then show "q \<in> due_items w - {p}" using q set \<open>q \<noteq> p\<close> by (simp add: due_items_def tm)
  qed
  ultimately show ?thesis using w'(1-3) tm dl by blast
qed

lemma nothing_due:
  assumes "ts_inv None w" "\<And>q. q \<in> set (bh_items (ts_heap w)) \<Longrightarrow> ts_now w < ts_key w q"
  shows "\<not> is_due w t"
  using due_queued [OF assms(1)] assms(2) by (force simp: is_due_def)

text \<open>A timer that is due fires before those that are still due after it.\<close>

lemma fire_first:
  assumes inv: "ts_inv None w" and d: "ts_data w p = Some d" "td_validate d" "td_handle d \<le> ts_now w"
    and least: "\<And>q. q \<in> set (bh_items (ts_heap w)) \<Longrightarrow> td_handle d \<le> ts_key w q"
    and w1: "ts_now w1 = ts_now w" "wake (td_timer d) (core w) (core w1)" "\<not> is_due w1 (td_timer d)"
      "\<And>s. s \<noteq> td_timer d \<Longrightarrow> deadline w1 s = deadline w s"
    and ts: "distinct ts" "set ts = {t. is_due w1 t}" "sorted (map (\<lambda>t. the (deadline w1 t)) ts)" "wakes wake ts (core w1) (core w')"
      "\<forall>t. \<not> is_due w1 t \<longrightarrow> deadline w' t = deadline w1 t"
  shows "distinct (td_timer d # ts)" "set (td_timer d # ts) = {t. is_due w t}" "sorted (map (\<lambda>t. the (deadline w t)) (td_timer d # ts))"
    "wakes wake (td_timer d # ts) (core w) (core w')" "\<forall>t. \<not> is_due w t \<longrightarrow> deadline w' t = deadline w t"
proof -
  let ?t = "td_timer d"
  note dl = deadline_Some(2) [OF inv d(1,2)]
  have due: "is_due w s \<longleftrightarrow> s = ?t \<or> is_due w1 s" for s
    using dl d(3) w1(1,3,4) by (cases "s = ?t") (auto simp: is_due_def)
  have nt: "s \<noteq> ?t" if "s \<in> set ts" for s using that ts(2) w1(3) by auto
  have "the (deadline w ?t) \<le> the (deadline w s)" if "s \<in> set ts" for s
  proof -
    have "is_due w s" using that ts(2) due by simp
    then obtain x where "deadline w s = Some x" by (auto simp: is_due_def)
    then show ?thesis using due_queued [OF inv] least dl by fastforce
  qed
  moreover have "map (\<lambda>t. the (deadline w1 t)) ts = map (\<lambda>t. the (deadline w t)) ts" using nt w1(4) by simp
  note ts(3) [unfolded this]
  ultimately show "sorted (map (\<lambda>t. the (deadline w t)) (?t # ts))" by simp
  show "distinct (?t # ts)" "set (?t # ts) = {t. is_due w t}" "wakes wake (?t # ts) (core w) (core w')"
    using ts(1,2,4) nt due w1(2) by auto
  show "\<forall>t. \<not> is_due w t \<longrightarrow> deadline w' t = deadline w t" using due ts(5) w1(4) by auto
qed

lemma update_all:
  "cl w \<Longrightarrow> ts_inv None w \<Longrightarrow> card (due_items w) < n \<Longrightarrow>
   \<exists>w' ts. Update_loop n onTimeout (ts_now w) w = Ok w' \<and> cl w' \<and> ts_inv None w' \<and> ts_now w' = ts_now w
     \<and> distinct ts \<and> set ts = {t. is_due w t} \<and> sorted (map (\<lambda>t. the (deadline w t)) ts)
     \<and> wakes wake ts (core w) (core w')
     \<and> (\<forall>t. \<not> is_due w' t) \<and> (\<forall>t. \<not> is_due w t \<longrightarrow> deadline w' t = deadline w t)"
proof (induction n arbitrary: w)
  case (Suc n)
  note inv = Suc.prems(2)
  show ?case
  proof (cases "bh_FindTop (ts_heap w)")
    case (Inl e)
    then have "bh_items (ts_heap w) = []" using bh_FindTop_ok [OF ts_invD(2) [OF inv]] by force
    then have "\<not> is_due w t" for t using nothing_due [OF inv] by simp
    then show ?thesis using Inl Suc.prems by (intro exI [of _ w] exI [of _ "[]"]) simp
  next
    case top: (Inr p)
    have ne: "bh_items (ts_heap w) \<noteq> []" using heap.top_empty [OF _ ts_invD(2) [OF inv]] top by force
    have least: "ts_key w p \<le> ts_key w q" if "q \<in> set (bh_items (ts_heap w))" for q
      using bh_FindTop_ok [OF ts_invD(2) [OF inv] ne] top that by auto
    have pin: "p \<in> set (bh_items (ts_heap w))" using bh_FindTop_ok [OF ts_invD(2) [OF inv] ne] top by auto
    obtain d where d: "ts_data w p = Some d" using ts_invD(4) [OF inv pin] by blast
    then have key: "ts_key w p = td_handle d" by (simp add: ts_key_def)
    show ?thesis
    proof (cases "ts_now w < td_handle d")
      case True
      then have "\<not> is_due w t" for t using nothing_due [OF inv] least key by fastforce
      then show ?thesis using True top d Suc.prems by (intro exI [of _ w] exI [of _ "[]"]) simp
    next
      case now: False
      have pd: "p \<in> due_items w" using pin key now by (simp add: due_items_def)
      have less: "card D < n" if "D \<subseteq> due_items w - {p}" for D
      proof -
        have "card D \<le> card (due_items w - {p})" by (rule card_mono [OF _ that]) simp
        moreover have "card (due_items w - {p}) < card (due_items w)" by (rule card_Diff1_less [OF _ pd]) simp
        ultimately show ?thesis using Suc.prems(3) by simp
      qed
      show ?thesis
      proof (cases "td_validate d")
        case False
        then obtain h w1 where w1: "bh_DeleteTop 0 (ts_key w) (ts_heap w) = Inr h" "drop_ref p (w\<lparr>ts_heap := h\<rparr>) = Ok w1"
          "cl w1" "ts_inv None w1" "ts_now w1 = ts_now w" "core w1 = core w" "deadline w1 = deadline w"
          "due_items w1 \<subseteq> due_items w - {p}"
          using skip_stale [OF Suc.prems(1) inv top d] by blast
        have "is_due w1 = is_due w" by (simp add: is_due_def fun_eq_iff w1(5,7))
        then show ?thesis
          using Suc.IH [OF w1(3,4) less [OF w1(8)]] top d now False w1(1,2) unfolding w1(5-7) by simp
      next
        case True
        let ?t = "td_timer d"
        obtain h w1 where w1: "bh_DeleteTop 0 (ts_key w) (ts_heap w) = Inr h"
          "fire_timer onTimeout (ts_now w) p d (w\<lparr>ts_heap := h\<rparr>) = Ok w1" "cl w1" "ts_inv None w1" "ts_now w1 = ts_now w"
          "wake ?t (core w) (core w1)" "\<not> is_due w1 ?t" "\<And>s. s \<noteq> ?t \<Longrightarrow> deadline w1 s = deadline w s"
          "due_items w1 \<subseteq> due_items w - {p}"
          using fire_due [OF Suc.prems(1) inv top d True] now by force
        obtain w' ts where w': "Update_loop n onTimeout (ts_now w) w1 = Ok w'" "cl w'" "ts_inv None w'" "ts_now w' = ts_now w"
          "distinct ts" "set ts = {t. is_due w1 t}" "sorted (map (\<lambda>t. the (deadline w1 t)) ts)"
          "wakes wake ts (core w1) (core w')" "\<forall>t. \<not> is_due w' t" "\<forall>t. \<not> is_due w1 t \<longrightarrow> deadline w' t = deadline w1 t"
          using Suc.IH [OF w1(3,4) less [OF w1(9)]] unfolding w1(5) by blast
        have "td_handle d \<le> ts_now w" "\<And>q. q \<in> set (bh_items (ts_heap w)) \<Longrightarrow> td_handle d \<le> ts_key w q" using now least key by simp_all
        note first = fire_first [OF inv d True this w1(5-8) w'(5-8,10)]
        have "Update_loop (Suc n) onTimeout (ts_now w) w = Ok w'" using top d now True w1(1,2) w'(1) by simp
        then show ?thesis using first w'(2,3,4,9) by blast
      qed
    qed
  qed
qed simp

lemma Update_wakes:
  assumes "cl w" "ts_inv None w" "ts_enabled w" "bh_size (ts_heap w) < n"
  shows "\<exists>w' ts. Scheduler_Update n onTimeout w = Ok w' \<and> cl w' \<and> ts_inv None w' \<and> ts_now w' = ts_now w
     \<and> distinct ts \<and> set ts = {t. is_due w t} \<and> sorted (map (\<lambda>t. the (deadline w t)) ts)
     \<and> wakes wake ts (core w) (core w')
     \<and> (\<forall>t. \<not> is_due w' t) \<and> (\<forall>t. \<not> is_due w t \<longrightarrow> deadline w' t = deadline w t)"
proof (cases "bh_IsEmpty (ts_heap w)")
  case True
  then have "bh_items (ts_heap w) = []" by (simp add: bh_IsEmpty_def bh_items_def)
  then have "\<not> is_due w t" for t using nothing_due [OF assms(2)] by simp
  then show ?thesis using True assms(1,2) by (intro exI [of _ w] exI [of _ "[]"]) (simp add: Scheduler_Update_def)
next
  case False
  have "card (due_items w) \<le> card (set (bh_items (ts_heap w)))" by (rule card_mono) (auto simp: due_items_def)
  also have "\<dots> \<le> bh_size (ts_heap w)" using card_length [of "bh_items (ts_heap w)"] by (simp add: bh_items_def)
  finally show ?thesis using update_all [OF assms(1,2)] assms(3,4) False by (simp add: Scheduler_Update_def)
qed

end

section \<open>Properties\<close>

lemma Timer_Cancel_any:
  assumes "ts_inv fire w" "ts_timers w t \<noteq> None" "\<And>w. onCancel t w = Ok w"
  shows "\<exists>w'. Timer_Cancel onCancel t w = Ok (None, w') \<and> ts_inv fire w'
     \<and> w' = w\<lparr>ts_data := ts_data w', ts_heap := ts_heap w'\<rparr> \<and> deadline w' = (deadline w)(t := None)"
proof (cases "deadline w t")
  case None
  then show ?thesis using Timer_Cancel_idle [OF assms(1,2) None] assms(1) by (simp add: fun_upd_idem)
next
  case (Some dl)
  then obtain p d where "ts_timers w t = Some (Some p)" "ts_data w p = Some d" "td_validate d"
    using deadline_valid [OF assms(1)] by blast
  then show ?thesis using Timer_Cancel_quiet [OF assms(1), of t p d onCancel] assms(3) by blast
qed



end
