(* ===== verification/Endian.thy ===== *)
theory Endian
  imports Prelude
begin

unbundle bit_operations_syntax

text \<open>
  Byte order, from llbc/common/Endian.h, EndianInl.h and Endian.cpp.

  An integer of \<open>n\<close> bits is an \<open>n word\<close>; signed and unsigned types of one width share it.
  \<open>mem_bytes me w\<close> is the object representation of \<open>w\<close> on a machine of byte order \<open>me\<close>, the
  bytes a \<open>memcpy\<close> of the variable moves, and \<open>of_mem me\<close> reads them back.
  The lemmas show that \<open>LLBC_Host2Net\<close> puts 16- and 32-bit values in network order on every
  host, that both directions are inverse at every width, and that the 64-bit versions swap
  the bytes of the two halves but leave the halves in host order.
\<close>

section \<open>Byte order\<close>

definition BigEndian :: nat where "BigEndian = 0"
definition NetEndian :: nat where "NetEndian = BigEndian"
definition LittleEndian :: nat where "LittleEndian = 1"
definition UnknownEndian :: nat where "UnknownEndian = 2"

definition Endian_IsValid :: "int \<Rightarrow> bool" where
  "Endian_IsValid type \<longleftrightarrow> type \<ge> int BigEndian \<and> type < int UnknownEndian"

definition endian_type_desc :: "string list" where
  "endian_type_desc = [''big endian'', ''little endian'', ''unknown endian'']"

definition Type2Str :: "int \<Rightarrow> string" where
  "Type2Str type =
     (if Endian_IsValid type then endian_type_desc ! nat type else endian_type_desc ! UnknownEndian)"

definition tolower :: "char \<Rightarrow> char" where
  "tolower c = (let n = of_char c :: nat in
     if 65 \<le> n \<and> n \<le> 90 then char_of (n + 32) else c)"

text \<open>
  \<open>memcmp(desc, s, len) == 0\<close> for the terminated string \<open>desc\<close> and \<open>len\<close> bytes of \<open>s\<close> that
  hold no terminator: the first \<open>len\<close> bytes agree, which needs \<open>s\<close> to be a prefix.
\<close>

definition memcmp_prefix :: "string \<Rightarrow> string \<Rightarrow> bool" where
  "memcmp_prefix desc s \<longleftrightarrow> length s \<le> length desc \<and> take (length s) desc = s"

definition Str2Type :: "string option \<Rightarrow> nat" where
  "Str2Type str = (case str of None \<Rightarrow> UnknownEndian
   | Some s \<Rightarrow> (let lowerCaseStr = map tolower s in
       if memcmp_prefix (endian_type_desc ! BigEndian) lowerCaseStr then BigEndian
       else if memcmp_prefix (endian_type_desc ! LittleEndian) lowerCaseStr then LittleEndian
       else UnknownEndian))"

section \<open>Object representation\<close>

definition le_bytes :: "'a::len word \<Rightarrow> byte list" where
  "le_bytes w = map (\<lambda>i. ucast (drop_bit (8 * i) w)) [0..<LENGTH('a) div 8]"

fun of_le_bytes :: "byte list \<Rightarrow> 'a::len word" where
  "of_le_bytes [] = 0"
| "of_le_bytes (b # bs) = ucast b OR push_bit 8 (of_le_bytes bs)"

definition mem_bytes :: "nat \<Rightarrow> 'a::len word \<Rightarrow> byte list" where
  "mem_bytes me w = (if me = LittleEndian then le_bytes w else rev (le_bytes w))"

definition of_mem :: "nat \<Rightarrow> byte list \<Rightarrow> 'a::len word" where
  "of_mem me bs = of_le_bytes (if me = LittleEndian then bs else rev bs)"

text \<open>The union of \<open>__g_endianTest\<close>: four characters read as an \<open>int\<close>, cast to \<open>char\<close>.\<close>

definition LLBC_GetMachineEndianType :: "nat \<Rightarrow> nat" where
  "LLBC_GetMachineEndianType me =
     (let intVal = (of_mem me (map of_char ''l??b'') :: 32 word)
      in if (ucast intVal :: byte) = of_char (CHR ''l'') then LittleEndian else BigEndian)"

section \<open>Conversions\<close>

definition LLBC_ReverseBytes :: "nat \<Rightarrow> 'a::len word \<Rightarrow> 'a word" where
  "LLBC_ReverseBytes me val =
     (let copyPtr = mem_bytes me val; n = length copyPtr
      in of_mem me (map (\<lambda>i. copyPtr ! (n - i - 1)) [0..<n]))"

definition LLBC_Net2Host :: "nat \<Rightarrow> 'a::len word \<Rightarrow> 'a word" where
  "LLBC_Net2Host me val = (if me \<noteq> NetEndian then LLBC_ReverseBytes me val else val)"

definition LLBC_Host2Net :: "nat \<Rightarrow> 'a::len word \<Rightarrow> 'a word" where
  "LLBC_Host2Net me val = (if me \<noteq> NetEndian then LLBC_ReverseBytes me val else val)"

definition LLBC_Net2Host_64 :: "nat \<Rightarrow> 64 word \<Rightarrow> 64 word" where
  "LLBC_Net2Host_64 me val =
     (if me = NetEndian then val
      else (let part1 = (ucast (val AND 0x00000000ffffffff) :: 32 word);
                part2 = (ucast (drop_bit 32 val) :: 32 word);
                part1' = LLBC_Net2Host me part1;
                part2' = LLBC_Net2Host me part2
            in push_bit 32 (ucast part2') OR ucast part1'))"

definition LLBC_Host2Net_64 :: "nat \<Rightarrow> 64 word \<Rightarrow> 64 word" where
  "LLBC_Host2Net_64 me val =
     (if me = NetEndian then val
      else (let part1 = (ucast (val AND 0x00000000ffffffff) :: 32 word);
                part2 = (ucast (drop_bit 32 val) :: 32 word);
                part1' = LLBC_Net2Host me part1;
                part2' = LLBC_Net2Host me part2
            in push_bit 32 (ucast part2') OR ucast part1'))"

section \<open>Reading back what was stored\<close>

named_theorems byte_order \<open>rewrite rules for object representations\<close>

lemma length_le_bytes [simp]: "length (le_bytes (w :: 'a::len word)) = LENGTH('a) div 8"
  by (simp add: le_bytes_def)

lemma length_mem_bytes [simp]: "length (mem_bytes me (w :: 'a::len word)) = LENGTH('a) div 8"
  by (simp add: mem_bytes_def)

lemma bit_of_le_bytes:
  "bit (of_le_bytes bs :: 'a::len word) n \<longleftrightarrow>
     n < LENGTH('a) \<and> n div 8 < length bs \<and> bit (bs ! (n div 8)) (n mod 8)"
proof (induction bs arbitrary: n)
  case (Cons b bs)
  show ?case
  proof (cases "n < 8")
    case True
    then show ?thesis by (auto simp: bit_simps)
  next
    case False
    then have "n div 8 = Suc ((n - 8) div 8)" "n mod 8 = (n - 8) mod 8"
      by (simp_all add: le_div_geq le_mod_geq)
    moreover have "\<not> bit b n" using False bit_imp_le_length [of b n] by auto
    ultimately show ?thesis using False by (auto simp: bit_simps Cons.IH)
  qed
qed simp

lemma bit_nth_le_bytes:
  "i < LENGTH('a) div 8 \<Longrightarrow> j < 8 \<Longrightarrow> bit (le_bytes (w :: 'a::len word) ! i) j \<longleftrightarrow> bit w (8 * i + j)"
  by (simp add: le_bytes_def bit_simps)

lemma of_le_le_bytes [byte_order]:
  assumes "8 dvd LENGTH('a)"
  shows "of_le_bytes (le_bytes w) = (w :: 'a::len word)"
proof (rule bit_word_eqI)
  fix n assume n: "n < LENGTH('a)"
  with assms have "n div 8 < LENGTH('a) div 8" by (auto elim!: dvdE)
  then show "bit (of_le_bytes (le_bytes w) :: 'a word) n = bit w n"
    using n by (simp add: bit_of_le_bytes bit_nth_le_bytes)
qed

lemma le_of_le_bytes [byte_order]:
  assumes "length bs = LENGTH('a) div 8"
  shows "le_bytes (of_le_bytes bs :: 'a::len word) = bs"
proof (rule nth_equalityI)
  show "length (le_bytes (of_le_bytes bs :: 'a word)) = length bs" by (simp add: assms)
  fix i assume "i < length (le_bytes (of_le_bytes bs :: 'a word))"
  then have i: "i < LENGTH('a) div 8" by simp
  show "le_bytes (of_le_bytes bs :: 'a word) ! i = bs ! i"
  proof (rule bit_word_eqI)
    fix j assume "j < LENGTH(8)"
    then have "j < 8" "8 * i + j < LENGTH('a)" using i by auto
    then show "bit (le_bytes (of_le_bytes bs :: 'a word) ! i) j = bit (bs ! i) j"
      using i assms by (simp add: bit_nth_le_bytes bit_of_le_bytes)
  qed
qed

lemma of_mem_mem_bytes [byte_order]:
  "8 dvd LENGTH('a) \<Longrightarrow> of_mem me (mem_bytes me w) = (w :: 'a::len word)"
  by (simp add: of_mem_def mem_bytes_def of_le_le_bytes)

lemma mem_bytes_of_mem [byte_order]:
  "length bs = LENGTH('a) div 8 \<Longrightarrow> mem_bytes me (of_mem me bs :: 'a::len word) = bs"
  by (simp add: of_mem_def mem_bytes_def le_of_le_bytes)

lemma of_mem_eq_iff:
  "8 dvd LENGTH('a) \<Longrightarrow> length bs = LENGTH('a) div 8 \<Longrightarrow>
   of_mem me bs = (w :: 'a::len word) \<longleftrightarrow> bs = mem_bytes me w"
  by (auto simp: of_mem_mem_bytes mem_bytes_of_mem)

lemma map_nth_rev: "map (\<lambda>i. xs ! (length xs - i - 1)) [0..<length xs] = rev xs"
  by (rule nth_equalityI) (simp_all add: rev_nth)

lemma LLBC_ReverseBytes_rev: "LLBC_ReverseBytes me val = of_mem me (rev (mem_bytes me val))"
  using map_nth_rev [of "mem_bytes me val"] by (simp add: LLBC_ReverseBytes_def)

lemma mem_bytes_ReverseBytes [byte_order]:
  "mem_bytes me (LLBC_ReverseBytes me val) = rev (mem_bytes me val)"
  by (simp add: LLBC_ReverseBytes_rev mem_bytes_of_mem)

lemma LLBC_ReverseBytes_involutive:
  "8 dvd LENGTH('a) \<Longrightarrow> LLBC_ReverseBytes me (LLBC_ReverseBytes me val) = (val :: 'a::len word)"
  by (subst LLBC_ReverseBytes_rev) (simp add: byte_order)

lemma Net2Host_Host2Net [byte_order]:
  "8 dvd LENGTH('a) \<Longrightarrow> LLBC_Net2Host me (LLBC_Host2Net me val) = (val :: 'a::len word)"
  by (simp add: LLBC_Net2Host_def LLBC_Host2Net_def LLBC_ReverseBytes_involutive)

text \<open>The wire form of a 16- or 32-bit value: most significant byte first, on every host.\<close>

lemma mem_bytes_Host2Net [byte_order]:
  "me = LittleEndian \<or> me = BigEndian \<Longrightarrow> mem_bytes me (LLBC_Host2Net me val) = rev (le_bytes val)"
  by (auto simp: LLBC_Host2Net_def mem_bytes_ReverseBytes)
    (auto simp: mem_bytes_def LittleEndian_def BigEndian_def NetEndian_def)

lemma Net2Host_wire:
  assumes "8 dvd LENGTH('a)" "me = LittleEndian \<or> me = BigEndian" "me' = LittleEndian \<or> me' = BigEndian"
  shows "LLBC_Net2Host me' (of_mem me' (mem_bytes me (LLBC_Host2Net me val))) = (val :: 'a::len word)"
proof -
  have "mem_bytes me (LLBC_Host2Net me val) = mem_bytes me' (LLBC_Host2Net me' val)"
    using assms by (simp add: mem_bytes_Host2Net)
  then show ?thesis by (simp add: of_mem_mem_bytes assms(1) Net2Host_Host2Net)
qed

lemma Net2Host_of_mem:
  assumes "me = LittleEndian \<or> me = BigEndian" "length bs = LENGTH('a) div 8"
  shows "LLBC_Net2Host me (of_mem me bs :: 'a::len word) = of_le_bytes (rev bs)"
proof (cases "me = NetEndian")
  case True
  then show ?thesis by (simp add: LLBC_Net2Host_def of_mem_def LittleEndian_def NetEndian_def BigEndian_def)
next
  case False
  then have "me = LittleEndian" using assms(1) by (auto simp: NetEndian_def)
  then show ?thesis
    using False by (simp add: LLBC_Net2Host_def LLBC_ReverseBytes_rev mem_bytes_def of_mem_def le_of_le_bytes [OF assms(2)])
qed

section \<open>The 64-bit versions\<close>

definition lo32 :: "64 word \<Rightarrow> 32 word" where "lo32 v = ucast v"
definition hi32 :: "64 word \<Rightarrow> 32 word" where "hi32 v = ucast (drop_bit 32 v)"
definition join32 :: "32 word \<Rightarrow> 32 word \<Rightarrow> 64 word" where
  "join32 hi lo = push_bit 32 (ucast hi) OR ucast lo"

lemmas halves_defs = lo32_def hi32_def join32_def

lemma lo32_join32: "lo32 (join32 hi lo) = lo"
  by (rule bit_word_eqI) (auto simp: halves_defs bit_simps)

lemma hi32_join32: "hi32 (join32 hi lo) = hi"
  by (rule bit_word_eqI) (auto simp: halves_defs bit_simps dest: bit_imp_le_length)

lemma join32_parts: "join32 (hi32 v) (lo32 v) = v"
  by (rule bit_word_eqI) (auto simp: halves_defs bit_simps)

lemma lo32_mask: "(ucast (v AND 0x00000000ffffffff) :: 32 word) = lo32 v"
proof -
  have "v AND 0x00000000ffffffff = take_bit 32 v" by (simp add: take_bit_eq_mask mask_eq_exp_minus_1)
  then show ?thesis by (intro bit_word_eqI) (auto simp: lo32_def bit_simps)
qed

lemma le_bytes_64: "le_bytes v = le_bytes (lo32 v) @ le_bytes (hi32 v)"
  by (simp add: le_bytes_def halves_defs upt_conv_Cons) (intro conjI; rule bit_word_eqI; auto simp: bit_simps)

lemma Host2Net_64_parts:
  "me \<noteq> NetEndian \<Longrightarrow>
   LLBC_Host2Net_64 me v = join32 (LLBC_ReverseBytes me (hi32 v)) (LLBC_ReverseBytes me (lo32 v))"
  by (simp add: LLBC_Host2Net_64_def lo32_mask LLBC_Net2Host_def flip: hi32_def join32_def)

lemma Net2Host_64_eq: "LLBC_Net2Host_64 me v = LLBC_Host2Net_64 me v"
  by (simp add: LLBC_Host2Net_64_def LLBC_Net2Host_64_def)

lemma Net2Host_Host2Net_64 [byte_order]: "LLBC_Net2Host_64 me (LLBC_Host2Net_64 me v) = v"
proof (cases "me = NetEndian")
  case False
  then show ?thesis
    by (simp add: Net2Host_64_eq Host2Net_64_parts lo32_join32 hi32_join32
        LLBC_ReverseBytes_involutive join32_parts)
qed (simp add: LLBC_Host2Net_64_def LLBC_Net2Host_64_def)

lemma mem_bytes_Host2Net_64:
  "mem_bytes LittleEndian (LLBC_Host2Net_64 LittleEndian v) =
     rev (le_bytes (lo32 v)) @ rev (le_bytes (hi32 v))"
  "mem_bytes BigEndian (LLBC_Host2Net_64 BigEndian v) =
     rev (le_bytes (hi32 v)) @ rev (le_bytes (lo32 v))"
proof -
  have "le_bytes (LLBC_ReverseBytes LittleEndian w) = rev (le_bytes w)" for w :: "32 word"
    using mem_bytes_ReverseBytes [of LittleEndian w] by (simp add: mem_bytes_def)
  then show "mem_bytes LittleEndian (LLBC_Host2Net_64 LittleEndian v) =
     rev (le_bytes (lo32 v)) @ rev (le_bytes (hi32 v))"
    by (simp add: mem_bytes_def Host2Net_64_parts LittleEndian_def NetEndian_def BigEndian_def
        le_bytes_64 lo32_join32 hi32_join32)
  show "mem_bytes BigEndian (LLBC_Host2Net_64 BigEndian v) =
     rev (le_bytes (hi32 v)) @ rev (le_bytes (lo32 v))"
    by (simp add: mem_bytes_def LLBC_Host2Net_64_def NetEndian_def LittleEndian_def BigEndian_def
        le_bytes_64)
qed

lemma le_bytes_inject: "8 dvd LENGTH('a) \<Longrightarrow> le_bytes v = le_bytes w \<longleftrightarrow> v = (w :: 'a::len word)"
  by (metis of_le_le_bytes)

section \<open>Properties\<close>

text \<open>
  C29. A 16- or 32-bit field converted with \<open>LLBC_Host2Net\<close> and copied to the wire has its
  most significant byte first whatever the host's byte order, and \<open>LLBC_Net2Host\<close> on any
  host recovers it from those bytes.
\<close>

theorem net_order_field:
  fixes val :: "'a::len word"
  assumes "8 dvd LENGTH('a)"
    and "me = LittleEndian \<or> me = BigEndian" and "me' = LittleEndian \<or> me' = BigEndian"
  shows "mem_bytes me (LLBC_Host2Net me val) = rev (le_bytes val) \<and>
         LLBC_Net2Host me' (of_mem me' (mem_bytes me (LLBC_Host2Net me val))) = val"
  using mem_bytes_Host2Net [OF assms(2)] Net2Host_wire [OF assms] by blast

lemma net_order_field_witness:
  "mem_bytes 1 (LLBC_Host2Net 1 (0x01020304 :: 32 word)) = [1, 2, 3, 4]"
  using net_order_field [of 1 1 "0x01020304 :: 32 word"]
  by (simp add: LittleEndian_def le_bytes_def upt_conv_Cons)

text \<open>
  C40. The 64-bit conversions are inverse to each other, but a little-endian host does not
  put a 64-bit value in network order: it sends the low half first. A big-endian host reads
  the value back exactly when its two halves are equal.
\<close>

theorem net_order_64:
  "LLBC_Net2Host_64 me (LLBC_Host2Net_64 me v) = v
   \<and> mem_bytes LittleEndian (LLBC_Host2Net_64 LittleEndian v) =
       rev (le_bytes (lo32 v)) @ rev (le_bytes (hi32 v))
   \<and> (LLBC_Net2Host_64 BigEndian
         (of_mem BigEndian (mem_bytes LittleEndian (LLBC_Host2Net_64 LittleEndian v))) = v
       \<longleftrightarrow> hi32 v = lo32 v)"
proof -
  let ?wire = "mem_bytes LittleEndian (LLBC_Host2Net_64 LittleEndian v)"
  have "LLBC_Net2Host_64 BigEndian (of_mem BigEndian ?wire) = v \<longleftrightarrow> ?wire = mem_bytes BigEndian v"
    by (simp add: LLBC_Net2Host_64_def NetEndian_def of_mem_eq_iff)
  also have "\<dots> \<longleftrightarrow> le_bytes (lo32 v) = le_bytes (hi32 v)"
    using mem_bytes_Host2Net_64 by (auto simp: LLBC_Host2Net_64_def NetEndian_def)
  also have "\<dots> \<longleftrightarrow> hi32 v = lo32 v"
    by (auto simp: le_bytes_inject)
  finally show ?thesis
    using mem_bytes_Host2Net_64(1) Net2Host_Host2Net_64 by simp
qed

end
