(* ===== verification/Byte_Stream.thy ===== *)
theory Byte_Stream
  imports Endian
begin

unbundle bit_operations_syntax

text \<open>
  The serialisation stream \<open>LLBC_Stream\<close> of llbc/common/Stream.h and StreamInl.h.

  A stream is its buffer, its position, its capacity, its byte order and its attach flag; a
  null buffer is the empty list. The machine's byte order \<open>LLBC_MachineEndian\<close> is the
  argument \<open>me\<close>. Protobuf messages are opaque: \<open>ser\<close> and \<open>parse\<close> stand for
  \<open>SerializeToArray\<close> and \<open>ParseFromArray\<close>. An access outside the buffer is the outcome
  \<open>Fault OutOfBounds\<close>. Reads return the value of the C++ result and the new stream; what an
  attached stream writes into the foreign buffer is seen through the stream only.

  The lemmas give, for streams that own their buffer, what \<open>Write\<close> appends and what \<open>Replace\<close>,
  \<open>Insert\<close> and \<open>Erase\<close> leave, that strings, integers and messages read back as written, and
  what \<open>Assign\<close> really does.
\<close>

section \<open>The stream and its operations\<close>

record stream =
  st_buf :: "byte list"
  st_pos :: nat
  st_cap :: nat
  st_endian :: nat
  st_attach :: bool

definition stream_npos :: nat where
  "stream_npos = 2 ^ 64 - 1"

definition Stream_new :: stream where
  "Stream_new = \<lparr>st_buf = [], st_pos = 0, st_cap = 0, st_endian = NetEndian, st_attach = False\<rparr>"

definition Stream_with_cap :: "nat \<Rightarrow> stream" where
  "Stream_with_cap cap = Stream_new\<lparr>st_buf := replicate cap junk_byte, st_cap := cap\<rparr>"

definition st_GetFreeCap :: "stream \<Rightarrow> nat" where
  "st_GetFreeCap s = size_sub (st_cap s) (st_pos s)"

definition st_SetPos :: "nat \<Rightarrow> stream \<Rightarrow> stream" where
  "st_SetPos pos s = s\<lparr>st_pos := min pos (st_cap s)\<rparr>"

definition st_SetEndian :: "nat \<Rightarrow> stream \<Rightarrow> stream" where
  "st_SetEndian endian s = (if Endian_IsValid (int endian) then s\<lparr>st_endian := endian\<rparr> else s)"

definition st_Skip :: "int \<Rightarrow> stream \<Rightarrow> bool \<times> stream" where
  "st_Skip n s = (let newPos = int (st_pos s) + n in
     if newPos < 0 \<or> newPos > int (st_cap s) then (False, s) else (True, s\<lparr>st_pos := nat newPos\<rparr>))"

definition st_Recap :: "nat \<Rightarrow> stream \<Rightarrow> bool \<times> stream" where
  "st_Recap newCap s =
     (if st_attach s \<or> newCap < st_cap s then (False, s)
      else if newCap > st_cap s
      then (True, s\<lparr>st_buf := st_buf s @ replicate (newCap - st_cap s) junk_byte, st_cap := newCap\<rparr>)
      else (True, s))"

definition STREAM_AUTO_RESIZE_INCR_LIMIT :: nat where
  "STREAM_AUTO_RESIZE_INCR_LIMIT = 512"

definition st_AutoRecap :: "nat \<Rightarrow> stream \<Rightarrow> bool \<times> stream" where
  "st_AutoRecap needCap s =
     (if st_GetFreeCap s \<ge> needCap then (True, s)
      else let newCap = max (st_pos s + needCap)
                            (min (st_cap s * 2) (st_cap s + STREAM_AUTO_RESIZE_INCR_LIMIT))
           in st_Recap ((newCap + 0xf) AND 0xfffffff0) s)"

text \<open>A store of bytes at the position, checked against the buffer.\<close>

definition st_store :: "byte list \<Rightarrow> stream \<Rightarrow> stream outcome" where
  "st_store bs s = (if st_pos s + length bs > length (st_buf s) then Fault OutOfBounds
     else Ok (s\<lparr>st_buf := mem_write (st_buf s) (st_pos s) bs, st_pos := st_pos s + length bs\<rparr>))"

definition st_Read_buf :: "bool \<Rightarrow> nat \<Rightarrow> stream \<Rightarrow> (bool \<times> byte list \<times> stream) outcome" where
  "st_Read_buf dst len s =
     (if len = 0 then Ok (True, [], s)
      else if \<not> dst \<or> st_pos s + len > st_cap s then Ok (False, [], s)
      else if st_pos s + len > length (st_buf s) then Fault OutOfBounds
      else Ok (True, mem_read (st_buf s) (st_pos s) len, s\<lparr>st_pos := st_pos s + len\<rparr>))"

definition st_Write_buf :: "byte list option \<Rightarrow> stream \<Rightarrow> stream outcome" where
  "st_Write_buf buf s = (case buf of None \<Rightarrow> Ok s
     | Some bs \<Rightarrow> (if bs = [] then Ok s
         else let (ok, s') = st_AutoRecap (length bs) s
              in if \<not> ok then Ok s' else st_store bs s'))"

definition st_Attach :: "stream \<Rightarrow> stream \<Rightarrow> stream" where
  "st_Attach rhs s = s\<lparr>st_buf := st_buf rhs, st_cap := st_cap rhs, st_pos := st_pos rhs, st_attach := True\<rparr>"

definition st_Attach_buf :: "byte list \<Rightarrow> stream \<Rightarrow> stream" where
  "st_Attach_buf buf s = s\<lparr>st_buf := buf, st_cap := length buf, st_pos := 0, st_attach := True\<rparr>"

definition st_Assign :: "stream \<Rightarrow> stream \<Rightarrow> stream outcome" where
  "st_Assign rhs s = (let s' = st_SetPos (st_pos rhs) s in
     if st_pos s' \<noteq> 0 then st_Write_buf (Some (take (st_pos rhs) (st_buf rhs))) s' else Ok s')"

definition st_Assign_buf :: "byte list option \<Rightarrow> stream \<Rightarrow> stream outcome" where
  "st_Assign_buf buf s = (case buf of None \<Rightarrow> Ok (st_SetPos 0 s)
     | Some bs \<Rightarrow> if bs = [] then Ok (st_SetPos 0 s)
                  else st_Write_buf (Some bs) (st_SetPos (length bs) s))"

definition Stream_copy :: "stream \<Rightarrow> stream outcome" where
  "Stream_copy rhs = st_Assign rhs Stream_new"

definition Stream_copy_attach :: "stream \<Rightarrow> bool \<Rightarrow> stream outcome" where
  "Stream_copy_attach rhs attach =
     (if attach then Ok (st_Attach rhs Stream_new) else st_Assign rhs Stream_new)"

definition Stream_of_buf :: "byte list \<Rightarrow> bool \<Rightarrow> stream outcome" where
  "Stream_of_buf buf attach =
     (if attach then Ok (st_Attach_buf buf Stream_new)
      else obind (st_Write_buf (Some buf) Stream_new) (\<lambda>s. Ok (s\<lparr>st_pos := 0\<rparr>)))"

definition st_Detach :: "stream \<Rightarrow> byte list \<times> stream" where
  "st_Detach s = (st_buf s, s\<lparr>st_buf := [], st_pos := 0, st_cap := 0, st_attach := False\<rparr>)"

definition st_Swap :: "stream \<Rightarrow> stream \<Rightarrow> stream \<times> stream" where
  "st_Swap s another = (another, s)"

definition st_Clear :: "stream \<Rightarrow> stream" where
  "st_Clear s = (if st_attach s then s\<lparr>st_buf := [], st_pos := 0, st_cap := 0, st_attach := False\<rparr>
                 else s\<lparr>st_pos := 0\<rparr>)"

definition st_Replace :: "nat \<Rightarrow> nat \<Rightarrow> byte list option \<Rightarrow> stream \<Rightarrow> stream outcome" where
  "st_Replace n0 n1 buf s =
     (let (n0, n1) = (if n1 = stream_npos \<or> n1 > st_pos s
                      then (if n0 > st_pos s then st_pos s else n0, st_pos s)
                      else if n0 > n1 then (n1, n0) else (n0, n1));
          bs = (case buf of None \<Rightarrow> [] | Some bs \<Rightarrow> bs);
          eraseSize = size_sub n1 n0
      in if length bs = eraseSize
         then (if length bs > 0
               then obind (st_Write_buf (Some bs) (st_SetPos n0 s)) (\<lambda>s'. Ok (st_SetPos (st_pos s) s'))
               else Ok s)
         else let backBufSize = size_sub (st_pos s) n1;
                  backBuf = mem_read (st_buf s) n1 backBufSize
              in if backBufSize > 0 \<and> n1 + backBufSize > length (st_buf s) then Fault OutOfBounds
                 else obind (if length bs > 0 then st_Write_buf (Some bs) (st_SetPos n0 s) else Ok (st_SetPos n0 s))
                   (\<lambda>s'. if backBuf \<noteq> [] then st_Write_buf (Some backBuf) s' else Ok s'))"

definition st_Insert :: "nat \<Rightarrow> byte list option \<Rightarrow> stream \<Rightarrow> stream outcome" where
  "st_Insert pos buf s = st_Replace pos pos buf s"

definition st_Erase :: "nat \<Rightarrow> nat \<Rightarrow> stream \<Rightarrow> stream outcome" where
  "st_Erase n0 n1 s = st_Replace n0 n1 None s"

section \<open>Typed reads and writes\<close>

definition st_Read_arith :: "nat \<Rightarrow> stream \<Rightarrow> (('a::len word) option \<times> stream) outcome" where
  "st_Read_arith me s = (let n = LENGTH('a) div 8 in
     if st_GetFreeCap s < n then Ok (None, s)
     else if st_pos s + n > length (st_buf s) then Fault OutOfBounds
     else let obj = of_mem me (mem_read (st_buf s) (st_pos s) n);
              s' = s\<lparr>st_pos := st_pos s + n\<rparr>
          in Ok (Some (if st_endian s \<noteq> me then LLBC_ReverseBytes me obj else obj), s'))"

definition st_Write_arith :: "nat \<Rightarrow> 'a::len word \<Rightarrow> stream \<Rightarrow> stream outcome" where
  "st_Write_arith me obj s = (let (_, s') = st_AutoRecap (LENGTH('a) div 8) s;
     obj2 = (if st_endian s \<noteq> me then LLBC_ReverseBytes me obj else obj)
   in st_store (mem_bytes me obj2) s')"

text \<open>A failed string read leaves the object resized to the announced length.\<close>

definition st_Read_string :: "nat \<Rightarrow> stream \<Rightarrow> (bool \<times> byte list \<times> stream) outcome" where
  "st_Read_string me s = obind (st_Read_arith me s) (\<lambda>(r, s1). case r of
     None \<Rightarrow> Ok (False, [], s1)
   | Some len \<Rightarrow> (let n = unat (len :: 32 word) in
       if n = 0 then Ok (True, [], s1)
       else obind (st_Read_buf True n s1) (\<lambda>(ok, bs, s2).
              Ok (ok, if ok then bs else replicate n 0, s2))))"

definition st_Write_string :: "nat \<Rightarrow> byte list \<Rightarrow> stream \<Rightarrow> stream outcome" where
  "st_Write_string me obj s = obind (st_Write_arith me (of_nat (length obj) :: 32 word) s)
     (st_Write_buf (Some obj))"

definition st_Read_pb :: "(byte list \<Rightarrow> 'm option) \<Rightarrow> nat \<Rightarrow> stream \<Rightarrow> ('m option \<times> stream) outcome" where
  "st_Read_pb parse me s = obind (st_Read_arith me s) (\<lambda>(r, s1). case r of
     None \<Rightarrow> Ok (None, s1)
   | Some len \<Rightarrow> (let n = unat (len :: 32 word) in
       if 2 ^ 31 \<le> n \<or> st_pos s1 + n > length (st_buf s1) then Fault OutOfBounds
       else case parse (mem_read (st_buf s1) (st_pos s1) n) of
              None \<Rightarrow> Ok (None, s1)
            | Some m \<Rightarrow> Ok (Some m, s1\<lparr>st_pos := st_pos s1 + n\<rparr>)))"

definition st_Write_pb :: "('m \<Rightarrow> byte list) \<Rightarrow> nat \<Rightarrow> 'm \<Rightarrow> stream \<Rightarrow> stream outcome" where
  "st_Write_pb ser me obj s = (let needSize = length (ser obj);
     s' = (if size_sub (st_cap s) (st_pos s) < needSize + 4
           then snd (st_Recap (st_cap s + (needSize + 4)) s) else s)
   in obind (st_Write_arith me (of_nat needSize :: 32 word) s') (st_store (ser obj)))"

text \<open>\<open>Peek\<close>: a read after which the position is put back.\<close>

definition st_Peek :: "(stream \<Rightarrow> ('r \<times> stream) outcome) \<Rightarrow> stream \<Rightarrow> ('r \<times> stream) outcome" where
  "st_Peek rd s = obind (rd s) (\<lambda>(r, s'). Ok (r, st_SetPos (st_pos s) s'))"

section \<open>Streams that own their buffer\<close>

definition st_own :: "stream \<Rightarrow> bool" where
  "st_own s \<longleftrightarrow> length (st_buf s) = st_cap s \<and> st_pos s \<le> st_cap s \<and> \<not> st_attach s"

definition st_written :: "stream \<Rightarrow> byte list" where
  "st_written s = take (st_pos s) (st_buf s)"

lemmas st_defs = st_own_def st_written_def

lemma st_own_new [simp]: "st_own Stream_new" "st_written Stream_new = []"
  "st_cap Stream_new = 0" "st_endian Stream_new = NetEndian"
  by (simp_all add: st_defs Stream_new_def)

lemma length_st_written: "st_own s \<Longrightarrow> length (st_written s) = st_pos s"
  by (simp add: st_defs)

text \<open>The rounding of \<open>AutoRecap\<close>: up to a multiple of 16, as long as 32 bits suffice.\<close>

lemma and_fffffff0: "(x :: nat) AND 0xfffffff0 = x div 16 mod 2 ^ 28 * 16"
proof -
  have "x AND push_bit 4 (mask 28) = push_bit 4 (take_bit 28 (drop_bit 4 x))"
    by (rule bit_eqI) (auto simp: bit_simps)
  moreover have "push_bit 4 (mask 28) = (0xfffffff0 :: nat)"
    by (simp add: push_bit_eq_mult mask_eq_exp_minus_1)
  ultimately show ?thesis
    by (simp add: push_bit_eq_mult take_bit_eq_mod drop_bit_eq_div)
qed

lemma round16_bounds:
  fixes x :: nat
  assumes "x + 15 < 2 ^ 32"
  shows "x \<le> (x + 0xf) AND 0xfffffff0" "(x + 0xf) AND 0xfffffff0 \<le> x + 15"
proof -
  have "(x + 15) div 16 < 2 ^ 28" using assms by (simp add: div_less_iff_less_mult)
  then have "(x + 0xf) AND 0xfffffff0 = (x + 15) div 16 * 16" by (simp add: and_fffffff0)
  then show "x \<le> (x + 0xf) AND 0xfffffff0" "(x + 0xf) AND 0xfffffff0 \<le> x + 15" by linarith+
qed

lemma st_Recap_grow:
  assumes "st_own s" "st_cap s \<le> n"
  shows "\<exists>s'. st_Recap n s = (True, s') \<and> st_own s' \<and> st_pos s' = st_pos s
     \<and> st_endian s' = st_endian s \<and> st_cap s' = n \<and> st_written s' = st_written s"
  using assms by (auto simp: st_Recap_def st_defs)

lemma st_AutoRecap_ok:
  assumes "st_own s" "st_cap s + n + 1024 \<le> 2 ^ 32"
  shows "\<exists>s'. st_AutoRecap n s = (True, s') \<and> st_own s' \<and> st_pos s' = st_pos s
     \<and> st_endian s' = st_endian s \<and> st_pos s + n \<le> st_cap s' \<and> st_cap s' \<le> st_cap s + n + 527
     \<and> st_written s' = st_written s"
proof (cases "st_GetFreeCap s \<ge> n")
  case True
  then show ?thesis
    using assms(1) by (auto simp: st_AutoRecap_def st_GetFreeCap_def st_own_def)
next
  case False
  define N where "N = max (st_pos s + n) (min (st_cap s * 2) (st_cap s + STREAM_AUTO_RESIZE_INCR_LIMIT))"
  define M where "M = (N + 0xf) AND 0xfffffff0"
  have bound: "st_cap s \<le> N" "N \<le> st_cap s + n + 512" "st_pos s + n \<le> N"
    using assms(1) False
    by (auto simp: N_def st_own_def STREAM_AUTO_RESIZE_INCR_LIMIT_def st_GetFreeCap_def)
  then have "N + 15 < 2 ^ 32" using assms(2) by linarith
  then have round: "N \<le> M" "M \<le> N + 15"
    unfolding M_def by (rule round16_bounds)+
  have "st_cap s \<le> M" using round bound by linarith
  from st_Recap_grow [OF assms(1) this] obtain s' where s': "st_Recap M s = (True, s')" "st_own s'"
    "st_pos s' = st_pos s" "st_endian s' = st_endian s" "st_cap s' = M" "st_written s' = st_written s"
    by blast
  moreover have "st_AutoRecap n s = st_Recap M s"
    using False by (simp add: st_AutoRecap_def N_def M_def)
  moreover have "st_pos s + n \<le> M" "M \<le> st_cap s + n + 527"
    using round bound by linarith+
  ultimately show ?thesis by auto
qed

lemma st_store_ok:
  assumes "st_own s" "st_pos s + length bs \<le> st_cap s"
  shows "\<exists>s'. st_store bs s = Ok s' \<and> st_own s' \<and> st_cap s' = st_cap s \<and> st_endian s' = st_endian s
     \<and> st_written s' = st_written s @ bs"
  using assms by (auto simp: st_store_def st_defs take_mem_write_end)

lemma st_Write_buf_ok:
  assumes "st_own s" "st_cap s + length bs + 1024 \<le> 2 ^ 32"
  shows "\<exists>s'. st_Write_buf (Some bs) s = Ok s' \<and> st_own s' \<and> st_cap s' \<le> st_cap s + length bs + 527
     \<and> st_endian s' = st_endian s \<and> st_written s' = st_written s @ bs"
proof (cases "bs = []")
  case False
  obtain s1 where s1: "st_AutoRecap (length bs) s = (True, s1)" "st_own s1"
    "st_pos s1 + length bs \<le> st_cap s1" "st_cap s1 \<le> st_cap s + length bs + 527"
    "st_endian s1 = st_endian s" "st_written s1 = st_written s"
    using st_AutoRecap_ok [OF assms] by auto
  then show ?thesis
    using False st_store_ok [OF s1(2,3)] by (auto simp: st_Write_buf_def)
qed (use assms in \<open>auto simp: st_Write_buf_def\<close>)

text \<open>A write into room that is already there leaves everything behind it.\<close>

lemma st_Write_buf_room:
  assumes "st_own s" "st_pos s + length bs \<le> st_cap s"
  shows "st_Write_buf (Some bs) s =
     Ok (s\<lparr>st_buf := mem_write (st_buf s) (st_pos s) bs, st_pos := st_pos s + length bs\<rparr>)"
  using assms by (auto simp: st_Write_buf_def st_AutoRecap_def st_GetFreeCap_def st_own_def st_store_def)

text \<open>The bytes of an integer on a stream: most significant first, whatever the machine.\<close>

lemma st_arith_bytes:
  assumes "st_endian s = NetEndian" "me = LittleEndian \<or> me = BigEndian"
  shows "mem_bytes me (if st_endian s \<noteq> me then LLBC_ReverseBytes me obj else obj) = rev (le_bytes obj)"
  using mem_bytes_Host2Net [OF assms(2), of obj] assms(1) by (auto simp: LLBC_Host2Net_def)

lemma st_Write_arith_ok:
  fixes obj :: "'a::len word"
  assumes "st_own s" "st_cap s + LENGTH('a) div 8 + 1024 \<le> 2 ^ 32" "st_endian s = NetEndian"
    "me = LittleEndian \<or> me = BigEndian"
  shows "\<exists>s'. st_Write_arith me obj s = Ok s' \<and> st_own s' \<and> st_endian s' = NetEndian
     \<and> st_cap s' \<le> st_cap s + LENGTH('a) div 8 + 527 \<and> st_written s' = st_written s @ rev (le_bytes obj)"
proof -
  obtain s1 where s1: "st_AutoRecap (LENGTH('a) div 8) s = (True, s1)" "st_own s1"
    "st_pos s1 + LENGTH('a) div 8 \<le> st_cap s1" "st_cap s1 \<le> st_cap s + LENGTH('a) div 8 + 527"
    "st_endian s1 = NetEndian" "st_written s1 = st_written s"
    using st_AutoRecap_ok [OF assms(1,2)] assms(3) by auto
  have "\<exists>s'. st_store (rev (le_bytes obj)) s1 = Ok s' \<and> st_own s' \<and> st_cap s' = st_cap s1
     \<and> st_endian s' = st_endian s1 \<and> st_written s' = st_written s1 @ rev (le_bytes obj)"
    using s1 by (intro st_store_ok) auto
  then show ?thesis
    using s1 st_arith_bytes [OF assms(3,4), of obj] by (auto simp: st_Write_arith_def Let_def)
qed

lemma st_Read_arith_ok:
  fixes obj :: "'a::len word"
  assumes "8 dvd LENGTH('a)" "st_endian s = NetEndian" "me = LittleEndian \<or> me = BigEndian"
    "length (st_buf s) = st_cap s" "st_pos s \<le> st_cap s"
    "drop (st_pos s) (st_buf s) = rev (le_bytes obj) @ rest"
  shows "st_Read_arith me s = Ok (Some obj, s\<lparr>st_pos := st_pos s + LENGTH('a) div 8\<rparr>)"
proof -
  let ?bs = "rev (le_bytes obj)"
  have "length (drop (st_pos s) (st_buf s)) = LENGTH('a) div 8 + length rest" by (simp add: assms(6))
  then have room: "st_pos s + LENGTH('a) div 8 \<le> st_cap s" using assms(4,5) by simp
  have rd: "mem_read (st_buf s) (st_pos s) (LENGTH('a) div 8) = ?bs"
    by (simp add: mem_read_def assms(6))
  have bs: "?bs = mem_bytes me (LLBC_Host2Net me obj)"
    by (simp add: mem_bytes_Host2Net [OF assms(3)])
  have "(of_mem me ?bs :: 'a word) = LLBC_Host2Net me obj"
    by (simp add: bs of_mem_mem_bytes assms(1))
  moreover have "(if st_endian s \<noteq> me then LLBC_ReverseBytes me (LLBC_Host2Net me obj)
      else LLBC_Host2Net me obj) = obj"
    using assms(1,2) by (auto simp: LLBC_Host2Net_def LLBC_ReverseBytes_involutive)
  ultimately show ?thesis
    using room assms(4,5) rd by (simp add: st_Read_arith_def st_GetFreeCap_def Let_def)
qed

section \<open>Strings and messages\<close>

definition host_order :: "nat \<Rightarrow> bool" where
  "host_order me \<longleftrightarrow> me = LittleEndian \<or> me = BigEndian"

definition enc_u32 :: "32 word \<Rightarrow> byte list" where
  "enc_u32 w = rev (le_bytes w)"

definition enc_string :: "byte list \<Rightarrow> byte list" where
  "enc_string bs = enc_u32 (of_nat (length bs)) @ bs"

lemma length_enc_u32 [simp]: "length (enc_u32 w) = 4"
  by (simp add: enc_u32_def)

lemma length_enc_string [simp]: "length (enc_string bs) = 4 + length bs"
  by (simp add: enc_string_def)

lemma enc_nonempty [simp]: "enc_u32 w \<noteq> []" "enc_string bs \<noteq> []"
  using length_enc_u32 [of w] length_enc_string [of bs] by force+

lemma unat_of_nat_32: "n < 2 ^ 32 \<Longrightarrow> unat (of_nat n :: 32 word) = n"
  by (simp add: unat_of_nat)

text \<open>A stream attached to given bytes, read from their start.\<close>

definition st_reader :: "byte list \<Rightarrow> stream" where
  "st_reader bs = st_Attach_buf bs Stream_new"

definition st_readable :: "stream \<Rightarrow> byte list \<Rightarrow> bool" where
  "st_readable s bs \<longleftrightarrow> length (st_buf s) = st_cap s \<and> st_pos s \<le> st_cap s
     \<and> st_endian s = NetEndian \<and> drop (st_pos s) (st_buf s) = bs"

lemma st_readable_reader [simp]: "st_readable (st_reader bs) bs"
  by (simp add: st_readable_def st_reader_def st_Attach_buf_def Stream_new_def)

lemma st_readable_advance:
  assumes "st_readable s (xs @ ys)"
  shows "st_readable (s\<lparr>st_pos := st_pos s + length xs\<rparr>) ys"
    and "mem_read (st_buf s) (st_pos s) (length xs) = xs"
    and "st_pos s + length xs \<le> st_cap s"
proof -
  have d: "drop (st_pos s) (st_buf s) = xs @ ys" using assms by (simp add: st_readable_def)
  then have "length (drop (st_pos s) (st_buf s)) = length xs + length ys" by simp
  then show le: "st_pos s + length xs \<le> st_cap s" using assms by (auto simp: st_readable_def)
  show "mem_read (st_buf s) (st_pos s) (length xs) = xs" by (simp add: mem_read_def d)
  have "drop (st_pos s + length xs) (st_buf s) = drop (length xs) (drop (st_pos s) (st_buf s))"
    by (simp add: add.commute)
  then show "st_readable (s\<lparr>st_pos := st_pos s + length xs\<rparr>) ys"
    using assms le d by (simp add: st_readable_def)
qed

lemma st_Read_u32:
  assumes "st_readable s (enc_u32 w @ rest)" "me = LittleEndian \<or> me = BigEndian"
  shows "st_Read_arith me s = Ok (Some w, s\<lparr>st_pos := st_pos s + 4\<rparr>)"
    and "st_readable (s\<lparr>st_pos := st_pos s + 4\<rparr>) rest"
  using assms st_readable_advance(1) [OF assms(1)]
  by (simp_all add: st_readable_def enc_u32_def st_Read_arith_ok [where rest = rest])

lemma st_Read_arith_short:
  assumes "st_readable s bs" "length bs < LENGTH('a) div 8"
  shows "(st_Read_arith me s :: ('a::len word option \<times> stream) outcome) = Ok (None, s)"
proof -
  have "length bs = st_cap s - st_pos s"
    using assms(1) by (auto simp: st_readable_def)
  then show ?thesis
    using assms by (simp add: st_readable_def st_Read_arith_def st_GetFreeCap_def Let_def)
qed

lemma st_Write_string_ok:
  assumes "st_own s" "st_cap s + length bs + 2048 \<le> 2 ^ 32" "st_endian s = NetEndian"
    "me = LittleEndian \<or> me = BigEndian"
  shows "\<exists>s'. st_Write_string me bs s = Ok s' \<and> st_own s' \<and> st_endian s' = NetEndian
     \<and> st_written s' = st_written s @ enc_string bs"
proof -
  have "st_cap s + LENGTH(32) div 8 + 1024 \<le> 2 ^ 32" using assms(2) by simp
  from st_Write_arith_ok [OF assms(1) this assms(3,4), of "of_nat (length bs)"]
  obtain s1 where s1: "st_Write_arith me (of_nat (length bs) :: 32 word) s = Ok s1" "st_own s1"
    "st_endian s1 = NetEndian" "st_cap s1 \<le> st_cap s + 4 + 527"
    "st_written s1 = st_written s @ enc_u32 (of_nat (length bs))"
    by (auto simp: enc_u32_def)
  have "st_cap s1 + length bs + 1024 \<le> 2 ^ 32" using s1(4) assms(2) by linarith
  from st_Write_buf_ok [OF s1(2) this] show ?thesis
    using s1 by (auto simp: st_Write_string_def enc_string_def)
qed

lemma st_Read_string_ok:
  assumes "st_readable s (enc_string bs @ rest)" "length bs < 2 ^ 32" "me = LittleEndian \<or> me = BigEndian"
  shows "st_Read_string me s = Ok (True, bs, s\<lparr>st_pos := st_pos s + length (enc_string bs)\<rparr>)"
    and "st_readable (s\<lparr>st_pos := st_pos s + length (enc_string bs)\<rparr>) rest"
proof -
  let ?s = "s\<lparr>st_pos := st_pos s + 4\<rparr>"
  have "st_readable s (enc_u32 (of_nat (length bs)) @ bs @ rest)"
    using assms(1) by (simp add: enc_string_def)
  note rd = st_Read_u32 [OF this assms(3)]
  note adv = st_readable_advance [OF rd(2)]
  have "st_Read_buf True (length bs) ?s = Ok (True, bs, ?s\<lparr>st_pos := st_pos s + 4 + length bs\<rparr>)"
    if "bs \<noteq> []"
    using that adv(2,3) rd(2) by (simp add: st_Read_buf_def st_readable_def)
  then show "st_Read_string me s = Ok (True, bs, s\<lparr>st_pos := st_pos s + length (enc_string bs)\<rparr>)"
    using rd(1) unat_of_nat_32 [OF assms(2)]
    by (cases "bs = []") (simp_all add: st_Read_string_def add.assoc Let_def)
  show "st_readable (s\<lparr>st_pos := st_pos s + length (enc_string bs)\<rparr>) rest"
    by (rule st_readable_advance(1) [OF assms(1)])
qed

lemma st_Write_pb_ok:
  assumes "st_own s" "st_cap s + length (ser m) + 2048 \<le> 2 ^ 32" "st_endian s = NetEndian"
    "me = LittleEndian \<or> me = BigEndian"
  shows "\<exists>s'. st_Write_pb ser me m s = Ok s' \<and> st_own s' \<and> st_endian s' = NetEndian
     \<and> st_written s' = st_written s @ enc_string (ser m)"
proof -
  let ?n = "length (ser m)"
  define s1 where "s1 = (if size_sub (st_cap s) (st_pos s) < ?n + 4
           then snd (st_Recap (st_cap s + (?n + 4)) s) else s)"
  have s1: "st_own s1" "st_endian s1 = NetEndian" "st_cap s1 \<le> st_cap s + ?n + 4"
    "st_pos s1 + ?n + 4 \<le> st_cap s1" "st_written s1 = st_written s"
    using assms(1,3) st_Recap_grow [OF assms(1), of "st_cap s + (?n + 4)"]
    by (auto simp: s1_def st_own_def)
  have "st_cap s1 + LENGTH(32) div 8 + 1024 \<le> 2 ^ 32" using assms(2) s1(3) by simp
  have room: "st_pos s1 + length (enc_u32 w) \<le> st_cap s1" for w using s1(4) by simp
  have free: "4 \<le> st_cap s1 - st_pos s1" using s1(4) by simp
  have wr: "st_Write_arith me (of_nat ?n :: 32 word) s1 = st_store (enc_u32 (of_nat ?n)) s1"
    using st_arith_bytes [OF s1(2) assms(4), of "of_nat ?n :: 32 word"] s1(1) free
    by (simp add: st_Write_arith_def st_AutoRecap_def st_GetFreeCap_def st_own_def enc_u32_def)
  obtain s2 where s2: "st_store (enc_u32 (of_nat ?n)) s1 = Ok s2" "st_own s2" "st_cap s2 = st_cap s1"
    "st_endian s2 = NetEndian" "st_written s2 = st_written s1 @ enc_u32 (of_nat ?n)"
    using st_store_ok [OF s1(1) room] s1(2) by force
  have "st_pos s2 = st_pos s1 + 4"
    using s2(5) length_st_written [OF s2(2)] length_st_written [OF s1(1)] by simp
  then have "st_pos s2 + ?n \<le> st_cap s2" using s1(4) s2(3) by simp
  from st_store_ok [OF s2(2) this] show ?thesis
    using s2 s1(5) wr by (auto simp: st_Write_pb_def enc_string_def Let_def simp flip: s1_def)
qed

lemma st_Read_pb_ok:
  assumes "st_readable s (enc_string bs @ rest)" "length bs < 2 ^ 31" "me = LittleEndian \<or> me = BigEndian"
  shows "st_Read_pb parse me s = (case parse bs of None \<Rightarrow> Ok (None, s\<lparr>st_pos := st_pos s + 4\<rparr>)
     | Some m \<Rightarrow> Ok (Some m, s\<lparr>st_pos := st_pos s + length (enc_string bs)\<rparr>))"
proof -
  have bs: "length bs < 2 ^ 32" using assms(2) by simp
  have "st_readable s (enc_u32 (of_nat (length bs)) @ bs @ rest)"
    using assms(1) by (simp add: enc_string_def)
  note rd = st_Read_u32 [OF this assms(3)]
  note adv = st_readable_advance [OF rd(2)]
  show ?thesis
    using rd adv(2,3) unat_of_nat_32 [OF bs] assms(2)
    by (simp add: st_Read_pb_def st_readable_def add.assoc cong: option.case_cong)
qed

text \<open>The message read trusts the announced size: a size beyond the buffer is an over-read.\<close>

lemma st_Read_pb_overread:
  assumes "st_readable s (enc_u32 n @ bs)" "length bs < unat n" "me = LittleEndian \<or> me = BigEndian"
  shows "st_Read_pb parse me s = Fault OutOfBounds"
proof -
  note rd = st_Read_u32 [OF assms(1,3)]
  have "st_pos s + 4 + length bs = length (st_buf s)"
    using st_readable_advance(3) [OF assms(1)] rd(2) by (auto simp: st_readable_def)
  then show ?thesis using rd(1) assms(2) by (simp add: st_Read_pb_def)
qed

section \<open>Editing in place\<close>

lemma st_SetPos_own:
  assumes "st_own s" "n \<le> st_pos s"
  shows "st_own (st_SetPos n s)" "st_written (st_SetPos n s) = take n (st_written s)"
    "st_cap (st_SetPos n s) = st_cap s" "st_buf (st_SetPos n s) = st_buf s" "st_pos (st_SetPos n s) = n"
  using assms by (auto simp: st_SetPos_def st_defs min_def)

lemma st_Write_buf_append:
  assumes "st_own s" "st_cap s + length bs + 1024 \<le> 2 ^ 32"
  obtains s' where "st_Write_buf (Some bs) s = Ok s'" "st_own s'"
    "st_written s' = st_written s @ bs" "st_cap s' \<le> st_cap s + length bs + 527"
  using st_Write_buf_ok [OF assms] by blast

lemma st_Replace_in_place:
  assumes "st_own s" "n0 + length bs \<le> st_pos s" "bs \<noteq> []"
  shows "\<exists>s'. obind (st_Write_buf (Some bs) (st_SetPos n0 s)) (\<lambda>s'. Ok (st_SetPos (st_pos s) s')) = Ok s'
     \<and> st_own s' \<and> st_written s' = take n0 (st_written s) @ bs @ drop (n0 + length bs) (st_written s)"
proof -
  have n0: "n0 \<le> st_pos s" using assms(2) by simp
  note sp = st_SetPos_own [OF assms(1) n0]
  have room: "st_pos (st_SetPos n0 s) + length bs \<le> st_cap (st_SetPos n0 s)"
    using assms(1,2) sp by (simp add: st_own_def)
  note wr = st_Write_buf_room [OF sp(1) room]
  have "st_cap s = length (st_buf s)" "st_pos s \<le> length (st_buf s)"
    using assms(1) by (auto simp: st_own_def)
  moreover have "take (st_pos s) (mem_write (st_buf s) n0 bs)
      = take n0 (st_buf s) @ bs @ take (st_pos s - (n0 + length bs)) (drop (n0 + length bs) (st_buf s))"
    using assms(2) calculation by (simp add: mem_write_def)
  ultimately show ?thesis
    using wr assms sp n0 by (simp add: st_SetPos_def st_defs drop_take min_def)
qed

lemma st_Replace_rebuild:
  assumes "st_own s" "n0 \<le> st_pos s" "st_cap s + length bs + length tail + 2048 \<le> 2 ^ 32"
  shows "\<exists>s'. obind (if length bs > 0 then st_Write_buf (Some bs) (st_SetPos n0 s) else Ok (st_SetPos n0 s))
       (\<lambda>s'. if tail \<noteq> [] then st_Write_buf (Some tail) s' else Ok s') = Ok s'
     \<and> st_own s' \<and> st_written s' = take n0 (st_written s) @ bs @ tail"
proof -
  note sp = st_SetPos_own [OF assms(1,2)]
  have "st_cap (st_SetPos n0 s) + length bs + 1024 \<le> 2 ^ 32" using assms(3) sp(3) by simp
  from st_Write_buf_append [OF sp(1) this] obtain s1 where
    s1: "st_Write_buf (Some bs) (st_SetPos n0 s) = Ok s1" "st_own s1"
      "st_written s1 = take n0 (st_written s) @ bs" "st_cap s1 \<le> st_cap s + length bs + 527"
    unfolding sp by metis
  have "st_cap s1 + length tail + 1024 \<le> 2 ^ 32" using assms(3) s1(4) by linarith
  from st_Write_buf_append [OF s1(2) this] obtain s2 where
    s2: "st_Write_buf (Some tail) s1 = Ok s2" "st_own s2"
      "st_written s2 = take n0 (st_written s) @ bs @ tail"
    unfolding s1(3) by (metis append_assoc)
  have "(if length bs > 0 then st_Write_buf (Some bs) (st_SetPos n0 s) else Ok (st_SetPos n0 s)) = Ok s1"
    using s1(1) by (auto simp: st_Write_buf_def)
  moreover have "(if tail \<noteq> [] then st_Write_buf (Some tail) s1 else Ok s1) = Ok s2"
    using s2(1) by (auto simp: st_Write_buf_def)
  ultimately show ?thesis using s2(2,3) by auto
qed

lemma st_Replace_spec:
  assumes own: "st_own s" and "n0 \<le> n1" "n1 \<le> st_pos s" "2 * st_cap s + length bs + 2048 \<le> 2 ^ 32"
  shows "\<exists>s'. st_Replace n0 n1 (Some bs) s = Ok s' \<and> st_own s'
     \<and> st_written s' = take n0 (st_written s) @ bs @ drop n1 (st_written s)"
proof -
  have cap: "st_pos s \<le> st_cap s" "length (st_buf s) = st_cap s" using own by (auto simp: st_own_def)
  have np: "n1 \<noteq> stream_npos" "\<not> n1 > st_pos s" "\<not> n0 > n1"
    using assms cap by (auto simp: stream_npos_def)
  have er: "size_sub n1 n0 = n1 - n0" "size_sub (st_pos s) n1 = st_pos s - n1"
    using assms by (simp_all add: size_sub_le)
  define tail where "tail = mem_read (st_buf s) n1 (st_pos s - n1)"
  have tail: "tail = drop n1 (st_written s)" using assms(3) cap
    by (simp add: tail_def mem_read_def st_written_def drop_take)
  have lb: "length tail \<le> st_cap s" using tail cap by (simp add: st_written_def)
  show ?thesis
  proof (cases "length bs = n1 - n0")
    case True
    show ?thesis
    proof (cases "bs = []")
      case False
      have "n0 + length bs = n1" using True assms(2) by simp
      moreover have "st_Replace n0 n1 (Some bs) s
          = obind (st_Write_buf (Some bs) (st_SetPos n0 s)) (\<lambda>s'. Ok (st_SetPos (st_pos s) s'))"
        using True False np er by (auto simp: st_Replace_def)
      ultimately show ?thesis
        using st_Replace_in_place [OF own _ False, of n0] assms(3) by auto
    qed (use True np er assms in \<open>simp add: st_Replace_def\<close>)
  next
    case False
    have sz: "st_cap s + length bs + length tail + 2048 \<le> 2 ^ 32" using lb assms(4) by linarith
    have n0: "n0 \<le> st_pos s" using assms by simp
    have eq: "st_Replace n0 n1 (Some bs) s
        = obind (if length bs > 0 then st_Write_buf (Some bs) (st_SetPos n0 s) else Ok (st_SetPos n0 s))
            (\<lambda>s'. if tail \<noteq> [] then st_Write_buf (Some tail) s' else Ok s')"
      using False np er cap by (simp add: st_Replace_def Let_def flip: tail_def)
    show ?thesis unfolding eq tail [symmetric] by (rule st_Replace_rebuild [OF own n0 sz])
  qed
qed

text \<open>With the bounds the wrong way round across the position, the tail length wraps around.\<close>

lemma st_Replace_crossed:
  assumes "st_own s" "n1 \<le> st_pos s" "st_pos s < n0" "n0 < 2 ^ 64" "st_cap s < 2 ^ 64" "length bs \<noteq> n0 - n1"
  shows "st_Replace n0 n1 (Some bs) s = Fault OutOfBounds"
proof -
  have "n1 < 2 ^ 64 - 1" using assms by linarith
  then have "n1 \<noteq> stream_npos" by (simp add: stream_npos_def)
  moreover have "size_sub n0 n1 = n0 - n1" using assms by (simp add: size_sub_le)
  moreover have "size_sub (st_pos s) n0 = 2 ^ 64 + st_pos s - n0"
    using assms by (simp add: size_sub_def)
  ultimately show ?thesis
    using assms by (auto simp: st_Replace_def Let_def st_own_def)
qed

section \<open>Properties\<close>

text \<open>C28: \<open>Replace(n0, n1, buf, len)\<close> on a stream that owns its buffer and whose range lies inside the
written bytes replaces exactly the bytes from \<open>n0\<close> to \<open>n1\<close> by the new ones, keeps everything before
and after, and leaves a well-formed stream, whether it overwrites in place or rebuilds the tail
(\<open>Insert\<close> and \<open>Erase\<close> are the cases of an empty range and of no bytes).\<close>

theorem stream_replace:
  assumes "st_own s" "n0 \<le> n1" "n1 \<le> st_pos s" "2 * st_cap s + length bs + 2048 \<le> 2 ^ 32"
  shows "(\<exists>s'. st_Replace n0 n1 (Some bs) s = Ok s' \<and> st_own s'
       \<and> st_written s' = take n0 (st_written s) @ bs @ drop n1 (st_written s))
     \<and> (\<exists>s'. st_Insert n0 (Some bs) s = Ok s' \<and> st_own s'
       \<and> st_written s' = take n0 (st_written s) @ bs @ drop n0 (st_written s))
     \<and> (\<exists>s'. st_Erase n0 n1 s = Ok s' \<and> st_own s'
       \<and> st_written s' = take n0 (st_written s) @ drop n1 (st_written s))"
proof -
  have n0: "n0 \<le> st_pos s" using assms by simp
  have e: "st_Erase n0 n1 s = st_Replace n0 n1 (Some []) s"
    by (simp add: st_Erase_def st_Replace_def)
  have sz: "2 * st_cap s + length [] + 2048 \<le> 2 ^ 32" using assms(4) by simp
  show ?thesis
    using st_Replace_spec [OF assms(1) order_refl n0 assms(4)] st_Replace_spec [OF assms]
      st_Replace_spec [OF assms(1-3) sz]
    unfolding e st_Insert_def by simp
qed

definition demo_stream :: stream where
  "demo_stream = Stream_new\<lparr>st_buf := [1, 2, 3, 4, 0, 0, 0, 0], st_pos := 4, st_cap := 8\<rparr>"

theorem stream_replace_witness:
  "(\<exists>s'. st_Replace 1 3 (Some [9, 8, 7]) demo_stream = Ok s' \<and> st_own s' \<and> st_written s' = [1, 9, 8, 7, 4])
   \<and> (\<exists>s'. st_Insert 1 (Some [9, 8, 7]) demo_stream = Ok s' \<and> st_own s' \<and> st_written s' = [1, 9, 8, 7, 2, 3, 4])
   \<and> (\<exists>s'. st_Erase 1 3 demo_stream = Ok s' \<and> st_own s' \<and> st_written s' = [1, 4])"
  using stream_replace [of demo_stream 1 3 "[9, 8, 7]"]
  by (simp add: demo_stream_def st_own_def st_written_def Stream_new_def)

text \<open>The stream's copy constructor and its non-attaching form copy nothing: \<open>Assign\<close> sets the
position before the buffer has been grown, the position is clamped to the capacity 0 of the new
stream, and the write that follows is skipped. The result is the empty stream, whatever was copied.\<close>

theorem stream_copy_loses_data:
  "Stream_copy rhs = Ok Stream_new \<and> Stream_copy_attach rhs False = Ok Stream_new
   \<and> st_written Stream_new = []"
  by (simp add: Stream_copy_def Stream_copy_attach_def st_Assign_def st_SetPos_def Stream_new_def
      st_written_def)

end
