(* ===== verification/Message_Block.thy ===== *)
theory Message_Block
  imports Prelude
begin

text \<open>
  The growable byte block \<open>LLBC_MessageBlock\<close> of llbc/core/thread/MessageBlock.h and
  MessageBlockInl.h, the carrier of every packet payload and of every chunk of network data.

  A block is its buffer, its size and its two positions; the links \<open>_prev\<close>/\<open>_next\<close> belong to
  the lists that hold blocks (see \<open>Message_Buffer\<close>) and the pool pointer to the allocator.
  A null buffer is the empty list. Sizes and positions are \<open>size_t\<close>, modelled by \<open>nat\<close>;
  \<open>npos\<close> is its largest value. The source of a \<open>memcpy\<close> never overlaps the block here, so the
  overlap assertions hold; the assertion of \<open>Resize\<close> is modelled.

  The contract of a block, that it is a queue of bytes, is the locale \<open>byte_fifo\<close>,
  interpreted on blocks that own their buffer as \<open>block\<close>.
\<close>

section \<open>The block and its operations\<close>

record msg_block =
  mb_attach :: bool
  mb_buf :: "byte list"
  mb_size :: nat
  mb_readPos :: nat
  mb_writePos :: nat

definition npos :: nat where
  "npos = 2 ^ 64 - 1"

definition MessageBlock_new :: "nat \<Rightarrow> msg_block" where
  "MessageBlock_new n = \<lparr>mb_attach = False, mb_buf = replicate n junk_byte, mb_size = n,
                            mb_readPos = 0, mb_writePos = 0\<rparr>"

definition MessageBlock_of_buf :: "byte list \<Rightarrow> bool \<Rightarrow> msg_block" where
  "MessageBlock_of_buf buf attach = \<lparr>mb_attach = attach, mb_buf = buf, mb_size = length buf,
                                     mb_readPos = 0, mb_writePos = 0\<rparr>"

definition mb_Resize :: "nat \<Rightarrow> msg_block \<Rightarrow> msg_block outcome" where
  "mb_Resize newSize b =
     (if \<not> mb_attach b \<and> newSize > mb_size b
      then Ok (b\<lparr>mb_buf := mb_buf b @ replicate (newSize - mb_size b) junk_byte, mb_size := newSize\<rparr>)
      else Fault AssertFail)"

definition mb_Allocate :: "nat \<Rightarrow> msg_block \<Rightarrow> msg_block result outcome" where
  "mb_Allocate n b =
     (if mb_attach b then Ok (Inl ERROR_INVALID)
      else obind (mb_Resize (mb_size b + n) b) (\<lambda>b'. Ok (Inr b')))"

definition mb_GetReadableSize :: "msg_block \<Rightarrow> nat" where
  "mb_GetReadableSize b = (if mb_readPos b \<ge> mb_writePos b then 0 else mb_writePos b - mb_readPos b)"

definition mb_GetWritableSize :: "msg_block \<Rightarrow> nat" where
  "mb_GetWritableSize b = mb_size b - mb_writePos b"

text \<open>\<open>Read(buf, len)\<close>; \<open>dst\<close> tells whether the destination pointer is not null.\<close>

definition mb_Read :: "bool \<Rightarrow> nat \<Rightarrow> msg_block \<Rightarrow> (byte list \<times> msg_block) result" where
  "mb_Read dst len b =
     (if \<not> dst \<or> len > mb_GetReadableSize b then Inl ERROR_LIMIT
      else Inr (mem_read (mb_buf b) (mb_readPos b) len, b\<lparr>mb_readPos := mb_readPos b + len\<rparr>))"

text \<open>\<open>Write(buf, len)\<close>; a null source is \<open>None\<close>, otherwise the first \<open>len\<close> bytes are copied.\<close>

definition mb_Write :: "byte list option \<Rightarrow> nat \<Rightarrow> msg_block \<Rightarrow> msg_block result outcome" where
  "mb_Write buf len b =
     (if len = 0 then Ok (Inr b)
      else case buf of None \<Rightarrow> Ok (Inl ERROR_ARG)
        | Some bs \<Rightarrow>
            obind (if mb_writePos b + len > mb_size b
                   then mb_Resize (max (mb_writePos b + len) (mb_size b * 2)) b else Ok b)
              (\<lambda>b'. Ok (Inr (b'\<lparr>mb_buf := mem_write (mb_buf b') (mb_writePos b') (take len bs),
                                mb_writePos := mb_writePos b' + len\<rparr>))))"

definition mb_Release :: "msg_block \<Rightarrow> msg_block" where
  "mb_Release b = (if mb_buf b = [] then b
     else b\<lparr>mb_buf := [], mb_size := 0, mb_readPos := 0, mb_writePos := 0\<rparr>)"

definition mb_Clear :: "msg_block \<Rightarrow> msg_block" where
  "mb_Clear b = (let b' = b\<lparr>mb_readPos := 0, mb_writePos := 0\<rparr>
     in if mb_attach b then b'\<lparr>mb_buf := [], mb_size := 0, mb_attach := False\<rparr> else b')"

definition mb_SetReadPos :: "nat \<Rightarrow> msg_block \<Rightarrow> msg_block result" where
  "mb_SetReadPos pos b =
     (if pos = npos \<or> pos > mb_size b then Inl ERROR_RANGE else Inr (b\<lparr>mb_readPos := pos\<rparr>))"

definition mb_ShiftReadPos :: "int \<Rightarrow> msg_block \<Rightarrow> msg_block result" where
  "mb_ShiftReadPos off b = (let pos = int (mb_readPos b) + off in
     if pos < 0 \<or> pos > int (mb_size b) then Inl ERROR_RANGE else Inr (b\<lparr>mb_readPos := nat pos\<rparr>))"

definition mb_SetWritePos :: "nat \<Rightarrow> msg_block \<Rightarrow> msg_block result" where
  "mb_SetWritePos pos b =
     (if pos = npos \<or> pos > mb_size b then Inl ERROR_RANGE else Inr (b\<lparr>mb_writePos := pos\<rparr>))"

definition mb_ShiftWritePos :: "int \<Rightarrow> msg_block \<Rightarrow> msg_block result" where
  "mb_ShiftWritePos off b = (let pos = int (mb_writePos b) + off in
     if pos < 0 \<or> pos > int (mb_size b) then Inl ERROR_RANGE else Inr (b\<lparr>mb_writePos := nat pos\<rparr>))"

definition mb_Swap :: "msg_block \<Rightarrow> msg_block \<Rightarrow> msg_block \<times> msg_block" where
  "mb_Swap b another = (another, b)"

text \<open>The clone of an attached block shares the buffer; any other gets a copy of it.\<close>

definition mb_Clone :: "msg_block \<Rightarrow> msg_block" where
  "mb_Clone b = (let clone = (if mb_attach b then MessageBlock_of_buf (mb_buf b) True
                              else (MessageBlock_new (mb_size b))\<lparr>mb_buf := mb_buf b\<rparr>)
     in clone\<lparr>mb_readPos := mb_readPos b, mb_writePos := mb_writePos b\<rparr>)"

section \<open>A block is a queue of bytes\<close>

text \<open>The contract: writing appends, reading takes from the front or fails and keeps all.\<close>

locale byte_fifo =
  fixes put :: "byte list option \<Rightarrow> nat \<Rightarrow> 'b \<Rightarrow> 'b result outcome"
    and get :: "bool \<Rightarrow> nat \<Rightarrow> 'b \<Rightarrow> (byte list \<times> 'b) result"
    and data :: "'b \<Rightarrow> byte list"
    and ok :: "'b \<Rightarrow> bool"
  assumes put_data: "ok b \<Longrightarrow> \<exists>b'. put (Some bs) (length bs) b = Ok (Inr b') \<and> ok b' \<and> data b' = data b @ bs"
    and get_data: "ok b \<Longrightarrow> n \<le> length (data b) \<Longrightarrow>
          \<exists>b'. get True n b = Inr (take n (data b), b') \<and> ok b' \<and> data b' = drop n (data b)"
    and get_short: "ok b \<Longrightarrow> length (data b) < n \<Longrightarrow> get True n b = Inl ERROR_LIMIT"
begin

text \<open>Writing a sequence of fields, and reading fields of given lengths.\<close>

fun put_all :: "byte list list \<Rightarrow> 'b \<Rightarrow> 'b result outcome" where
  "put_all [] b = Ok (Inr b)"
| "put_all (f # fs) b = obind (put (Some f) (length f) b)
     (\<lambda>r. case r of Inl e \<Rightarrow> Ok (Inl e) | Inr b' \<Rightarrow> put_all fs b')"

fun get_all :: "nat list \<Rightarrow> 'b \<Rightarrow> (byte list list \<times> 'b) result" where
  "get_all [] b = Inr ([], b)"
| "get_all (n # ns) b = (case get True n b of Inl e \<Rightarrow> Inl e
     | Inr (f, b') \<Rightarrow> (case get_all ns b' of Inl e \<Rightarrow> Inl e | Inr (fs, b'') \<Rightarrow> Inr (f # fs, b'')))"

lemma put_all_data:
  "ok b \<Longrightarrow> \<exists>b'. put_all fs b = Ok (Inr b') \<and> ok b' \<and> data b' = data b @ concat fs"
proof (induction fs arbitrary: b)
  case (Cons f fs)
  obtain b1 where b1: "put (Some f) (length f) b = Ok (Inr b1)" "ok b1" "data b1 = data b @ f"
    using put_data [OF Cons.prems] by blast
  from Cons.IH [OF b1(2)] show ?case using b1 by auto
qed simp

lemma get_all_data:
  "ok b \<Longrightarrow> data b = concat fs @ rest \<Longrightarrow>
   \<exists>b'. get_all (map length fs) b = Inr (fs, b') \<and> ok b' \<and> data b' = rest"
proof (induction fs arbitrary: b)
  case (Cons f fs)
  obtain b1 where b1: "get True (length f) b = Inr (f, b1)" "ok b1" "data b1 = concat fs @ rest"
    using get_data [OF Cons.prems(1), of "length f"] Cons.prems(2) by auto
  from Cons.IH [OF b1(2,3)] show ?case using b1 by auto
qed simp

lemma put_get_all:
  "ok b \<Longrightarrow> data b = [] \<Longrightarrow> \<exists>b' b''. put_all fs b = Ok (Inr b') \<and>
     get_all (map length fs) b' = Inr (fs, b'') \<and> data b'' = []"
  using put_all_data [of b fs] get_all_data [of _ fs "[]"] by fastforce

end

definition mb_wf :: "msg_block \<Rightarrow> bool" where
  "mb_wf b \<longleftrightarrow> length (mb_buf b) = mb_size b \<and> mb_readPos b \<le> mb_writePos b \<and> mb_writePos b \<le> mb_size b"

definition mb_own :: "msg_block \<Rightarrow> bool" where
  "mb_own b \<longleftrightarrow> mb_wf b \<and> \<not> mb_attach b"

definition mb_data :: "msg_block \<Rightarrow> byte list" where
  "mb_data b = mem_read (mb_buf b) (mb_readPos b) (mb_writePos b - mb_readPos b)"

lemmas mb_defs = mb_wf_def mb_own_def mb_data_def

lemma length_mb_data: "mb_wf b \<Longrightarrow> length (mb_data b) = mb_GetReadableSize b"
  by (auto simp: mb_defs mb_GetReadableSize_def length_mem_read)

lemma mb_readable: "mb_own b \<Longrightarrow> mb_GetReadableSize b = length (mb_data b)"
  by (simp add: length_mb_data mb_own_def)

lemma mb_Resize_ok:
  assumes "mb_own b" "mb_size b < n"
  shows "\<exists>b'. mb_Resize n b = Ok b' \<and> mb_own b' \<and> mb_data b' = mb_data b \<and> mb_size b' = n
     \<and> mb_writePos b' = mb_writePos b \<and> mb_readPos b' = mb_readPos b"
  using assms by (auto simp: mb_Resize_def mb_defs mem_read_prefix)

text \<open>The write itself, once there is room.\<close>

lemma mb_store:
  assumes "mb_own b" "mb_writePos b + length bs \<le> mb_size b"
  defines "b' \<equiv> b\<lparr>mb_buf := mem_write (mb_buf b) (mb_writePos b) bs, mb_writePos := mb_writePos b + length bs\<rparr>"
  shows "mb_own b'" "mb_data b' = mb_data b @ bs"
  using assms window_mem_write [of "mb_readPos b" "mb_writePos b" "mb_buf b" bs]
  by (simp_all add: mb_defs)

lemma mb_Write_data:
  assumes "mb_own b"
  shows "\<exists>b'. mb_Write (Some bs) (length bs) b = Ok (Inr b') \<and> mb_own b' \<and> mb_data b' = mb_data b @ bs"
proof (cases "bs = [] \<or> mb_writePos b + length bs \<le> mb_size b")
  case True
  then show ?thesis using assms mb_store [OF assms, of bs] by (auto simp: mb_Write_def)
next
  case False
  let ?n = "max (mb_writePos b + length bs) (mb_size b * 2)"
  obtain b1 where b1: "mb_Resize ?n b = Ok b1" "mb_own b1" "mb_data b1 = mb_data b" "mb_size b1 = ?n"
    "mb_writePos b1 = mb_writePos b"
    using mb_Resize_ok [OF assms, of ?n] False less_max_iff_disj [of "mb_size b"] by auto
  then show ?thesis
    using False mb_store [OF b1(2), of bs] by (auto simp: mb_Write_def)
qed

lemma mb_Read_data:
  assumes "mb_own b" "n \<le> length (mb_data b)"
  shows "\<exists>b'. mb_Read True n b = Inr (take n (mb_data b), b') \<and> mb_own b' \<and> mb_data b' = drop n (mb_data b)"
  using assms length_mb_data [of b]
  by (auto simp: mb_Read_def mb_defs mb_GetReadableSize_def mem_read_def min_def drop_take add.commute
      split: if_splits)

interpretation block: byte_fifo mb_Write mb_Read mb_data mb_own
proof (unfold_locales, goal_cases)
  case (1 b bs) then show ?case by (rule mb_Write_data)
next
  case (2 b n) then show ?case by (rule mb_Read_data)
next
  case (3 b n) then show ?case using length_mb_data [of b] by (simp add: mb_Read_def mb_own_def)
qed

section \<open>Positions\<close>

text \<open>The operations may set the read position behind the write position, but neither ever leaves the buffer.\<close>

definition mb_inside :: "msg_block \<Rightarrow> bool" where
  "mb_inside b \<longleftrightarrow> length (mb_buf b) = mb_size b \<and> mb_readPos b \<le> mb_size b \<and> mb_writePos b \<le> mb_size b"

datatype block_op = P_Allocate nat | P_Read nat | P_Write "byte list option" nat | P_Release | P_Clear
  | P_SetReadPos nat | P_ShiftReadPos int | P_SetWritePos nat | P_ShiftWritePos int | P_Swap msg_block | P_Clone

text \<open>The block after an operation; an error leaves it as it is.\<close>

definition settle :: "msg_block \<Rightarrow> msg_block result \<Rightarrow> msg_block" where
  "settle b r = (case r of Inl e \<Rightarrow> b | Inr b' \<Rightarrow> b')"

primrec run_pop :: "block_op \<Rightarrow> msg_block \<Rightarrow> msg_block outcome" where
  "run_pop (P_Allocate n) b = obind (mb_Allocate n b) (\<lambda>r. Ok (settle b r))"
| "run_pop (P_Read n) b = Ok (case mb_Read True n b of Inl e \<Rightarrow> b | Inr (d, b') \<Rightarrow> b')"
| "run_pop (P_Write bs n) b = obind (mb_Write bs n b) (\<lambda>r. Ok (settle b r))"
| "run_pop P_Release b = Ok (mb_Release b)"
| "run_pop P_Clear b = Ok (mb_Clear b)"
| "run_pop (P_SetReadPos n) b = Ok (settle b (mb_SetReadPos n b))"
| "run_pop (P_ShiftReadPos k) b = Ok (settle b (mb_ShiftReadPos k b))"
| "run_pop (P_SetWritePos n) b = Ok (settle b (mb_SetWritePos n b))"
| "run_pop (P_ShiftWritePos k) b = Ok (settle b (mb_ShiftWritePos k b))"
| "run_pop (P_Swap another) b = Ok (fst (mb_Swap b another))"
| "run_pop P_Clone b = Ok (mb_Clone b)"

primrec run_pops :: "block_op list \<Rightarrow> msg_block \<Rightarrow> msg_block outcome" where
  "run_pops [] b = Ok b"
| "run_pops (p # ps) b = obind (run_pop p b) (run_pops ps)"

primrec pop_ok :: "block_op \<Rightarrow> bool" where
  "pop_ok (P_Allocate n) \<longleftrightarrow> 0 < n"
| "pop_ok (P_Read n) \<longleftrightarrow> True"
| "pop_ok (P_Write bs n) \<longleftrightarrow> (\<forall>xs. bs = Some xs \<longrightarrow> n \<le> length xs)"
| "pop_ok P_Release \<longleftrightarrow> True"
| "pop_ok P_Clear \<longleftrightarrow> True"
| "pop_ok (P_SetReadPos n) \<longleftrightarrow> True"
| "pop_ok (P_ShiftReadPos k) \<longleftrightarrow> True"
| "pop_ok (P_SetWritePos n) \<longleftrightarrow> True"
| "pop_ok (P_ShiftWritePos k) \<longleftrightarrow> True"
| "pop_ok (P_Swap another) \<longleftrightarrow> mb_inside another \<and> \<not> mb_attach another"
| "pop_ok P_Clone \<longleftrightarrow> True"

lemma write_inside:
  assumes "mb_inside b" "\<not> mb_attach b" "n \<le> length xs"
  shows "\<exists>b'. mb_Write (Some xs) n b = Ok (Inr b') \<and> mb_inside b' \<and> \<not> mb_attach b'"
  using assms by (auto simp: mb_Write_def mb_Resize_def mb_inside_def)

lemma run_pop_ok:
  assumes "mb_inside b" "\<not> mb_attach b" "pop_ok p"
  shows "\<exists>b'. run_pop p b = Ok b' \<and> mb_inside b' \<and> \<not> mb_attach b'"
proof (cases p)
  case (P_Write bs n)
  show ?thesis
  proof (cases bs)
    case None
    then show ?thesis using P_Write assms by (auto simp: settle_def mb_Write_def)
  next
    case (Some xs)
    then show ?thesis using write_inside [OF assms(1,2), of n xs] P_Write assms(3) by (auto simp: settle_def)
  qed
qed (use assms in \<open>auto simp: settle_def mb_inside_def mb_Allocate_def mb_Resize_def mb_Read_def mb_GetReadableSize_def mb_Release_def mb_Clear_def
      mb_SetReadPos_def mb_ShiftReadPos_def mb_SetWritePos_def mb_ShiftWritePos_def mb_Swap_def mb_Clone_def MessageBlock_new_def Let_def\<close>)

text \<open>C32: a block is a well-formed buffer at any time. Whatever operations run on a block that owns its memory - with any arguments,
but for an allocation of nothing, which its assertion forbids -, no assertion fails, the buffer is as long as the size says, and
neither position is outside it, so that no \<open>memcpy\<close> of a later operation leaves it.\<close>

theorem msg_block_positions:
  assumes "mb_inside b" "\<not> mb_attach b" "list_all pop_ok ps"
  shows "\<exists>b'. run_pops ps b = Ok b' \<and> mb_inside b' \<and> \<not> mb_attach b'"
  using assms
proof (induction ps arbitrary: b)
  case (Cons p ps)
  then obtain b1 where "run_pop p b = Ok b1" "mb_inside b1" "\<not> mb_attach b1" using run_pop_ok [of b p] by auto
  then show ?case using Cons.IH [of b1] Cons.prems(3) by auto
qed simp

theorem msg_block_positions_witness:
  "\<exists>b'. run_pops [P_Write (Some [1, 2, 3]) 3, P_ShiftReadPos 2, P_SetWritePos 1, P_Write (Some [7, 8, 9, 10]) 4, P_Read 9] (MessageBlock_new 2) = Ok b'
     \<and> mb_inside b'"
  using msg_block_positions [of "MessageBlock_new 2" "[P_Write (Some [1, 2, 3]) 3, P_ShiftReadPos 2, P_SetWritePos 1, P_Write (Some [7, 8, 9, 10]) 4, P_Read 9]"]
  by (auto simp: mb_inside_def MessageBlock_new_def simp del: run_pops.simps)

end
