(* ===== verification/Packet.thy ===== *)
theory Packet
  imports Byte_Stream Message_Block
begin

text \<open>
  The packet \<open>LLBC_Packet\<close> of llbc/comm/Packet.h, PacketInl.h and Packet.cpp: a header and a
  payload block to which typed values are appended and from which they are read.

  The integer fields of the header that travel on the wire are words of their C++ width; the
  session ids stay on the host and are integers. \<open>pk_pool\<close> is what the block pool hands out
  when the packet comes from a pool: the pool is not modelled, its answer is a field.
  A read that fails returns \<open>None\<close> (LLBC_FAILED, last error ERROR_LIMIT) and the packet as it
  is then; a write returns whether it succeeded. Encoders, decoders and the pre-handle result,
  which the RPC code does not use, are left out.

  The contract of a type that can be put into packets is the locale \<open>packet_codec\<close>, in which
  sequences of such values are shown to come back; it is interpreted for 32-bit integers and for
  strings, and shown for protobuf messages whose parser inverts their serializer.
\<close>

section \<open>The packet\<close>

record packet =
  pk_length :: nat
  pk_sessionId :: int
  pk_acceptSessionId :: int
  pk_senderSvcId :: "32 word"
  pk_recverSvcId :: "32 word"
  pk_opcode :: "32 word"
  pk_status :: "32 word"
  pk_flags :: "32 word"
  pk_extData1 :: "64 word"
  pk_extData2 :: "64 word"
  pk_extData3 :: "64 word"
  pk_payload :: "msg_block option"
  pk_pool :: "msg_block option"

definition Packet_new :: "msg_block option \<Rightarrow> packet" where
  "Packet_new pool = \<lparr>pk_length = 0, pk_sessionId = 0, pk_acceptSessionId = 0, pk_senderSvcId = 0,
     pk_recverSvcId = 0, pk_opcode = 0, pk_status = 0, pk_flags = 0, pk_extData1 = 0, pk_extData2 = 0,
     pk_extData3 = 0, pk_payload = None, pk_pool = pool\<rparr>"

definition pk_SetHeader :: "int \<Rightarrow> 32 word \<Rightarrow> 32 word \<Rightarrow> packet \<Rightarrow> packet" where
  "pk_SetHeader sessionId opcode status p =
     p\<lparr>pk_sessionId := sessionId, pk_opcode := opcode, pk_status := status\<rparr>"

definition pk_SetHeader_svc :: "32 word \<Rightarrow> int \<Rightarrow> 32 word \<Rightarrow> 32 word \<Rightarrow> packet \<Rightarrow> packet" where
  "pk_SetHeader_svc svcId sessionId opcode status p =
     p\<lparr>pk_recverSvcId := svcId, pk_sessionId := sessionId, pk_opcode := opcode, pk_status := status\<rparr>"

definition pk_SetHeader_of :: "packet \<Rightarrow> 32 word \<Rightarrow> 32 word \<Rightarrow> packet \<Rightarrow> packet" where
  "pk_SetHeader_of src opcode status p =
     p\<lparr>pk_sessionId := pk_sessionId src, pk_opcode := opcode, pk_status := status\<rparr>"

definition pk_HasFlags :: "32 word \<Rightarrow> packet \<Rightarrow> bool" where
  "pk_HasFlags flags p \<longleftrightarrow> pk_flags p AND flags = flags"

definition pk_AddFlags :: "32 word \<Rightarrow> packet \<Rightarrow> packet" where
  "pk_AddFlags flags p = p\<lparr>pk_flags := pk_flags p OR flags\<rparr>"

definition pk_RemoveFlags :: "32 word \<Rightarrow> packet \<Rightarrow> packet" where
  "pk_RemoveFlags flags p = p\<lparr>pk_flags := pk_flags p AND NOT flags\<rparr>"

definition pk_GetPayload :: "packet \<Rightarrow> byte list option" where
  "pk_GetPayload p = (case pk_payload p of None \<Rightarrow> None
     | Some b \<Rightarrow> Some (drop (mb_readPos b) (mb_buf b)))"

definition pk_GetPayloadLength :: "packet \<Rightarrow> nat" where
  "pk_GetPayloadLength p = (case pk_payload p of None \<Rightarrow> 0 | Some b \<Rightarrow> mb_GetReadableSize b)"

definition pk_GetMutablePayload :: "packet \<Rightarrow> msg_block option \<times> packet" where
  "pk_GetMutablePayload p =
     (let p' = (if pk_payload p = None \<and> pk_pool p \<noteq> None then p\<lparr>pk_payload := pk_pool p\<rparr> else p)
      in (pk_payload p', p'))"

definition pk_DetachPayload :: "packet \<Rightarrow> msg_block option \<times> packet" where
  "pk_DetachPayload p = (pk_payload p, p\<lparr>pk_payload := None\<rparr>)"

definition pk_SetPayload :: "msg_block option \<Rightarrow> packet \<Rightarrow> packet" where
  "pk_SetPayload payload p = (if payload = pk_payload p then p else p\<lparr>pk_payload := payload\<rparr>)"

definition pk_ResetPayload :: "packet \<Rightarrow> packet" where
  "pk_ResetPayload p = (case pk_payload p of None \<Rightarrow> p
     | Some b \<Rightarrow> p\<lparr>pk_payload := Some (b\<lparr>mb_readPos := 0, mb_writePos := 0\<rparr>)\<rparr>)"

text \<open>\<open>Clear\<close>: a payload block that belongs to a pool goes back to it, any other is emptied.\<close>

definition pk_Clear :: "bool \<Rightarrow> packet \<Rightarrow> packet" where
  "pk_Clear pooled p = (Packet_new (pk_pool p))
     \<lparr>pk_payload := (case pk_payload p of None \<Rightarrow> None
         | Some b \<Rightarrow> if pooled then None else Some (mb_Clear b))\<rparr>"

definition pk_CheckAndCreatePayload :: "nat \<Rightarrow> packet \<Rightarrow> msg_block" where
  "pk_CheckAndCreatePayload initSize p = (case pk_payload p of Some b \<Rightarrow> b
     | None \<Rightarrow> (case pk_pool p of Some b \<Rightarrow> b | None \<Rightarrow> MessageBlock_new initSize))"

section \<open>Raw reads and writes\<close>

definition pk_Read_buf :: "bool \<Rightarrow> nat \<Rightarrow> packet \<Rightarrow> byte list option \<times> packet" where
  "pk_Read_buf dst len p = (case pk_payload p of None \<Rightarrow> (None, p)
     | Some b \<Rightarrow> (case mb_Read dst len b of Inl _ \<Rightarrow> (None, p)
         | Inr (bs, b') \<Rightarrow> (Some bs, p\<lparr>pk_payload := Some b'\<rparr>)))"

definition pk_Write_buf :: "byte list option \<Rightarrow> nat \<Rightarrow> packet \<Rightarrow> (bool \<times> packet) outcome" where
  "pk_Write_buf buf len p = (let b = pk_CheckAndCreatePayload len p in
     obind (mb_Write buf len b) (\<lambda>r. case r of
         Inl _ \<Rightarrow> Ok (False, p\<lparr>pk_payload := Some b\<rparr>)
       | Inr b' \<Rightarrow> Ok (True, p\<lparr>pk_payload := Some b'\<rparr>)))"

definition pk_ReadRawType :: "nat \<Rightarrow> packet \<Rightarrow> (('a::len word) option \<times> packet) outcome" where
  "pk_ReadRawType me p = (case pk_Read_buf True (LENGTH('a) div 8) p of
     (None, p') \<Rightarrow> Ok (None, p')
   | (Some bs, p') \<Rightarrow> Ok (Some (LLBC_Net2Host me (of_mem me bs)), p'))"

definition pk_WriteRawType :: "nat \<Rightarrow> 'a::len word \<Rightarrow> packet \<Rightarrow> (bool \<times> packet) outcome" where
  "pk_WriteRawType me val p =
     pk_Write_buf (Some (mem_bytes me (LLBC_Host2Net me val))) (LENGTH('a) div 8) p"

definition pk_Write_stream :: "stream \<Rightarrow> packet \<Rightarrow> (bool \<times> packet) outcome" where
  "pk_Write_stream s p = pk_Write_buf (if st_cap s = 0 then None else Some (st_buf s)) (st_pos s) p"

text \<open>The templates \<open>Read<T>\<close> and \<open>Write<T>\<close>, with the stream's own reader and writer for \<open>T\<close>.\<close>

definition pk_Read_obj :: "(stream \<Rightarrow> ('r option \<times> stream) outcome) \<Rightarrow> packet \<Rightarrow> ('r option \<times> packet) outcome" where
  "pk_Read_obj rd p = (case pk_payload p of None \<Rightarrow> Ok (None, p)
     | Some b \<Rightarrow> obind (rd (st_Attach_buf (mb_data b) Stream_new)) (\<lambda>(r, s). case r of
           None \<Rightarrow> Ok (None, p)
         | Some v \<Rightarrow> Ok (Some v, (case mb_ShiftReadPos (int (st_pos s)) b of
               Inl _ \<Rightarrow> p | Inr b' \<Rightarrow> p\<lparr>pk_payload := Some b'\<rparr>))))"

definition pk_Write_obj :: "(stream \<Rightarrow> stream outcome) \<Rightarrow> packet \<Rightarrow> (bool \<times> packet) outcome" where
  "pk_Write_obj wr p = obind (wr Stream_new) (\<lambda>s. pk_Write_stream s p)"

definition pk_Read_string :: "nat \<Rightarrow> packet \<Rightarrow> (byte list option \<times> packet) outcome" where
  "pk_Read_string me = pk_Read_obj (\<lambda>s. obind (st_Read_string me s)
     (\<lambda>(ok, bs, s'). Ok (if ok then Some bs else None, s')))"

definition pk_Write_string :: "nat \<Rightarrow> byte list \<Rightarrow> packet \<Rightarrow> (bool \<times> packet) outcome" where
  "pk_Write_string me bs = pk_Write_obj (st_Write_string me bs)"

definition pk_Read_pb :: "(byte list \<Rightarrow> 'm option) \<Rightarrow> nat \<Rightarrow> packet \<Rightarrow> ('m option \<times> packet) outcome" where
  "pk_Read_pb parse me = pk_Read_obj (st_Read_pb parse me)"

definition pk_Write_pb :: "('m \<Rightarrow> byte list) \<Rightarrow> nat \<Rightarrow> 'm \<Rightarrow> packet \<Rightarrow> (bool \<times> packet) outcome" where
  "pk_Write_pb ser me m = pk_Write_obj (st_Write_pb ser me m)"

section \<open>Containers\<close>

text \<open>Sequences: a 32-bit count, then the elements. The results of the single writes are ignored.\<close>

fun pk_Write_elems :: "('e \<Rightarrow> packet \<Rightarrow> (bool \<times> packet) outcome) \<Rightarrow> 'e list \<Rightarrow> packet \<Rightarrow> packet outcome" where
  "pk_Write_elems wr [] p = Ok p"
| "pk_Write_elems wr (x # xs) p = obind (wr x p) (\<lambda>(_, p'). pk_Write_elems wr xs p')"

definition pk_Write_seq :: "nat \<Rightarrow> ('e \<Rightarrow> packet \<Rightarrow> (bool \<times> packet) outcome) \<Rightarrow> 'e list \<Rightarrow> packet \<Rightarrow> (bool \<times> packet) outcome" where
  "pk_Write_seq me wr val p = obind (pk_WriteRawType me (of_nat (length val) :: 32 word) p)
     (\<lambda>(_, p'). obind (pk_Write_elems wr val p') (\<lambda>p''. Ok (True, p'')))"

text \<open>The container read so far is passed along; on failure it holds what was read.\<close>

fun pk_Read_elems :: "(packet \<Rightarrow> ('e option \<times> packet) outcome) \<Rightarrow> ('e \<Rightarrow> 'c \<Rightarrow> 'c) \<Rightarrow> nat \<Rightarrow> 'c \<Rightarrow> packet
    \<Rightarrow> (bool \<times> 'c \<times> packet) outcome" where
  "pk_Read_elems rd ins 0 c p = Ok (True, c, p)"
| "pk_Read_elems rd ins (Suc n) c p = obind (rd p) (\<lambda>(r, p'). case r of
       None \<Rightarrow> Ok (False, c, p')
     | Some e \<Rightarrow> pk_Read_elems rd ins n (ins e c) p')"

definition pk_Read_container :: "nat \<Rightarrow> (packet \<Rightarrow> ('e option \<times> packet) outcome) \<Rightarrow> ('e \<Rightarrow> 'c \<Rightarrow> 'c) \<Rightarrow> 'c \<Rightarrow> packet
    \<Rightarrow> (bool \<times> 'c \<times> packet) outcome" where
  "pk_Read_container me rd ins val p = obind (pk_ReadRawType me p) (\<lambda>(r, p'). case r of
       None \<Rightarrow> Ok (False, val, p')
     | Some len \<Rightarrow> pk_Read_elems rd ins (unat (len :: 32 word)) val p')"

definition pk_Read_seq :: "nat \<Rightarrow> (packet \<Rightarrow> ('e option \<times> packet) outcome) \<Rightarrow> 'e list \<Rightarrow> packet
    \<Rightarrow> (bool \<times> 'e list \<times> packet) outcome" where
  "pk_Read_seq me rd = pk_Read_container me rd (\<lambda>e c. c @ [e])"

definition pk_Read_set :: "nat \<Rightarrow> (packet \<Rightarrow> ('k option \<times> packet) outcome) \<Rightarrow> 'k set \<Rightarrow> packet
    \<Rightarrow> (bool \<times> 'k set \<times> packet) outcome" where
  "pk_Read_set me rd = pk_Read_container me rd insert"

text \<open>A map entry: the key, then the value; \<open>insert\<close> keeps an entry that is already there.\<close>

definition pk_Read_entry :: "(packet \<Rightarrow> ('k option \<times> packet) outcome) \<Rightarrow> (packet \<Rightarrow> ('v option \<times> packet) outcome)
    \<Rightarrow> packet \<Rightarrow> (('k \<times> 'v) option \<times> packet) outcome" where
  "pk_Read_entry rdk rdv p = obind (rdk p) (\<lambda>(k, p'). case k of None \<Rightarrow> Ok (None, p')
     | Some key \<Rightarrow> obind (rdv p') (\<lambda>(v, p''). case v of None \<Rightarrow> Ok (None, p'')
         | Some elem \<Rightarrow> Ok (Some (key, elem), p'')))"

definition pk_Read_map :: "nat \<Rightarrow> (packet \<Rightarrow> ('k option \<times> packet) outcome) \<Rightarrow> (packet \<Rightarrow> ('v option \<times> packet) outcome)
    \<Rightarrow> ('k \<rightharpoonup> 'v) \<Rightarrow> packet \<Rightarrow> (bool \<times> ('k \<rightharpoonup> 'v) \<times> packet) outcome" where
  "pk_Read_map me rdk rdv = pk_Read_container me (pk_Read_entry rdk rdv)
     (\<lambda>(k, v) m. case m k of None \<Rightarrow> m(k \<mapsto> v) | Some _ \<Rightarrow> m)"

definition pk_Write_entry :: "('k \<Rightarrow> packet \<Rightarrow> (bool \<times> packet) outcome) \<Rightarrow> ('v \<Rightarrow> packet \<Rightarrow> (bool \<times> packet) outcome)
    \<Rightarrow> 'k \<times> 'v \<Rightarrow> packet \<Rightarrow> (bool \<times> packet) outcome" where
  "pk_Write_entry wrk wrv e p = obind (wrk (fst e) p) (\<lambda>(_, p'). wrv (snd e) p')"

definition pk_Write_map :: "nat \<Rightarrow> ('k \<Rightarrow> packet \<Rightarrow> (bool \<times> packet) outcome) \<Rightarrow> ('v \<Rightarrow> packet \<Rightarrow> (bool \<times> packet) outcome)
    \<Rightarrow> ('k \<times> 'v) list \<Rightarrow> packet \<Rightarrow> (bool \<times> packet) outcome" where
  "pk_Write_map me wrk wrv = pk_Write_seq me (pk_Write_entry wrk wrv)"

section \<open>A packet is a queue of bytes\<close>

definition pk_ok :: "packet \<Rightarrow> bool" where
  "pk_ok p \<longleftrightarrow> (case pk_payload p of Some b \<Rightarrow> mb_own b
     | None \<Rightarrow> (case pk_pool p of Some b \<Rightarrow> mb_own b \<and> mb_data b = [] | None \<Rightarrow> True))"

definition pk_data :: "packet \<Rightarrow> byte list" where
  "pk_data p = (case pk_payload p of Some b \<Rightarrow> mb_data b | None \<Rightarrow> [])"

text \<open>Two packets that differ in their payload only.\<close>

definition same_header :: "packet \<Rightarrow> packet \<Rightarrow> bool" where
  "same_header p q \<longleftrightarrow> p\<lparr>pk_payload := None\<rparr> = q\<lparr>pk_payload := None\<rparr>"

definition pk_pool_ok :: "msg_block option \<Rightarrow> bool" where
  "pk_pool_ok pool \<longleftrightarrow> (case pool of Some b \<Rightarrow> mb_own b \<and> mb_data b = [] | None \<Rightarrow> True)"

lemma mb_own_new [simp]: "mb_own (MessageBlock_new n)" "mb_data (MessageBlock_new n) = []"
  by (simp_all add: MessageBlock_new_def mb_defs)

lemma pk_ok_new [simp]: "pk_pool_ok pool \<Longrightarrow> pk_ok (Packet_new pool)" "pk_data (Packet_new pool) = []"
  by (auto simp: pk_ok_def pk_pool_ok_def pk_data_def Packet_new_def split: option.splits)

lemma pk_pool_ok_None [simp]: "pk_pool_ok None"
  by (simp add: pk_pool_ok_def)

lemma same_header_refl [simp]: "same_header p p"
  by (simp add: same_header_def)

lemma same_header_trans [trans]: "same_header p q \<Longrightarrow> same_header q r \<Longrightarrow> same_header p r"
  by (simp add: same_header_def)

lemma same_header_payload [simp]: "same_header p (p\<lparr>pk_payload := b\<rparr>)" "same_header (p\<lparr>pk_payload := b\<rparr>) p"
  by (simp_all add: same_header_def)

lemma same_header_fields:
  assumes "same_header p q"
  shows "pk_sessionId q = pk_sessionId p" "pk_opcode q = pk_opcode p" "pk_status q = pk_status p"
    "pk_senderSvcId q = pk_senderSvcId p" "pk_recverSvcId q = pk_recverSvcId p"
    "pk_flags q = pk_flags p" "pk_extData1 q = pk_extData1 p" "pk_length q = pk_length p"
    "pk_acceptSessionId q = pk_acceptSessionId p"
  using assms unfolding same_header_def
  by (metis packet.select_convs packet.update_convs(12) packet.surjective)+

lemma pk_CheckAndCreatePayload_ok:
  assumes "pk_ok p"
  shows "mb_own (pk_CheckAndCreatePayload n p)" "mb_data (pk_CheckAndCreatePayload n p) = pk_data p"
  using assms by (auto simp: pk_ok_def pk_data_def pk_CheckAndCreatePayload_def split: option.splits)

lemma pk_Write_buf_data:
  assumes "pk_ok p" "length bs \<ge> n"
  shows "\<exists>p'. pk_Write_buf (Some bs) n p = Ok (True, p') \<and> pk_ok p' \<and> pk_data p' = pk_data p @ take n bs
     \<and> same_header p p'"
proof -
  let ?b = "pk_CheckAndCreatePayload n p" and ?bs = "take n bs"
  have n: "length ?bs = n" using assms(2) by simp
  have "mb_Write (Some bs) n ?b = mb_Write (Some ?bs) (length ?bs) ?b"
    unfolding n by (simp add: mb_Write_def)
  then obtain b' where "mb_Write (Some bs) n ?b = Ok (Inr b')" "mb_own b'" "mb_data b' = pk_data p @ ?bs"
    using mb_Write_data [OF pk_CheckAndCreatePayload_ok(1) [OF assms(1), of n], of ?bs]
      pk_CheckAndCreatePayload_ok(2) [OF assms(1), of n] by auto
  then show ?thesis by (auto simp: pk_Write_buf_def pk_ok_def pk_data_def)
qed

lemma pk_Read_buf_data:
  assumes "pk_ok p" "pk_data p = bs @ rest" "bs @ rest \<noteq> []"
  shows "\<exists>p'. pk_Read_buf True (length bs) p = (Some bs, p') \<and> pk_ok p' \<and> pk_data p' = rest \<and> same_header p p'"
proof -
  obtain b where b: "pk_payload p = Some b" "mb_own b" "mb_data b = bs @ rest"
    using assms by (auto simp: pk_ok_def pk_data_def split: option.splits)
  then show ?thesis
    using mb_Read_data [OF b(2), of "length bs"] by (auto simp: pk_Read_buf_def pk_ok_def pk_data_def)
qed

lemma pk_Read_buf_short:
  assumes "pk_ok p" "length (pk_data p) < n"
  shows "pk_Read_buf True n p = (None, p)"
proof (cases "pk_payload p")
  case (Some b)
  then show ?thesis
    using assms length_mb_data [of b] by (simp add: pk_Read_buf_def pk_ok_def pk_data_def mb_Read_def mb_own_def)
qed (simp add: pk_Read_buf_def)

text \<open>What the templates do, given what the stream reader and writer do.\<close>

lemma pk_Write_obj_data:
  assumes "pk_ok p" "wr Stream_new = Ok s" "st_own s" "st_written s = bs"
  shows "\<exists>p'. pk_Write_obj wr p = Ok (True, p') \<and> pk_ok p' \<and> pk_data p' = pk_data p @ bs \<and> same_header p p'"
proof (cases "st_cap s = 0")
  case True
  then have "bs = []" "st_pos s = 0" using assms by (auto simp: st_defs)
  then show ?thesis
    using True assms(1,2) pk_CheckAndCreatePayload_ok [OF assms(1), of 0]
    by (simp add: pk_Write_obj_def pk_Write_stream_def pk_Write_buf_def mb_Write_def pk_ok_def pk_data_def)
next
  case False
  have "st_pos s \<le> length (st_buf s)" "take (st_pos s) (st_buf s) = bs"
    using assms(3,4) by (auto simp: st_defs)
  then show ?thesis
    using False assms(2) pk_Write_buf_data [OF assms(1), of "st_pos s" "st_buf s"]
    by (simp add: pk_Write_obj_def pk_Write_stream_def)
qed

lemma pk_Read_obj_data:
  assumes "pk_ok p" "pk_data p = bs @ rest" "bs \<noteq> []"
    "rd (st_reader (bs @ rest)) = Ok (Some v, s)" "st_pos s = length bs"
  shows "\<exists>p'. pk_Read_obj rd p = Ok (Some v, p') \<and> pk_ok p' \<and> pk_data p' = rest \<and> same_header p p'"
proof -
  obtain b where b: "pk_payload p = Some b" "mb_own b" "mb_data b = bs @ rest"
    using assms(1-3) by (auto simp: pk_ok_def pk_data_def split: option.splits)
  have "mb_readPos b + length bs \<le> mb_writePos b" "mb_writePos b \<le> mb_size b"
    using b(2,3) length_mb_data [of b] assms(3)
    by (auto simp: mb_defs mb_GetReadableSize_def split: if_splits)
  then have sh: "mb_ShiftReadPos (int (st_pos s)) b = Inr (b\<lparr>mb_readPos := mb_readPos b + length bs\<rparr>)"
    using assms(5) by (simp add: mb_ShiftReadPos_def nat_int_add)
  have "mb_own (b\<lparr>mb_readPos := mb_readPos b + length bs\<rparr>)
      \<and> mb_data (b\<lparr>mb_readPos := mb_readPos b + length bs\<rparr>) = rest"
    using mb_Read_data [OF b(2), of "length bs"] b(3) by (auto simp: mb_Read_def split: if_splits)
  then show ?thesis
    using b assms(4) sh by (simp add: pk_Read_obj_def st_reader_def pk_ok_def pk_data_def)
qed

section \<open>Types that can be sent\<close>

text \<open>
  The contract: a write appends the encoding, a read of an encoding gives the value back and
  leaves what follows. An encoding is never empty.
\<close>

locale packet_codec =
  fixes wr :: "'e \<Rightarrow> packet \<Rightarrow> (bool \<times> packet) outcome"
    and rd :: "packet \<Rightarrow> ('e option \<times> packet) outcome"
    and enc :: "'e \<Rightarrow> byte list"
    and fits :: "'e \<Rightarrow> bool"
  assumes wr_enc: "pk_ok p \<Longrightarrow> fits x \<Longrightarrow> \<exists>p'. wr x p = Ok (True, p') \<and> pk_ok p'
          \<and> pk_data p' = pk_data p @ enc x \<and> same_header p p'"
    and rd_enc: "pk_ok p \<Longrightarrow> fits x \<Longrightarrow> pk_data p = enc x @ rest \<Longrightarrow>
          \<exists>p'. rd p = Ok (Some x, p') \<and> pk_ok p' \<and> pk_data p' = rest \<and> same_header p p'"
begin

lemma wr_elems:
  "pk_ok p \<Longrightarrow> list_all fits xs \<Longrightarrow> \<exists>p'. pk_Write_elems wr xs p = Ok p' \<and> pk_ok p'
     \<and> pk_data p' = pk_data p @ concat (map enc xs) \<and> same_header p p'"
proof (induction xs arbitrary: p)
  case (Cons x xs)
  obtain p1 where p1: "wr x p = Ok (True, p1)" "pk_ok p1" "pk_data p1 = pk_data p @ enc x" "same_header p p1"
    using wr_enc [OF Cons.prems(1), of x] Cons.prems(2) by auto
  with Cons.IH [OF p1(2)] Cons.prems(2) show ?case
    by (auto intro: same_header_trans)
qed simp

lemma rd_elems:
  "pk_ok p \<Longrightarrow> list_all fits xs \<Longrightarrow> pk_data p = concat (map enc xs) @ rest \<Longrightarrow>
   \<exists>p'. pk_Read_elems rd ins (length xs) c p = Ok (True, fold ins xs c, p') \<and> pk_ok p'
     \<and> pk_data p' = rest \<and> same_header p p'"
proof (induction xs arbitrary: p c)
  case (Cons x xs)
  obtain p1 where p1: "rd p = Ok (Some x, p1)" "pk_ok p1" "pk_data p1 = concat (map enc xs) @ rest"
    "same_header p p1"
    using rd_enc [OF Cons.prems(1), of x "concat (map enc xs) @ rest"] Cons.prems by auto
  with Cons.IH [OF p1(2) _ p1(3)] Cons.prems(2) show ?case
    by (auto intro: same_header_trans)
qed simp

end

interpretation u32: packet_codec "pk_WriteRawType me" "pk_ReadRawType me" enc_u32 "\<lambda>_. host_order me" for me
proof (unfold_locales, goal_cases)
  case (1 p x)
  then show ?case
    using pk_Write_buf_data [OF 1(1), of 4 "rev (le_bytes x)"]
    by (simp add: pk_WriteRawType_def mem_bytes_Host2Net host_order_def enc_u32_def)
next
  case (2 p x rest)
  have eq: "enc_u32 x = mem_bytes me (LLBC_Host2Net me x)"
    using 2(2) by (simp add: enc_u32_def mem_bytes_Host2Net host_order_def)
  have "LLBC_Net2Host me (of_mem me (enc_u32 x)) = x"
    unfolding eq by (simp add: byte_order)
  then show ?case
    using pk_Read_buf_data [OF 2(1,3)] by (auto simp: pk_ReadRawType_def)
qed

interpretation str: packet_codec "pk_Write_string me" "pk_Read_string me" enc_string
    "\<lambda>bs. host_order me \<and> length bs + 2048 \<le> 2 ^ 32" for me
proof (unfold_locales, goal_cases)
  case (1 p bs)
  obtain s where "st_Write_string me bs Stream_new = Ok s" "st_own s" "st_written s = enc_string bs"
    using st_Write_string_ok [of Stream_new bs me] 1(2) by (auto simp: host_order_def)
  then show ?case unfolding pk_Write_string_def by (rule pk_Write_obj_data [OF 1(1)])
next
  case (2 p bs rest)
  have "bs \<noteq> [] \<Longrightarrow> length bs < 2 ^ 32" using 2(2) by simp
  then have "st_Read_string me (st_reader (enc_string bs @ rest)) =
      Ok (True, bs, (st_reader (enc_string bs @ rest))\<lparr>st_pos := length (enc_string bs)\<rparr>)"
    using st_Read_string_ok(1) [OF st_readable_reader, of bs me rest] 2(2)
    by (simp add: host_order_def st_reader_def st_Attach_buf_def Stream_new_def)
  then show ?case
    unfolding pk_Read_string_def
    by (intro pk_Read_obj_data [OF 2(1,3), where s = "(st_reader (enc_string bs @ rest))\<lparr>st_pos := length (enc_string bs)\<rparr>"]) simp_all
qed

lemma pb_codec:
  assumes "\<And>m. fits m \<Longrightarrow> parse (ser m) = Some m \<and> length (ser m) < 2 ^ 31" "host_order me"
  shows "packet_codec (pk_Write_pb ser me) (pk_Read_pb parse me) (\<lambda>m. enc_string (ser m)) fits"
proof (unfold_locales, goal_cases)
  case (1 p m)
  obtain s where "st_Write_pb ser me m Stream_new = Ok s" "st_own s" "st_written s = enc_string (ser m)"
    using st_Write_pb_ok [of Stream_new ser m me] assms(1) [OF 1(2)] assms(2) by (auto simp: host_order_def)
  then show ?case unfolding pk_Write_pb_def by (rule pk_Write_obj_data [OF 1(1)])
next
  case (2 p m rest)
  have "st_Read_pb parse me (st_reader (enc_string (ser m) @ rest)) =
      Ok (Some m, (st_reader (enc_string (ser m) @ rest))\<lparr>st_pos := length (enc_string (ser m))\<rparr>)"
    using st_Read_pb_ok [OF st_readable_reader, where bs = "ser m" and rest = rest and me = me and parse = parse] assms(1) [OF 2(2)] assms(2)
    by (simp add: host_order_def st_reader_def st_Attach_buf_def Stream_new_def)
  then show ?case
    unfolding pk_Read_pb_def
    by (intro pk_Read_obj_data [OF 2(1,3), where s = "(st_reader (enc_string (ser m) @ rest))\<lparr>st_pos := length (enc_string (ser m))\<rparr>"]) simp_all
qed

text \<open>A message that the parser rejects leaves the packet as it is.\<close>

lemma pk_Read_pb_bad:
  assumes "pk_ok p" "pk_data p = enc_string bs @ rest" "length bs < 2 ^ 31" "host_order me" "parse bs = None"
  shows "pk_Read_pb parse me p = Ok (None, p)"
proof -
  obtain b where b: "pk_payload p = Some b" "mb_data b = enc_string bs @ rest"
    using assms(1,2) by (auto simp: pk_ok_def pk_data_def enc_string_def enc_u32_def le_bytes_def split: option.splits)
  have "st_Read_pb parse me (st_reader (enc_string bs @ rest)) =
      Ok (None, (st_reader (enc_string bs @ rest))\<lparr>st_pos := st_pos (st_reader (enc_string bs @ rest)) + 4\<rparr>)"
    using st_Read_pb_ok [OF st_readable_reader, where bs = bs and rest = rest and me = me and parse = parse] assms(3-5)
    by (simp add: host_order_def)
  then show ?thesis using b by (simp add: pk_Read_pb_def pk_Read_obj_def st_reader_def)
qed

section \<open>Containers come back\<close>

definition enc_seq :: "('e \<Rightarrow> byte list) \<Rightarrow> 'e list \<Rightarrow> byte list" where
  "enc_seq enc xs = enc_u32 (of_nat (length xs)) @ concat (map enc xs)"

context packet_codec
begin

lemma wr_seq:
  assumes "pk_ok p" "list_all fits xs" "host_order me"
  shows "\<exists>p'. pk_Write_seq me wr xs p = Ok (True, p') \<and> pk_ok p'
     \<and> pk_data p' = pk_data p @ enc_seq enc xs \<and> same_header p p'"
proof -
  obtain p1 where p1: "pk_WriteRawType me (of_nat (length xs) :: 32 word) p = Ok (True, p1)" "pk_ok p1"
    "pk_data p1 = pk_data p @ enc_u32 (of_nat (length xs))" "same_header p p1"
    using u32.wr_enc [OF assms(1,3)] by blast
  with wr_elems [OF p1(2) assms(2)] show ?thesis
    by (auto simp: pk_Write_seq_def enc_seq_def intro: same_header_trans)
qed

lemma rd_container:
  assumes "pk_ok p" "list_all fits xs" "host_order me" "length xs < 2 ^ 32" "pk_data p = enc_seq enc xs @ rest"
  shows "\<exists>p'. pk_Read_container me rd ins c p = Ok (True, fold ins xs c, p') \<and> pk_ok p'
     \<and> pk_data p' = rest \<and> same_header p p'"
proof -
  have d: "pk_data p = enc_u32 (of_nat (length xs)) @ concat (map enc xs) @ rest"
    using assms(5) by (simp add: enc_seq_def)
  obtain p1 where p1: "pk_ReadRawType me p = Ok (Some (of_nat (length xs) :: 32 word), p1)" "pk_ok p1"
    "pk_data p1 = concat (map enc xs) @ rest" "same_header p p1"
    using u32.rd_enc [OF assms(1,3) d] by blast
  with rd_elems [OF p1(2) assms(2) p1(3), of ins c] show ?thesis
    by (auto simp: pk_Read_container_def unat_of_nat_32 [OF assms(4)] intro: same_header_trans)
qed

end

text \<open>Two codecs give one for the pair of their values, as the map templates use it.\<close>

locale entry_codec = k: packet_codec wrk rdk enck fitsk + v: packet_codec wrv rdv encv fitsv
  for wrk :: "'k \<Rightarrow> packet \<Rightarrow> (bool \<times> packet) outcome" and rdk enck fitsk
    and wrv :: "'v \<Rightarrow> packet \<Rightarrow> (bool \<times> packet) outcome" and rdv encv fitsv

sublocale entry_codec \<subseteq> entry: packet_codec "pk_Write_entry wrk wrv" "pk_Read_entry rdk rdv"
  "\<lambda>(x, y). enck x @ encv y" "\<lambda>(x, y). fitsk x \<and> fitsv y"
proof (unfold_locales, goal_cases)
  case (1 p e)
  then have f: "fitsk (fst e)" "fitsv (snd e)" by (auto split: prod.splits)
  obtain p1 where p1: "wrk (fst e) p = Ok (True, p1)" "pk_ok p1" "pk_data p1 = pk_data p @ enck (fst e)"
    "same_header p p1"
    using k.wr_enc [OF 1(1) f(1)] by blast
  with v.wr_enc [OF p1(2) f(2)] show ?case
    by (auto simp: pk_Write_entry_def split_beta intro: same_header_trans)
next
  case (2 p e rest)
  then have f: "fitsk (fst e)" "fitsv (snd e)" "pk_data p = enck (fst e) @ encv (snd e) @ rest"
    by (auto split: prod.splits)
  obtain p1 where p1: "rdk p = Ok (Some (fst e), p1)" "pk_ok p1" "pk_data p1 = encv (snd e) @ rest"
    "same_header p p1"
    using k.rd_enc [OF 2(1) f(1,3)] by blast
  with v.rd_enc [OF p1(2) f(2) p1(3)] show ?case
    by (auto simp: pk_Read_entry_def intro: same_header_trans)
qed

interpretation str_u32: entry_codec "pk_Write_string me" "pk_Read_string me" enc_string
  "\<lambda>bs. host_order me \<and> length bs + 2048 \<le> 2 ^ 32"
  "pk_WriteRawType me" "pk_ReadRawType me" enc_u32 "\<lambda>_. host_order me" for me
  by unfold_locales

lemma fold_snoc: "fold (\<lambda>e c. c @ [e]) xs ys = ys @ xs"
  by (induction xs arbitrary: ys) auto

lemma fold_map_insert:
  "distinct (map fst es) \<Longrightarrow> set (map fst es) \<inter> dom m = {} \<Longrightarrow>
   fold (\<lambda>(k, v) m. case m k of None \<Rightarrow> m(k \<mapsto> v) | Some _ \<Rightarrow> m) es m = m ++ map_of es"
proof (induction es arbitrary: m)
  case (Cons e es)
  obtain k v where e: "e = (k, v)" by (cases e)
  have none: "m k = None" using Cons.prems e by auto
  have "set (map fst es) \<inter> dom (m(k \<mapsto> v)) = {}" using Cons.prems e by auto
  then have "fold (\<lambda>(k, v) m. case m k of None \<Rightarrow> m(k \<mapsto> v) | Some _ \<Rightarrow> m) es (m(k \<mapsto> v))
      = m(k \<mapsto> v) ++ map_of es"
    using Cons.IH Cons.prems(1) by simp
  also have "\<dots> = m ++ map_of (e # es)"
    using Cons.prems(1) e by (auto simp: map_add_def fun_eq_iff split: option.splits)
      (metis fst_conv image_eqI map_of_SomeD)
  finally show ?case using none unfolding e fold_simps(2) by (simp only: prod.case option.case)
qed simp

text \<open>C27: a vector of strings and a map from strings to 32-bit integers, written into an empty
packet, are read back by the receiver as the same vector and the same map, with nothing left over,
whatever the byte orders of the two hosts and whatever the distinct keys.\<close>

theorem packet_container_roundtrip:
  assumes "pk_ok p" "pk_data p = []" "host_order wme" "host_order rme"
    "\<forall>bs \<in> set xs. length bs + 2048 \<le> 2 ^ 32" "length xs < 2 ^ 32"
    "\<forall>e \<in> set es. length (fst e) + 2048 \<le> 2 ^ 32" "length es < 2 ^ 32" "distinct (map fst es)"
  shows "\<exists>p1 p2 p3 p4. pk_Write_seq wme (pk_Write_string wme) xs p = Ok (True, p1)
     \<and> pk_Write_map wme (pk_Write_string wme) (pk_WriteRawType wme) (es :: (byte list \<times> 32 word) list) p1 = Ok (True, p2)
     \<and> pk_Read_seq rme (pk_Read_string rme) [] p2 = Ok (True, xs, p3)
     \<and> pk_Read_map rme (pk_Read_string rme) (pk_ReadRawType rme) Map.empty p3 = Ok (True, map_of es, p4)
     \<and> pk_data p4 = [] \<and> same_header p p4"
proof -
  let ?e = "\<lambda>(x, y). enc_string x @ enc_u32 y"
  have fx: "list_all (\<lambda>bs. host_order me \<and> length bs + 2048 \<le> 2 ^ 32) xs" if "host_order me" for me
    using assms(5) that by (simp add: list_all_iff)
  have fe: "list_all (\<lambda>(x, y). (host_order me \<and> length x + 2048 \<le> 2 ^ 32) \<and> host_order me) es"
    if "host_order me" for me
    using assms(7) that by (auto simp: list_all_iff)
  obtain p1 where p1: "pk_Write_seq wme (pk_Write_string wme) xs p = Ok (True, p1)" "pk_ok p1"
    "pk_data p1 = enc_seq enc_string xs" "same_header p p1"
    using str.wr_seq [OF assms(1) fx [OF assms(3)] assms(3)] assms(2) by auto
  obtain p2 where p2: "pk_Write_map wme (pk_Write_string wme) (pk_WriteRawType wme) es p1 = Ok (True, p2)"
    "pk_ok p2" "pk_data p2 = enc_seq enc_string xs @ enc_seq ?e es" "same_header p1 p2"
    using str_u32.entry.wr_seq [OF p1(2) fe [OF assms(3)] assms(3)] p1(3)
    by (auto simp: pk_Write_map_def)
  obtain p3 where p3: "pk_Read_seq rme (pk_Read_string rme) [] p2 = Ok (True, xs, p3)"
    "pk_ok p3" "pk_data p3 = enc_seq ?e es" "same_header p2 p3"
    using str.rd_container [OF p2(2) fx [OF assms(4)] assms(4,6) p2(3), of "\<lambda>e c. c @ [e]" "[]"]
    by (auto simp: pk_Read_seq_def fold_snoc)
  have p3': "pk_data p3 = enc_seq ?e es @ []" using p3(3) by simp
  obtain p4 where "pk_Read_map rme (pk_Read_string rme) (pk_ReadRawType rme) Map.empty p3 = Ok (True, map_of es, p4)"
    "pk_data p4 = []" "same_header p3 p4"
    using str_u32.entry.rd_container [OF p3(2) fe [OF assms(4)] assms(4,8) p3',
        of "\<lambda>(k, v) m. case m k of None \<Rightarrow> m(k \<mapsto> v) | Some _ \<Rightarrow> m" Map.empty] assms(9)
    by (auto simp: pk_Read_map_def fold_map_insert)
  moreover have "same_header p p4"
    using p1(4) p2(4) p3(4) calculation(3) by (blast intro: same_header_trans)
  ultimately show ?thesis using p1(1) p2(1) p3(1) by blast
qed

theorem packet_container_roundtrip_witness:
  "\<exists>p1 p2 p3 p4. pk_Write_seq 1 (pk_Write_string 1) [[104, 105], []] (Packet_new None) = Ok (True, p1)
     \<and> pk_Write_map 1 (pk_Write_string 1) (pk_WriteRawType 1) [([97], 7 :: 32 word), ([98], 9)] p1 = Ok (True, p2)
     \<and> pk_Read_seq 0 (pk_Read_string 0) [] p2 = Ok (True, [[104, 105], []], p3)
     \<and> pk_Read_map 0 (pk_Read_string 0) (pk_ReadRawType 0) Map.empty p3
         = Ok (True, map_of [([97], 7 :: 32 word), ([98], 9)], p4)
     \<and> pk_data p4 = [] \<and> same_header (Packet_new None) p4"
  using packet_container_roundtrip [of "Packet_new None" 1 0 "[[104, 105], []]"
      "[([97], 7 :: 32 word), ([98], 9)]"]
  by (simp add: host_order_def LittleEndian_def BigEndian_def)

end
