(* ===== verification/Service.thy ===== *)
theory Service
  imports Packet
begin

text \<open>
  The part of \<open>LLBC_ServiceImpl\<close> (llbc/comm/ServiceImpl.cpp) that the RPC code stands on: the table
  of ready sessions, the opcode handlers, sending, and the dispatch of the queued events.

  The service has the full-stack option (the default), so packets are handed to the poller manager as
  they are. The poller manager is the environment: \<open>sv_connect\<close> lists the session ids that it will
  return from \<open>Listen\<close> and \<open>Connect\<close> (0 for a failure), \<open>sv_sent\<close> the packets it was given and
  \<open>sv_closed\<close> the sessions it was told to close. A handler is a value of type \<open>'h\<close>, which the
  subscriber interprets. Locks are left out: the RPC processes call the service from one thread.
\<close>

datatype svc_event =
    SessionCreate int bool    \<comment> \<open>session id, is it a listening session\<close>
  | SessionDestroy int
  | DataArrival packet

record 'h service =
  sv_id :: "32 word"
  sv_started :: bool
  sv_ready :: "int \<rightharpoonup> bool"
  sv_handlers :: "32 word \<rightharpoonup> 'h"
  sv_events :: "svc_event list"
  sv_connect :: "int list"
  sv_sent :: "packet list"
  sv_closed :: "int list"

definition Service_Create :: "32 word \<Rightarrow> int list \<Rightarrow> 'h service" where
  "Service_Create svcId results = \<lparr>sv_id = svcId, sv_started = False, sv_ready = Map.empty, sv_handlers = Map.empty,
     sv_events = [], sv_connect = results, sv_sent = [], sv_closed = []\<rparr>"

definition AddReadySession :: "int \<Rightarrow> bool \<Rightarrow> 'h service \<Rightarrow> 'h service" where
  "AddReadySession sessionId isListen s =
     (case sv_ready s sessionId of Some _ \<Rightarrow> s | None \<Rightarrow> s\<lparr>sv_ready := (sv_ready s)(sessionId \<mapsto> isListen)\<rparr>)"

definition RemoveReadySession :: "int \<Rightarrow> 'h service \<Rightarrow> 'h service" where
  "RemoveReadySession sessionId s =
     (case sv_ready s sessionId of None \<Rightarrow> s | Some _ \<Rightarrow> s\<lparr>sv_ready := (sv_ready s)(sessionId := None)\<rparr>)"

text \<open>The next session id that the poller manager returns.\<close>

definition poller_result :: "'h service \<Rightarrow> int \<times> 'h service" where
  "poller_result s = (case sv_connect s of [] \<Rightarrow> (0, s) | i # is \<Rightarrow> (i, s\<lparr>sv_connect := is\<rparr>))"

definition sv_Listen :: "'h service \<Rightarrow> int \<times> 'h service" where
  "sv_Listen s = (let (sessionId, s1) = poller_result s
     in (sessionId, if sessionId \<noteq> 0 then AddReadySession sessionId True s1 else s1))"

definition sv_Connect :: "'h service \<Rightarrow> int \<times> 'h service" where
  "sv_Connect s = (let (sessionId, s1) = poller_result s
     in (sessionId, if sessionId \<noteq> 0 then AddReadySession sessionId False s1 else s1))"

definition IsSessionValidate :: "int \<Rightarrow> 'h service \<Rightarrow> bool" where
  "IsSessionValidate sessionId s \<longleftrightarrow> sessionId \<noteq> 0 \<and> sv_ready s sessionId \<noteq> None"

text \<open>\<open>LockableSend\<close> with \<open>validCheck\<close>, as \<open>Send\<close> calls it. The result is the error, if any.\<close>

definition LockableSend :: "packet \<Rightarrow> 'h service \<Rightarrow> llbc_error option \<times> 'h service" where
  "LockableSend packet s =
     (if \<not> sv_started s then (Some ERROR_NOT_INIT, s)
      else (case sv_ready s (pk_sessionId packet) of
          None \<Rightarrow> (Some ERROR_NOT_FOUND, s)
        | Some True \<Rightarrow> (Some ERROR_IS_LISTEN_SOCKET, s)
        | Some False \<Rightarrow> (None, s\<lparr>sv_sent := sv_sent s @ [packet\<lparr>pk_senderSvcId := sv_id s\<rparr>]\<rparr>)))"

definition sv_Send :: "packet \<Rightarrow> 'h service \<Rightarrow> llbc_error option \<times> 'h service" where
  "sv_Send packet s = LockableSend packet s"

definition sv_RemoveSession :: "int \<Rightarrow> 'h service \<Rightarrow> llbc_error option \<times> 'h service" where
  "sv_RemoveSession sessionId s =
     (if \<not> sv_started s then (Some ERROR_NOT_INIT, s)
      else (case sv_ready s sessionId of None \<Rightarrow> (Some ERROR_NOT_FOUND, s)
        | Some _ \<Rightarrow> (None, s\<lparr>sv_closed := sv_closed s @ [sessionId], sv_ready := (sv_ready s)(sessionId := None)\<rparr>)))"

definition sv_Subscribe :: "32 word \<Rightarrow> 'h \<Rightarrow> 'h service \<Rightarrow> llbc_error option \<times> 'h service" where
  "sv_Subscribe opcode deleg s =
     (if sv_started s then (Some ERROR_INITED, s)
      else (case sv_handlers s opcode of Some _ \<Rightarrow> (Some ERROR_REPEAT, s)
        | None \<Rightarrow> (None, s\<lparr>sv_handlers := (sv_handlers s)(opcode \<mapsto> deleg)\<rparr>)))"

text \<open>
  \<open>HandleEv_DataArrival\<close>: what becomes of a packet. It is dropped when its session is gone, passed
  on when it is for another service, given to the handler of its opcode, or reported as unhandled.
  No status handlers and no pre-handlers are subscribed by the RPC code.
\<close>

datatype 'h arrival = Dropped | PassedOn packet | Handled 'h packet | UnHandled packet

definition HandleEv_DataArrival :: "packet \<Rightarrow> 'h service \<Rightarrow> 'h arrival" where
  "HandleEv_DataArrival packet s =
     (case sv_ready s (pk_sessionId packet) of None \<Rightarrow> Dropped
      | Some _ \<Rightarrow>
          if pk_recverSvcId packet \<noteq> 0 \<and> pk_recverSvcId packet \<noteq> sv_id s then PassedOn packet
          else let packet1 = packet\<lparr>pk_recverSvcId := sv_id s\<rparr>
               in (case sv_handlers s (pk_opcode packet1) of None \<Rightarrow> UnHandled packet1
                   | Some h \<Rightarrow> Handled h packet1))"

text \<open>A packet goes out only on a connected session, and unchanged but for its sender.\<close>

lemma sv_Send_ok:
  assumes "sv_started s" "sv_ready s (pk_sessionId p) = Some False"
  shows "sv_Send p s = (None, s\<lparr>sv_sent := sv_sent s @ [p\<lparr>pk_senderSvcId := sv_id s\<rparr>]\<rparr>)"
  using assms by (simp add: sv_Send_def LockableSend_def)

lemma sv_Send_fields [simp]:
  "sv_started (snd (sv_Send p s)) = sv_started s" "sv_ready (snd (sv_Send p s)) = sv_ready s"
  "sv_handlers (snd (sv_Send p s)) = sv_handlers s" "sv_id (snd (sv_Send p s)) = sv_id s"
  by (auto simp: sv_Send_def LockableSend_def split: option.splits bool.splits)

lemma sv_Connect_Some:
  assumes "sv_Connect s = (sid, s')" "sid \<noteq> 0"
  shows "sv_ready s' sid \<noteq> None" "sv_started s' = sv_started s" "sv_handlers s' = sv_handlers s"
  using assms by (auto simp: sv_Connect_def poller_result_def AddReadySession_def Let_def split: list.splits option.splits prod.splits)

end
