(* ===== verification/Conn_Mgr.thy ===== *)
theory Conn_Mgr
  imports Service
begin

text \<open>
  The connection manager \<open>ConnMgr\<close> (rpc/src/conn_mgr.cpp, conn_mgr.h) and the callbacks of its
  component \<open>ConnComp\<close>. The tables \<open>addr2Channel_\<close> and \<open>session2Addr_\<close> are association lists. An
  \<open>RpcChannel\<close> never changes after its construction and is represented by its session id; \<open>None\<close> is
  the null channel. \<open>cm_svc = None\<close> is the null service pointer before \<open>Init\<close>.
\<close>

section \<open>Association lists\<close>

definition al_emplace :: "'k \<Rightarrow> 'v \<Rightarrow> ('k \<times> 'v) list \<Rightarrow> ('k \<times> 'v) list" where
  "al_emplace k v m = (case map_of m k of Some _ \<Rightarrow> m | None \<Rightarrow> m @ [(k, v)])"

definition al_erase :: "'k \<Rightarrow> ('k \<times> 'v) list \<Rightarrow> ('k \<times> 'v) list" where
  "al_erase k m = filter (\<lambda>e. fst e \<noteq> k) m"

lemma map_of_emplace: "map_of (al_emplace k v m) k' = (if k' = k \<and> map_of m k = None then Some v else map_of m k')"
  by (auto simp: al_emplace_def map_add_def split: option.splits)

lemma map_of_erase: "map_of (al_erase k m) k' = (if k' = k then None else map_of m k')"
  by (induction m) (auto simp: al_erase_def)

lemma distinct_al [simp]:
  "distinct (map fst m) \<Longrightarrow> distinct (map fst (al_emplace k v m))"
  "distinct (map fst m) \<Longrightarrow> distinct (map fst (al_erase k m))"
  by (auto simp: al_emplace_def al_erase_def map_of_eq_None_iff distinct_map_filter split: option.splits)

section \<open>The manager\<close>

text \<open>\<open>std::to_string\<close> of an \<open>int\<close>.\<close>

fun nat_digits :: "nat \<Rightarrow> byte list" where
  "nat_digits n = (if n < 10 then [48 + of_nat n] else nat_digits (n div 10) @ [48 + of_nat (n mod 10)])"

declare nat_digits.simps [simp del]

definition to_string :: "int \<Rightarrow> byte list" where
  "to_string i = (if i < 0 then 45 # nat_digits (nat (- i)) else nat_digits (nat i))"

definition addr_of :: "byte list \<Rightarrow> int \<Rightarrow> byte list" where
  "addr_of ip port = ip @ [58] @ to_string port"

record 'h conn_mgr =
  cm_isServer :: bool
  cm_svc :: "'h service option"
  cm_serverSessionId :: int
  cm_addr2Channel :: "(byte list \<times> int) list"
  cm_session2Addr :: "(int \<times> byte list) list"

definition ConnMgr_new :: "'h conn_mgr" where
  "ConnMgr_new = \<lparr>cm_isServer = False, cm_svc = None, cm_serverSessionId = 0, cm_addr2Channel = [], cm_session2Addr = []\<rparr>"

text \<open>\<open>Init\<close> creates the service; its id and the poller's answers are those of the environment.\<close>

definition cm_Init :: "32 word \<Rightarrow> int list \<Rightarrow> 'h conn_mgr \<Rightarrow> 'h conn_mgr" where
  "cm_Init svcId results c = c\<lparr>cm_svc := Some (Service_Create svcId results)\<rparr>"

text \<open>\<open>Start\<close>: the service reports whether it could start.\<close>

definition cm_Start :: "llbc_error option \<Rightarrow> 'h conn_mgr \<Rightarrow> (llbc_error option \<times> 'h conn_mgr) outcome" where
  "cm_Start ret c = (case cm_svc c of None \<Rightarrow> Fault NullDeref
     | Some s \<Rightarrow> Ok (ret, if ret = None then c\<lparr>cm_svc := Some (s\<lparr>sv_started := True\<rparr>)\<rparr> else c))"

text \<open>The session id of the listening socket goes into a local variable that hides the member.\<close>

definition cm_StartRpcService :: "'h conn_mgr \<Rightarrow> (bool \<times> 'h conn_mgr) outcome" where
  "cm_StartRpcService c = (case cm_svc c of None \<Rightarrow> Fault NullDeref
     | Some s \<Rightarrow> let (serverSessionId, s1) = sv_Listen s; c1 = c\<lparr>cm_svc := Some s1\<rparr>
         in Ok (if serverSessionId = 0 then (False, c1) else (True, c1\<lparr>cm_isServer := True\<rparr>)))"

definition cm_GetRpcChannel :: "byte list \<Rightarrow> int \<Rightarrow> 'h conn_mgr \<Rightarrow> (int option \<times> 'h conn_mgr) outcome" where
  "cm_GetRpcChannel ip port c =
     (let addr = addr_of ip port in
      case map_of (cm_addr2Channel c) addr of Some channel \<Rightarrow> Ok (Some channel, c)
      | None \<Rightarrow> (case cm_svc c of None \<Rightarrow> Fault NullDeref
          | Some s \<Rightarrow> let (sessionId, s1) = sv_Connect s; c1 = c\<lparr>cm_svc := Some s1\<rparr>
              in Ok (if sessionId = 0 then (None, c1)
                     else (Some sessionId, c1\<lparr>cm_session2Addr := al_emplace sessionId addr (cm_session2Addr c1),
                            cm_addr2Channel := al_emplace addr sessionId (cm_addr2Channel c1)\<rparr>))))"

definition cm_CloseSession :: "int \<Rightarrow> 'h conn_mgr \<Rightarrow> (bool \<times> 'h conn_mgr) outcome" where
  "cm_CloseSession sessionId c = (case map_of (cm_session2Addr c) sessionId of None \<Rightarrow> Ok (False, c)
     | Some addr \<Rightarrow> let c1 = c\<lparr>cm_addr2Channel := al_erase addr (cm_addr2Channel c),
                                  cm_session2Addr := al_erase sessionId (cm_session2Addr c)\<rparr>
         in (case cm_svc c1 of None \<Rightarrow> Fault NullDeref
             | Some s \<Rightarrow> let (ret, s1) = sv_RemoveSession sessionId s in Ok (ret = None, c1\<lparr>cm_svc := Some s1\<rparr>)))"

text \<open>The destructor closes the sessions while it iterates over the table; \<open>CloseSession\<close> erases
the entry that the iterator points to, and the next increment follows a freed node.\<close>

definition ConnMgr_delete :: "'h conn_mgr \<Rightarrow> 'h conn_mgr outcome" where
  "ConnMgr_delete c = (case cm_session2Addr c of [] \<Rightarrow> Ok c
     | e # _ \<Rightarrow> obind (cm_CloseSession (fst e) c) (\<lambda>_. Fault UseAfterFree))"

definition cm_PushPacket :: "packet \<Rightarrow> 'h conn_mgr \<Rightarrow> (llbc_error option \<times> 'h conn_mgr) outcome" where
  "cm_PushPacket sendPacket c = (case cm_svc c of None \<Rightarrow> Fault NullDeref
     | Some s \<Rightarrow> let (ret, s1) = sv_Send sendPacket s in Ok (ret, c\<lparr>cm_svc := Some s1\<rparr>))"

definition cm_Subscribe :: "32 word \<Rightarrow> 'h \<Rightarrow> 'h conn_mgr \<Rightarrow> (bool \<times> 'h conn_mgr) outcome" where
  "cm_Subscribe cmdId deleg c = (case cm_svc c of None \<Rightarrow> Fault NullDeref
     | Some s \<Rightarrow> let (ret, s1) = sv_Subscribe cmdId deleg s in Ok (ret = None, c\<lparr>cm_svc := Some s1\<rparr>))"

definition cm_Unsubscribe :: "32 word \<Rightarrow> 'h conn_mgr \<Rightarrow> 'h conn_mgr" where
  "cm_Unsubscribe cmdId c = c"

text \<open>\<open>ConnComp\<close>: of its event callbacks only this one does more than log.\<close>

definition OnSessionDestroy :: "int \<Rightarrow> 'h conn_mgr \<Rightarrow> 'h conn_mgr outcome" where
  "OnSessionDestroy sessionId c = obind (cm_CloseSession sessionId c) (\<lambda>(_, c1). Ok c1)"

section \<open>Invariant\<close>

text \<open>The two tables are inverse to each other.\<close>

definition cm_inv :: "'h conn_mgr \<Rightarrow> bool" where
  "cm_inv c \<longleftrightarrow> distinct (map fst (cm_addr2Channel c)) \<and> distinct (map fst (cm_session2Addr c))
     \<and> (\<forall>a i. map_of (cm_addr2Channel c) a = Some i \<longleftrightarrow> map_of (cm_session2Addr c) i = Some a)"

lemma cm_inv_new: "cm_inv ConnMgr_new"
  by (simp add: cm_inv_def ConnMgr_new_def)

text \<open>The poller manager never hands out the id of a session that is still in the table.\<close>

definition fresh_result :: "'h conn_mgr \<Rightarrow> bool" where
  "fresh_result c \<longleftrightarrow> (case cm_svc c of None \<Rightarrow> True
     | Some s \<Rightarrow> map_of (cm_session2Addr c) (fst (poller_result s)) = None)"

lemma GetRpcChannel_known:
  "map_of (cm_addr2Channel c) (addr_of ip port) = Some i \<Longrightarrow> cm_GetRpcChannel ip port c = Ok (Some i, c)"
  by (simp add: cm_GetRpcChannel_def)

lemma GetRpcChannel_inv:
  assumes inv: "cm_inv c" and fresh: "fresh_result c" and get: "cm_GetRpcChannel ip port c = Ok (ch, c')"
  shows "cm_inv c'" "ch = Some i \<Longrightarrow> map_of (cm_addr2Channel c') (addr_of ip port) = Some i"
proof -
  let ?a = "addr_of ip port"
  have "cm_inv c' \<and> (\<forall>i. ch = Some i \<longrightarrow> map_of (cm_addr2Channel c') ?a = Some i)"
  proof (cases "map_of (cm_addr2Channel c) ?a")
    case (Some j)
    then show ?thesis using get inv by (auto simp: cm_GetRpcChannel_def Let_def)
  next
    case None
    obtain s where s: "cm_svc c = Some s" using get None by (auto simp: cm_GetRpcChannel_def Let_def split: option.splits)
    obtain j s1 where j: "sv_Connect s = (j, s1)" by (cases "sv_Connect s")
    have "j = fst (poller_result s)" using j by (auto simp: sv_Connect_def Let_def split: prod.splits)
    then have free: "map_of (cm_session2Addr c) j = None" using fresh s by (simp add: fresh_result_def)
    show ?thesis
    proof (cases "j = 0")
      case True
      then show ?thesis using get None s j inv by (auto simp: cm_GetRpcChannel_def cm_inv_def Let_def)
    next
      case False
      then have c': "ch = Some j" "c' = c\<lparr>cm_svc := Some s1, cm_session2Addr := al_emplace j ?a (cm_session2Addr c),
          cm_addr2Channel := al_emplace ?a j (cm_addr2Channel c)\<rparr>"
        using get None s j by (auto simp: cm_GetRpcChannel_def Let_def)
      then show ?thesis
        using inv None free by (auto simp: cm_inv_def map_of_emplace split: if_splits)
    qed
  qed
  then show "cm_inv c'" "ch = Some i \<Longrightarrow> map_of (cm_addr2Channel c') ?a = Some i" by blast+
qed

lemma CloseSession_inv:
  assumes inv: "cm_inv c" and svc: "cm_svc c = Some s"
  shows "\<exists>ok c'. cm_CloseSession i c = Ok (ok, c') \<and> cm_inv c' \<and> map_of (cm_session2Addr c') i = None
     \<and> (\<forall>a. map_of (cm_addr2Channel c') a = (if map_of (cm_addr2Channel c) a = Some i then None else map_of (cm_addr2Channel c) a))
     \<and> (ok \<longrightarrow> (\<exists>s'. cm_svc c' = Some s' \<and> sv_closed s' = sv_closed s @ [i] \<and> sv_ready s' i = None))"
proof (cases "map_of (cm_session2Addr c) i")
  case None
  then have "map_of (cm_addr2Channel c) a \<noteq> Some i" for a using inv by (simp add: cm_inv_def)
  then show ?thesis using inv None by (intro exI [of _ False] exI [of _ c]) (simp add: cm_CloseSession_def)
next
  case (Some a)
  obtain ret s1 where r: "sv_RemoveSession i s = (ret, s1)" by (cases "sv_RemoveSession i s")
  let ?c = "c\<lparr>cm_addr2Channel := al_erase a (cm_addr2Channel c), cm_session2Addr := al_erase i (cm_session2Addr c), cm_svc := Some s1\<rparr>"
  have "cm_CloseSession i c = Ok (ret = None, ?c)" using Some svc r by (simp add: cm_CloseSession_def)
  moreover have iff: "map_of (cm_addr2Channel c) b = Some j \<longleftrightarrow> map_of (cm_session2Addr c) j = Some b" for b j
    using inv by (simp add: cm_inv_def)
  then have "map_of (cm_addr2Channel ?c) b = Some j \<longleftrightarrow> map_of (cm_session2Addr ?c) j = Some b" for b j
  proof -
    have a: "map_of (cm_addr2Channel c) a = Some i" using iff Some by blast
    have "b \<noteq> a \<Longrightarrow> j = i \<Longrightarrow> map_of (cm_addr2Channel c) b \<noteq> Some i" using iff [of b i] Some by simp
    moreover have "b = a \<Longrightarrow> j \<noteq> i \<Longrightarrow> map_of (cm_session2Addr c) j \<noteq> Some a" using iff [of a j] a by simp
    ultimately show ?thesis using iff [of b j] by (cases "b = a"; cases "j = i") (simp_all add: map_of_erase)
  qed
  then have "cm_inv ?c" using inv by (simp add: cm_inv_def)
  moreover have "ret = None \<longrightarrow> sv_closed s1 = sv_closed s @ [i] \<and> sv_ready s1 i = None"
    using r by (auto simp: sv_RemoveSession_def split: option.splits if_splits)
  ultimately show ?thesis using iff Some by (auto simp: map_of_erase)
qed

section \<open>Properties\<close>

text \<open>C26: the channel table of the connection manager. When the poller hands out fresh session
ids, \<open>GetRpcChannel\<close> keeps the tables inverse to each other, and a channel once obtained for an
address is returned again for it, without a second connection, until its session is closed; closing
a session forgets the channel of exactly that session, and tells the service to remove the session.\<close>

theorem conn_mgr_channels:
  assumes "cm_inv c" "fresh_result c" "cm_GetRpcChannel ip port c = Ok (Some i, c1)" "cm_svc c1 = Some s"
  shows "cm_inv c1 \<and> cm_GetRpcChannel ip port c1 = Ok (Some i, c1)
     \<and> (\<exists>ok c2. cm_CloseSession i c1 = Ok (ok, c2) \<and> cm_inv c2
          \<and> map_of (cm_addr2Channel c2) (addr_of ip port) = None
          \<and> (\<forall>a. a \<noteq> addr_of ip port \<longrightarrow> map_of (cm_addr2Channel c2) a = map_of (cm_addr2Channel c1) a)
          \<and> (ok \<longrightarrow> (\<exists>s'. cm_svc c2 = Some s' \<and> sv_closed s' = sv_closed s @ [i])))"
proof -
  note inv1 = GetRpcChannel_inv [OF assms(1-3)]
  then have a: "map_of (cm_addr2Channel c1) (addr_of ip port) = Some i" by simp
  obtain ok c2 where c2: "cm_CloseSession i c1 = Ok (ok, c2)" "cm_inv c2"
    "\<And>a. map_of (cm_addr2Channel c2) a = (if map_of (cm_addr2Channel c1) a = Some i then None else map_of (cm_addr2Channel c1) a)"
    "ok \<longrightarrow> (\<exists>s'. cm_svc c2 = Some s' \<and> sv_closed s' = sv_closed s @ [i] \<and> sv_ready s' i = None)"
    using CloseSession_inv [OF inv1(1) assms(4)] by blast
  have inj: "a' = addr_of ip port" if "map_of (cm_addr2Channel c1) a' = Some i" for a'
    using that a inv1(1) by (simp add: cm_inv_def)
  have "map_of (cm_addr2Channel c2) (addr_of ip port) = None" using c2(3) a by simp
  moreover have "map_of (cm_addr2Channel c2) b = map_of (cm_addr2Channel c1) b" if "b \<noteq> addr_of ip port" for b
    using c2(3) inj that by metis
  ultimately show ?thesis using inv1(1) GetRpcChannel_known [OF a] c2(1,2,4) by blast
qed

definition demo_conn :: "nat conn_mgr" where
  "demo_conn = (cm_Init 1 [5] ConnMgr_new)"

theorem conn_mgr_channels_witness:
  "\<exists>c1. cm_GetRpcChannel [104] 80 demo_conn = Ok (Some 5, c1) \<and> cm_GetRpcChannel [104] 80 c1 = Ok (Some 5, c1)"
proof -
  have inv: "cm_inv demo_conn" "fresh_result demo_conn"
    by (simp_all add: demo_conn_def cm_Init_def cm_inv_def ConnMgr_new_def fresh_result_def)
  obtain c1 s where c1: "cm_GetRpcChannel [104] 80 demo_conn = Ok (Some 5, c1)" "cm_svc c1 = Some s"
    by (simp add: demo_conn_def cm_Init_def ConnMgr_new_def Service_Create_def cm_GetRpcChannel_def sv_Connect_def
        poller_result_def AddReadySession_def Let_def)
  show ?thesis using conn_mgr_channels [OF inv c1] c1 by blast
qed

end
