(* ===== verification/Coroutine.thy ===== *)
theory Coroutine
  imports Timer Conn_Mgr
begin

text \<open>
  Coroutines: the switching core of libco (libco/co_routine.cpp: \<open>co_create\<close>, \<open>co_resume\<close>,
  \<open>co_yield_env\<close>, \<open>CoRoutineFunc\<close>) and the wrapper \<open>Coro\<close> with its manager \<open>RpcCoroMgr\<close>
  (rpc/src/rpc_coro_mgr.cpp).

  The code that runs on a coroutine's stack is a value of the type \<open>'g prog\<close>: the calls into the
  runtime that it makes, in order, each with a continuation for what it returns; \<open>'g\<close> is the type of
  the variables that the coroutines of a process share. A coroutine that is suspended inside
  \<open>Coro::Yield\<close> is the continuation of that call. \<open>co_yield\<close> always switches back to the routine below
  it on the call stack, so \<open>co_resume\<close> is a function: it runs the coroutine up to its next yield.

  The state \<open>'g world\<close> extends that of the timers by the libco routines, the \<open>Coro\<close> objects (a
  coroutine's address is also the address of its timer), the tables of the manager, and the
  connection manager. Addresses are not reused; an access to a deleted object is a fault.
  \<open>Coro_Resume\<close> has fuel for the nesting of resumptions inside the callbacks of a timer; a resumption
  never nests in a reachable state, so any positive fuel is enough.
\<close>

section \<open>Programs\<close>

text \<open>What \<open>LLBC_Variant\<close> values a caller passes along; the library itself stores only nil.\<close>

datatype variant = VNil | VInt int | VStr "byte list"

text \<open>The pointer \<open>ptrParam1\<close>: null, to a packet, or to a packet that has been recycled since.\<close>

datatype packet_ptr = PNull | PPacket packet | PDangling

record coro =
  co_id :: int
  co_inner :: "nat option"
  co_args :: nat
  co_passData :: variant
  co_param1 :: "64 word"
  co_param2 :: "64 word"
  co_ptrParam1 :: packet_ptr
  co_yielded :: bool
  co_timeouted :: bool
  co_cancelled :: bool
  co_yieldTimes :: nat
  co_resumeTimes :: nat
  co_opcode :: int

datatype 'g prog =
    Finish
  | Crash fault
  | NoFuel
  | Get "'g \<Rightarrow> 'g prog"                        \<comment> \<open>read the shared variables\<close>
  | Put 'g "'g prog"                           \<comment> \<open>write them\<close>
  | Info string "byte list list" "'g prog"     \<comment> \<open>LOG_INFO: format and string arguments\<close>
  | Push packet "'g prog"                      \<comment> \<open>ConnMgr::PushPacket\<close>
  | Channel "byte list" int "int option \<Rightarrow> 'g prog"   \<comment> \<open>ConnMgr::GetRpcChannel\<close>
  | CurCoro "nat option \<Rightarrow> 'g prog"            \<comment> \<open>RpcCoroMgr::GetCurCoro\<close>
  | Deref nat "coro \<Rightarrow> 'g prog"                \<comment> \<open>the members of a Coro\<close>
  | IsMain nat "bool \<Rightarrow> 'g prog"               \<comment> \<open>Coro::IsMainCoro\<close>
  | YieldOn nat int "llbc_error option \<Rightarrow> 'g prog"    \<comment> \<open>Coro::Yield with a timeout in microseconds\<close>

record 'g coroutine = coro +
  co_entry :: "nat \<Rightarrow> 'g prog"

text \<open>\<open>stCoRoutine_t\<close>: \<open>pfn\<close> is \<open>RpcCoroMgr::Entry\<close> and \<open>arg\<close> the address of the \<open>Coro\<close>;
\<open>in_spec0\<close> is the value in \<open>aSpec[0]\<close>; \<open>in_ctx\<close> is the saved context of a suspended routine.\<close>

record 'g routine =
  in_arg :: nat
  in_cStart :: bool
  in_cEnd :: bool
  in_cIsMain :: bool
  in_spec0 :: int
  in_ctx :: "(nat \<times> (llbc_error option \<Rightarrow> 'g prog)) option"

text \<open>The handlers that the RPC manager subscribes with the service.\<close>

datatype rpc_handler = OnRpcReq | OnRpcRsp

record 'g world = tstate +
  w_inner :: "nat \<rightharpoonup> 'g routine"
  w_stack :: "nat list"
  w_coro :: "nat \<rightharpoonup> 'g coroutine"
  w_coros :: "(int \<times> nat) list"
  w_recycle :: "(int \<times> nat) list"
  w_maxCoroId :: int
  w_globals :: 'g
  w_info :: "(string \<times> byte list list) list"
  w_conn :: "rpc_handler conn_mgr"

definition world_init :: "int \<Rightarrow> 'g \<Rightarrow> rpc_handler conn_mgr \<Rightarrow> 'g world" where
  "world_init now g conn = tstate.extend (ts_init now) \<lparr>w_inner = Map.empty, w_stack = [], w_coro = Map.empty,
     w_coros = [], w_recycle = [], w_maxCoroId = 0, w_globals = g, w_info = [], w_conn = conn\<rparr>"

section \<open>libco\<close>

definition new_routine :: "nat \<Rightarrow> bool \<Rightarrow> 'g routine" where
  "new_routine arg isMain = \<lparr>in_arg = arg, in_cStart = False, in_cEnd = False, in_cIsMain = isMain, in_spec0 = 0, in_ctx = None\<rparr>"

text \<open>\<open>co_init_curr_thread_env\<close>, if the thread has no environment yet, then \<open>co_create_env\<close>.\<close>

definition co_init_curr_thread_env :: "'g world \<Rightarrow> 'g world" where
  "co_init_curr_thread_env w = w\<lparr>w_inner := (w_inner w)(ts_next w \<mapsto> new_routine 0 True), w_stack := [ts_next w],
     ts_next := ts_next w + 1\<rparr>"

definition co_create :: "nat \<Rightarrow> 'g world \<Rightarrow> nat \<times> 'g world" where
  "co_create arg w = (let w1 = (if w_stack w = [] then co_init_curr_thread_env w else w); p = ts_next w1
     in (p, w1\<lparr>w_inner := (w_inner w1)(p \<mapsto> new_routine arg False), ts_next := p + 1\<rparr>))"

definition co_self :: "'g world \<Rightarrow> nat option" where
  "co_self w = (case w_stack w of [] \<Rightarrow> None | p # _ \<Rightarrow> Some p)"

definition routine_at :: "nat \<Rightarrow> 'g world \<Rightarrow> 'g routine outcome" where
  "routine_at p w = (case w_inner w p of None \<Rightarrow> Fault UseAfterFree | Some i \<Rightarrow> Ok i)"

definition co_yield_ct :: "'g world \<Rightarrow> 'g world outcome" where
  "co_yield_ct w = (case w_stack w of
       cur # prev # rest \<Rightarrow> Ok (w\<lparr>w_stack := prev # rest\<rparr>)
     | _ \<Rightarrow> Fault OutOfBounds)"

definition co_release :: "nat \<Rightarrow> 'g world \<Rightarrow> 'g world outcome" where
  "co_release p w = obind (routine_at p w) (\<lambda>_. Ok (w\<lparr>w_inner := (w_inner w)(p := None)\<rparr>))"

section \<open>Coro objects\<close>

definition coro_at :: "nat \<Rightarrow> 'g world \<Rightarrow> 'g coroutine outcome" where
  "coro_at c w = (case w_coro w c of None \<Rightarrow> Fault UseAfterFree | Some o1 \<Rightarrow> Ok o1)"

definition set_coro :: "nat \<Rightarrow> 'g coroutine \<Rightarrow> 'g world \<Rightarrow> 'g world" where
  "set_coro c o1 w = w\<lparr>w_coro := (w_coro w)(c \<mapsto> o1)\<rparr>"

definition Coro_new :: "int \<Rightarrow> (nat \<Rightarrow> 'g prog) \<Rightarrow> nat \<Rightarrow> 'g coroutine" where
  "Coro_new coroId entry args = \<lparr>co_id = coroId, co_inner = None, co_args = args, co_passData = VNil, co_param1 = 0, co_param2 = 0,
     co_ptrParam1 = PNull, co_yielded = False, co_timeouted = False, co_cancelled = False, co_yieldTimes = 0,
     co_resumeTimes = 0, co_opcode = 0, co_entry = entry\<rparr>"

definition IsMainCoro :: "nat \<Rightarrow> 'g world \<Rightarrow> bool outcome" where
  "IsMainCoro c w = obind (coro_at c w) (\<lambda>o1. case co_inner o1 of None \<Rightarrow> Ok False
     | Some p \<Rightarrow> obind (routine_at p w) (\<lambda>i. Ok (in_cIsMain i)))"

definition SetEntry :: "(nat \<Rightarrow> 'g prog) \<Rightarrow> 'g coroutine \<Rightarrow> llbc_error option \<times> 'g coroutine" where
  "SetEntry entry o1 = (if co_resumeTimes o1 \<noteq> 0 then (Some ERROR_NOT_ALLOW, o1) else (None, o1\<lparr>co_entry := entry\<rparr>))"

definition SetArgs :: "nat \<Rightarrow> 'g coroutine \<Rightarrow> llbc_error option \<times> 'g coroutine" where
  "SetArgs args o1 = (if co_resumeTimes o1 \<noteq> 0 then (Some ERROR_NOT_ALLOW, o1) else (None, o1\<lparr>co_args := args\<rparr>))"

definition SetInnerCoro :: "nat \<Rightarrow> nat \<Rightarrow> 'g world \<Rightarrow> 'g world outcome" where
  "SetInnerCoro c p w = obind (coro_at c w) (\<lambda>o1. obind (routine_at p w) (\<lambda>i.
     Ok (set_coro c (o1\<lparr>co_inner := Some p, co_yielded := \<not> in_cIsMain i\<rparr>) w)))"

definition GetCoro :: "int \<Rightarrow> 'g world \<Rightarrow> nat option" where
  "GetCoro coroId w = map_of (w_coros w) coroId"

definition GetCurCoro :: "'g world \<Rightarrow> nat option outcome" where
  "GetCurCoro w = (case co_self w of None \<Rightarrow> Fault NullDeref
     | Some p \<Rightarrow> obind (routine_at p w) (\<lambda>i. Ok (GetCoro (in_spec0 i) w)))"

definition CoroTimeoutTime :: int where
  "CoroTimeoutTime = 5000"

text \<open>\<open>OnCoroCancel\<close>, the cancel handler of a coroutine's timer; \<open>resume\<close> is \<open>Resume()\<close>.\<close>

definition OnCoroCancel :: "(nat \<Rightarrow> 'g world \<Rightarrow> 'g world outcome) \<Rightarrow> nat \<Rightarrow> 'g world \<Rightarrow> 'g world outcome" where
  "OnCoroCancel resume c w = obind (coro_at c w) (\<lambda>o1.
     if co_yielded o1
     then obind (Timer_IsTimeouting c w) (\<lambda>t. if t then Ok w else resume c (set_coro c (o1\<lparr>co_cancelled := True\<rparr>) w))
     else Ok w)"

text \<open>\<open>Yield\<close> up to the switch: it either returns at once (\<open>Some\<close> result), or switches away.\<close>

definition Coro_Yield :: "(nat \<Rightarrow> 'g world \<Rightarrow> 'g world outcome) \<Rightarrow> nat \<Rightarrow> int \<Rightarrow> 'g world
    \<Rightarrow> (llbc_error option option \<times> 'g world) outcome" where
  "Coro_Yield resume c timeout w = obind (coro_at c w) (\<lambda>o1.
     if co_yielded o1 then Ok (Some (Some ERROR_REPEAT), w)
     else obind (GetCurCoro w) (\<lambda>cur.
       if cur \<noteq> Some c
       then (case cur of None \<Rightarrow> Fault NullDeref | Some _ \<Rightarrow> Ok (Some (Some ERROR_NOT_ALLOW), w))
       else obind (IsMainCoro c w) (\<lambda>main.
         if main then Ok (Some (Some ERROR_NOT_ALLOW), w)
         else let actualTimeout = (if timeout \<le> 0 then CoroTimeoutTime * 1000 else timeout);
                  w1 = set_coro c (o1\<lparr>co_yieldTimes := co_yieldTimes o1 + 1\<rparr>) w
              in obind (Timer_Schedule (OnCoroCancel resume) c actualTimeout 0 w1) (\<lambda>(_, w2).
                 obind (coro_at c w2) (\<lambda>o2.
                 obind (co_yield_ct (set_coro c (o2\<lparr>co_yielded := True, co_timeouted := False, co_cancelled := False,
                          co_passData := VNil\<rparr>) w2)) (\<lambda>w3. Ok (None, w3)))))))"

section \<open>Running a coroutine\<close>

text \<open>The code up to its next switch: the context it leaves behind, or \<open>None\<close> if it has returned.\<close>

primrec run :: "'g prog \<Rightarrow> (nat \<Rightarrow> int \<Rightarrow> 'g world \<Rightarrow> (llbc_error option option \<times> 'g world) outcome) \<Rightarrow> 'g world
    \<Rightarrow> ((nat \<times> (llbc_error option \<Rightarrow> 'g prog)) option \<times> 'g world) outcome" where
  "run Finish yld w = Ok (None, w)"
| "run (Crash e) yld w = Fault e"
| "run NoFuel yld w = Fuel"
| "run (Get k) yld w = run (k (w_globals w)) yld w"
| "run (Put g p) yld w = run p yld (w\<lparr>w_globals := g\<rparr>)"
| "run (Info fmt args p) yld w = run p yld (w\<lparr>w_info := w_info w @ [(fmt, args)]\<rparr>)"
| "run (Push packet p) yld w = obind (cm_PushPacket packet (w_conn w)) (\<lambda>(_, c). run p yld (w\<lparr>w_conn := c\<rparr>))"
| "run (Channel ip port k) yld w = obind (cm_GetRpcChannel ip port (w_conn w)) (\<lambda>(ch, c). run (k ch) yld (w\<lparr>w_conn := c\<rparr>))"
| "run (CurCoro k) yld w = obind (GetCurCoro w) (\<lambda>c. run (k c) yld w)"
| "run (Deref c k) yld w = obind (coro_at c w) (\<lambda>o1. run (k (coro.truncate o1)) yld w)"
| "run (IsMain c k) yld w = obind (IsMainCoro c w) (\<lambda>b. run (k b) yld w)"
| "run (YieldOn c timeout k) yld w = obind (yld c timeout w) (\<lambda>(r, w1).
     case r of Some ret \<Rightarrow> run (k ret) yld w1 | None \<Rightarrow> Ok (Some (c, k), w1))"

text \<open>\<open>std::map\<close>: sorted by key; \<open>emplace\<close> and \<open>insert\<close> keep an entry that is there.\<close>

definition sm_emplace :: "int \<Rightarrow> 'v \<Rightarrow> (int \<times> 'v) list \<Rightarrow> (int \<times> 'v) list" where
  "sm_emplace k v m = (case map_of m k of Some _ \<Rightarrow> m | None \<Rightarrow> insort_key fst (k, v) m)"

definition MaskWillRecycle :: "nat \<Rightarrow> 'g world \<Rightarrow> 'g world outcome" where
  "MaskWillRecycle c w = obind (coro_at c w) (\<lambda>o1. case map_of (w_recycle w) (co_id o1) of Some _ \<Rightarrow> Ok w
     | None \<Rightarrow> Ok (w\<lparr>w_recycle := sm_emplace (co_id o1) c (w_recycle w), w_coros := al_erase (co_id o1) (w_coros w)\<rparr>))"

text \<open>The end of a run: the context is saved, or \<open>Entry\<close> and \<open>CoRoutineFunc\<close> go on to their ends.\<close>

definition co_leave :: "nat \<Rightarrow> (nat \<times> (llbc_error option \<Rightarrow> 'g prog)) option \<times> 'g world \<Rightarrow> 'g world outcome" where
  "co_leave p r = (case r of
       (Some ctx, w) \<Rightarrow> obind (routine_at p w) (\<lambda>i. Ok (w\<lparr>w_inner := (w_inner w)(p \<mapsto> i\<lparr>in_ctx := Some ctx\<rparr>)\<rparr>))
     | (None, w) \<Rightarrow> obind (routine_at p w) (\<lambda>i. obind (MaskWillRecycle (in_arg i) w) (\<lambda>w1.
         co_yield_ct (w1\<lparr>w_inner := (w_inner w1)(p \<mapsto> i\<lparr>in_cEnd := True, in_ctx := None\<rparr>)\<rparr>))))"

text \<open>\<open>co_resume\<close> with the part of \<open>Yield\<close> that follows the switch: the assertion and the result.\<close>

definition co_resume :: "(nat \<Rightarrow> int \<Rightarrow> 'g world \<Rightarrow> (llbc_error option option \<times> 'g world) outcome) \<Rightarrow> nat \<Rightarrow> 'g world
    \<Rightarrow> 'g world outcome" where
  "co_resume yld p w = obind (routine_at p w) (\<lambda>i.
     if w_stack w = [] then Fault NullDeref
     else if 128 \<le> length (w_stack w) then Fault CallStackFull
     else let w1 = w\<lparr>w_stack := p # w_stack w, w_inner := (w_inner w)(p \<mapsto> i\<lparr>in_cStart := True\<rparr>)\<rparr> in
       if \<not> in_cStart i
       then obind (coro_at (in_arg i) w1) (\<lambda>o1. obind (run (co_entry o1 (co_args o1)) yld w1) (co_leave p))
       else (case in_ctx i of None \<Rightarrow> Fault DeadContext
         | Some (c, k) \<Rightarrow> obind (coro_at c w1) (\<lambda>o1.
             if co_yielded o1 then Fault AssertFail
             else obind (run (k (if co_timeouted o1 \<or> co_cancelled o1 then Some ERROR_UNKNOWN else None)) yld w1) (co_leave p))))"

primrec Coro_Resume :: "nat \<Rightarrow> variant \<Rightarrow> nat \<Rightarrow> 'g world \<Rightarrow> (llbc_error option \<times> 'g world) outcome" where
  "Coro_Resume 0 passData c w = Fuel"
| "Coro_Resume (Suc n) passData c w =
     (let resume = (\<lambda>c w. obind (Coro_Resume n VNil c w) (\<lambda>(_, w'). Ok w')) in
      obind (coro_at c w) (\<lambda>o1.
        if \<not> co_yielded o1 then Ok (Some ERROR_NOT_ALLOW, w)
        else let w1 = set_coro c (o1\<lparr>co_resumeTimes := co_resumeTimes o1 + 1, co_yielded := False, co_passData := passData\<rparr>) w in
          obind (if co_timeouted o1 \<or> co_cancelled o1 then Ok w1
                 else obind (Timer_Cancel (OnCoroCancel resume) c w1) (\<lambda>(_, w2). Ok w2)) (\<lambda>w2.
          obind (coro_at c w2) (\<lambda>o2. case co_inner o2 of None \<Rightarrow> Fault NullDeref
            | Some p \<Rightarrow> obind (co_resume (Coro_Yield resume) p w2) (\<lambda>w3. Ok (None, w3))))))"

definition resume_nil :: "nat \<Rightarrow> nat \<Rightarrow> 'g world \<Rightarrow> 'g world outcome" where
  "resume_nil n c w = obind (Coro_Resume n VNil c w) (\<lambda>(_, w'). Ok w')"

definition Coro_Cancel :: "nat \<Rightarrow> nat \<Rightarrow> 'g world \<Rightarrow> (llbc_error option \<times> 'g world) outcome" where
  "Coro_Cancel n c w = obind (coro_at c w) (\<lambda>o1.
     if \<not> co_yielded o1 then Ok (Some ERROR_NOT_ALLOW, w)
     else obind (Timer_Cancel (OnCoroCancel (resume_nil n)) c w) (\<lambda>(_, w1). Ok (None, w1)))"

definition OnCoroTimeout :: "nat \<Rightarrow> nat \<Rightarrow> 'g world \<Rightarrow> 'g world outcome" where
  "OnCoroTimeout n c w = obind (coro_at c w) (\<lambda>o1.
     obind (Timer_Cancel (OnCoroCancel (resume_nil n)) c (set_coro c (o1\<lparr>co_timeouted := True\<rparr>) w)) (\<lambda>(_, w1).
     resume_nil n c w1))"

definition Coro_delete :: "nat \<Rightarrow> nat \<Rightarrow> 'g world \<Rightarrow> 'g world outcome" where
  "Coro_delete n c w = obind (coro_at c w) (\<lambda>o1.
     obind (if co_yielded o1 then obind (Timer_Cancel (OnCoroCancel (resume_nil n)) c w) (\<lambda>(_, w1). Ok w1) else Ok w) (\<lambda>w1.
     obind (case co_inner o1 of None \<Rightarrow> Ok w1
            | Some p \<Rightarrow> obind (routine_at p w1) (\<lambda>i. if in_cIsMain i then Ok w1 else co_release p w1)) (\<lambda>w2.
     obind (Timer_delete (OnCoroCancel (resume_nil n)) c w2) (\<lambda>w3. Ok (w3\<lparr>w_coro := (w_coro w3)(c := None)\<rparr>)))))"

section \<open>The manager\<close>

text \<open>\<open>GenCoroId\<close>: \<open>++maxCoroId_\<close> on a 32-bit \<open>int\<close>.\<close>

definition GenCoroId :: "'g world \<Rightarrow> int \<times> 'g world" where
  "GenCoroId w = (let m = w_maxCoroId w; m1 = (if m = 2 ^ 31 - 1 then - (2 ^ 31) else m + 1);
     m2 = (if m1 < 0 then 2 else m1) in (m2, w\<lparr>w_maxCoroId := m2\<rparr>))"

definition CreateCoro :: "(nat \<Rightarrow> 'g prog) \<Rightarrow> nat \<Rightarrow> 'g world \<Rightarrow> (nat \<times> 'g world) outcome" where
  "CreateCoro entry args w = (let (coroId, w1) = GenCoroId w; c = ts_next w1;
       w2 = Timer_new c (set_coro c (Coro_new coroId entry args) (w1\<lparr>ts_next := c + 1\<rparr>));
       (p, w3) = co_create c w2
     in obind (routine_at p w3) (\<lambda>i.
        obind (SetInnerCoro c p (w3\<lparr>w_inner := (w_inner w3)(p \<mapsto> i\<lparr>in_spec0 := coroId\<rparr>)\<rparr>)) (\<lambda>w4.
        Ok (c, w4\<lparr>w_coros := sm_emplace coroId c (w_coros w4)\<rparr>))))"

definition mgr_Yield :: "int \<Rightarrow> (llbc_error option \<Rightarrow> 'g prog) \<Rightarrow> 'g prog" where
  "mgr_Yield timeout k = CurCoro (\<lambda>c. case c of None \<Rightarrow> Crash NullDeref | Some a \<Rightarrow> YieldOn a timeout k)"

definition mgr_Resume :: "nat \<Rightarrow> int \<Rightarrow> variant \<Rightarrow> 'g world \<Rightarrow> (llbc_error option \<times> 'g world) outcome" where
  "mgr_Resume n coroId passData w = (case GetCoro coroId w of None \<Rightarrow> Ok (Some ERROR_INVALID, w)
     | Some c \<Rightarrow> Coro_Resume n passData c w)"

definition mgr_Cancel :: "nat \<Rightarrow> int \<Rightarrow> 'g world \<Rightarrow> (llbc_error option \<times> 'g world) outcome" where
  "mgr_Cancel n coroId w = (case GetCoro coroId w of None \<Rightarrow> Ok (Some ERROR_INVALID, w)
     | Some c \<Rightarrow> Coro_Cancel n c w)"

definition mgr_Start :: "'g world \<Rightarrow> (bool \<times> 'g world) outcome" where
  "mgr_Start w = (let w0 = w\<lparr>w_maxCoroId := 0\<rparr> in
     case co_self w0 of None \<Rightarrow> Fault NullDeref
     | Some p \<Rightarrow> obind (routine_at p w0) (\<lambda>i. if \<not> in_cIsMain i then Ok (False, w0)
         else let (coroId, w1) = GenCoroId w0; c = ts_next w1;
                  w2 = Timer_new c (set_coro c (Coro_new coroId (\<lambda>_. Crash NullDeref) 0) (w1\<lparr>ts_next := c + 1\<rparr>))
              in obind (SetInnerCoro c p (w2\<lparr>w_inner := (w_inner w2)(p \<mapsto> i\<lparr>in_spec0 := coroId\<rparr>)\<rparr>)) (\<lambda>w3.
                 Ok (True, w3\<lparr>w_coros := sm_emplace coroId c (w_coros w3)\<rparr>))))"

fun Recycle_loop :: "nat \<Rightarrow> (int \<times> nat) list \<Rightarrow> 'g world \<Rightarrow> 'g world outcome" where
  "Recycle_loop n [] w = Ok w"
| "Recycle_loop n ((_, c) # cs) w = obind (Coro_delete n c w) (Recycle_loop n cs)"

definition mgr_Update :: "nat \<Rightarrow> nat \<Rightarrow> 'g world \<Rightarrow> 'g world outcome" where
  "mgr_Update fuel n w = obind (Scheduler_Update fuel (OnCoroTimeout n) w) (\<lambda>w1.
     if w_recycle w1 = [] then Ok w1
     else obind (Recycle_loop n (w_recycle w1) w1) (\<lambda>w2. Ok (w2\<lparr>w_recycle := []\<rparr>)))"

text \<open>\<open>Stop\<close> steps over the table while the coroutines that it cancels leave it; the programs
here create no coroutines, so the entries it visits are those of the start.\<close>

fun Stop_loop :: "nat \<Rightarrow> (int \<times> nat) list \<Rightarrow> 'g world \<Rightarrow> 'g world outcome" where
  "Stop_loop n [] w = Ok w"
| "Stop_loop n ((_, c) # cs) w = obind (coro_at c w) (\<lambda>o1. obind (IsMainCoro c w) (\<lambda>main.
     obind (if co_yielded o1 \<and> \<not> main then obind (Coro_Cancel n c w) (\<lambda>(_, w1). Ok w1) else Ok w) (Stop_loop n cs)))"

definition mgr_Stop :: "nat \<Rightarrow> nat \<Rightarrow> 'g world \<Rightarrow> 'g world outcome" where
  "mgr_Stop fuel n w = obind (Stop_loop n (w_coros w) w) (\<lambda>w1. obind (mgr_Update fuel n w1) (\<lambda>w2.
     Ok (w2\<lparr>w_maxCoroId := 0\<rparr>)))"

end
