(* ===== verification/Coroutine_Spec.thy ===== *)
theory Coroutine_Spec
  imports Coroutine
begin

text \<open>
  An abstract specification of the coroutine manager. In a \<open>'g view\<close> there are no timer records, no
  binary heap, no libco routines and no call stack: a coroutine that waits is a continuation with a
  deadline. The operations are functions on views: the code of a coroutine runs up to its next yield
  (\<open>exec\<close>), and its coroutine waits again or is dead (\<open>settle\<close>). The function \<open>view\<close> abstracts from a
  world; that the operations of \<open>Coroutine\<close> implement those of this theory is shown in
  \<open>Coroutine_Safety\<close>.
\<close>

section \<open>Views\<close>

record 'g view =
  v_now :: int
  v_coro :: "nat \<rightharpoonup> 'g coroutine"
  v_cont :: "nat \<rightharpoonup> (llbc_error option \<Rightarrow> 'g prog)"
  v_dl :: "nat \<rightharpoonup> int"
  v_live :: "int \<rightharpoonup> nat"
  v_dead :: "int \<rightharpoonup> nat"
  v_maxCoroId :: int
  v_globals :: 'g
  v_info :: "(string \<times> byte list list) list"
  v_conn :: "rpc_handler conn_mgr"

text \<open>The context that a suspended coroutine has left behind.\<close>

definition saved_ctx :: "'g world \<Rightarrow> nat \<Rightarrow> (nat \<times> (llbc_error option \<Rightarrow> 'g prog)) option" where
  "saved_ctx w c = (case w_coro w c of None \<Rightarrow> None | Some o1 \<Rightarrow> (case co_inner o1 of None \<Rightarrow> None
     | Some p \<Rightarrow> (case w_inner w p of None \<Rightarrow> None | Some i \<Rightarrow> in_ctx i)))"

definition view :: "'g world \<Rightarrow> 'g view" where
  "view w = \<lparr>v_now = ts_now w, v_coro = w_coro w, v_cont = (\<lambda>c. map_option snd (saved_ctx w c)), v_dl = deadline w,
     v_live = map_of (w_coros w), v_dead = map_of (w_recycle w), v_maxCoroId = w_maxCoroId w, v_globals = w_globals w,
     v_info = w_info w, v_conn = w_conn w\<rparr>"

section \<open>Running code\<close>

text \<open>The code \<open>prog\<close> of the coroutine \<open>c\<close>, whose members are \<open>o1\<close>, up to its next yield or its end.\<close>

primrec exec :: "'g prog \<Rightarrow> nat \<Rightarrow> coro \<Rightarrow> 'g view \<Rightarrow> (int \<times> (llbc_error option \<Rightarrow> 'g prog)) option \<times> 'g view" where
  "exec Finish c o1 v = (None, v)"
| "exec (Crash e) c o1 v = (None, v)"
| "exec NoFuel c o1 v = (None, v)"
| "exec (Get k) c o1 v = exec (k (v_globals v)) c o1 v"
| "exec (Put g p) c o1 v = exec p c o1 (v\<lparr>v_globals := g\<rparr>)"
| "exec (Info fmt args p) c o1 v = exec p c o1 (v\<lparr>v_info := v_info v @ [(fmt, args)]\<rparr>)"
| "exec (Push packet p) c o1 v = (case cm_PushPacket packet (v_conn v) of
       Ok (_, cn) \<Rightarrow> exec p c o1 (v\<lparr>v_conn := cn\<rparr>) | _ \<Rightarrow> (None, v))"
| "exec (Channel ip port k) c o1 v = (case cm_GetRpcChannel ip port (v_conn v) of
       Ok (ch, cn) \<Rightarrow> exec (k ch) c o1 (v\<lparr>v_conn := cn\<rparr>) | _ \<Rightarrow> (None, v))"
| "exec (CurCoro k) c o1 v = exec (k (Some c)) c o1 v"
| "exec (Deref a k) c o1 v = exec (k o1) c o1 v"
| "exec (IsMain a k) c o1 v = exec (k False) c o1 v"
| "exec (YieldOn a t k) c o1 v = (Some (t, k), v)"

text \<open>The timeout of a yield in milliseconds, and the \<open>Coro\<close> object before and after a yield.\<close>

definition yield_millis :: "int \<Rightarrow> int" where
  "yield_millis t = (if t \<le> 0 then CoroTimeoutTime else t div 1000)"

definition yielded_coro :: "'g coroutine \<Rightarrow> 'g coroutine" where
  "yielded_coro o1 = o1\<lparr>co_yieldTimes := co_yieldTimes o1 + 1, co_yielded := True, co_timeouted := False,
     co_cancelled := False, co_passData := VNil\<rparr>"

definition awake_coro :: "variant \<Rightarrow> 'g coroutine \<Rightarrow> 'g coroutine" where
  "awake_coro passData o1 = o1\<lparr>co_resumeTimes := co_resumeTimes o1 + 1, co_yielded := False, co_passData := passData\<rparr>"

definition settle :: "nat \<Rightarrow> 'g coroutine \<Rightarrow> (int \<times> (llbc_error option \<Rightarrow> 'g prog)) option \<times> 'g view \<Rightarrow> 'g view" where
  "settle c o1 r = (case r of
       (None, v) \<Rightarrow> v\<lparr>v_live := (v_live v)(co_id o1 := None), v_dead := (v_dead v)(co_id o1 \<mapsto> c), v_cont := (v_cont v)(c := None)\<rparr>
     | (Some (t, k), v) \<Rightarrow> v\<lparr>v_coro := (v_coro v)(c \<mapsto> yielded_coro o1), v_cont := (v_cont v)(c \<mapsto> k),
                              v_dl := (v_dl v)(c \<mapsto> v_now v + yield_millis t)\<rparr>)"

text \<open>What runs when a coroutine is woken with the members \<open>o1\<close>: its entry the first time.\<close>

definition resume_prog :: "nat \<Rightarrow> 'g coroutine \<Rightarrow> 'g view \<Rightarrow> 'g prog" where
  "resume_prog c o1 v = (case v_cont v c of None \<Rightarrow> co_entry o1 (co_args o1)
     | Some k \<Rightarrow> k (if co_timeouted o1 \<or> co_cancelled o1 then Some ERROR_UNKNOWN else None))"

definition v_exec :: "nat \<Rightarrow> 'g coroutine \<Rightarrow> 'g prog \<Rightarrow> 'g view \<Rightarrow> 'g view" where
  "v_exec c o1 prog v = settle c o1 (exec prog c (coro.truncate o1) (v\<lparr>v_coro := (v_coro v)(c \<mapsto> o1), v_dl := (v_dl v)(c := None)\<rparr>))"

definition v_run :: "nat \<Rightarrow> 'g coroutine \<Rightarrow> 'g view \<Rightarrow> 'g view" where
  "v_run c o1 v = v_exec c o1 (resume_prog c o1 v) v"

section \<open>Operations\<close>

definition v_Resume :: "variant \<Rightarrow> nat \<Rightarrow> 'g view \<Rightarrow> 'g view" where
  "v_Resume passData c v = v_run c (awake_coro passData (the (v_coro v c))) v"

definition v_Timeout :: "nat \<Rightarrow> 'g view \<Rightarrow> 'g view" where
  "v_Timeout c v = v_run c (awake_coro VNil ((the (v_coro v c))\<lparr>co_timeouted := True\<rparr>)) v"

definition v_Cancel :: "nat \<Rightarrow> 'g view \<Rightarrow> 'g view" where
  "v_Cancel c v = (if v_dl v c = None then v else v_run c (awake_coro VNil ((the (v_coro v c))\<lparr>co_cancelled := True\<rparr>)) v)"

definition v_Recycle :: "'g view \<Rightarrow> 'g view" where
  "v_Recycle v = v\<lparr>v_coro := (v_coro v) |` (- ran (v_dead v)), v_cont := (v_cont v) |` (- ran (v_dead v)), v_dead := Map.empty\<rparr>"

definition created :: "int \<Rightarrow> nat \<Rightarrow> (nat \<Rightarrow> 'g prog) \<Rightarrow> nat \<Rightarrow> 'g coroutine" where
  "created coroId p entry args = (Coro_new coroId entry args)\<lparr>co_inner := Some p, co_yielded := True\<rparr>"

definition v_Create :: "nat \<Rightarrow> nat \<Rightarrow> (nat \<Rightarrow> 'g prog) \<Rightarrow> nat \<Rightarrow> 'g view \<Rightarrow> 'g view" where
  "v_Create c p entry args v = (let coroId = v_maxCoroId v + 1 in
     v\<lparr>v_maxCoroId := coroId, v_coro := (v_coro v)(c \<mapsto> created coroId p entry args), v_live := (v_live v)(coroId \<mapsto> c)\<rparr>)"

section \<open>Basic facts\<close>

lemma saved_ctx_cong: "w_coro w' s = w_coro w s \<Longrightarrow> w_inner w' = w_inner w \<Longrightarrow> saved_ctx w' s = saved_ctx w s"
  by (simp add: saved_ctx_def cong: option.case_cong)

lemma view_sel [simp]:
  "v_now (view w) = ts_now w" "v_coro (view w) = w_coro w" "v_cont (view w) c = map_option snd (saved_ctx w c)"
  "v_dl (view w) = deadline w" "v_live (view w) = map_of (w_coros w)" "v_dead (view w) = map_of (w_recycle w)"
  "v_maxCoroId (view w) = w_maxCoroId w" "v_globals (view w) = w_globals w" "v_info (view w) = w_info w"
  "v_conn (view w) = w_conn w"
  by (simp_all add: view_def)

lemma view_eqI:
  assumes "v_now v = v_now v'" "\<And>c. v_coro v c = v_coro v' c" "\<And>c. v_cont v c = v_cont v' c" "\<And>c. v_dl v c = v_dl v' c"
    "\<And>i. v_live v i = v_live v' i" "\<And>i. v_dead v i = v_dead v' i" "v_maxCoroId v = v_maxCoroId v'"
    "v_globals v = v_globals v'" "v_info v = v_info v'" "v_conn v = v_conn v'"
  shows "v = (v' :: 'g view)"
  using assms by (cases v, cases v') (auto simp: fun_eq_iff)

lemma exec_frame:
  "v_now (snd (exec prog c o1 v)) = v_now v" "v_coro (snd (exec prog c o1 v)) = v_coro v"
  "v_cont (snd (exec prog c o1 v)) = v_cont v" "v_dl (snd (exec prog c o1 v)) = v_dl v"
  "v_live (snd (exec prog c o1 v)) = v_live v" "v_dead (snd (exec prog c o1 v)) = v_dead v"
  "v_maxCoroId (snd (exec prog c o1 v)) = v_maxCoroId v"
  by (induction prog arbitrary: v) (auto split: outcome.splits)

text \<open>A coroutine that is woken leaves all other coroutines alone.\<close>

lemma v_exec_frame [simp]:
  "v_now (v_exec c o1 prog v) = v_now v" "v_maxCoroId (v_exec c o1 prog v) = v_maxCoroId v"
  using exec_frame [of prog c "coro.truncate o1" "v\<lparr>v_coro := (v_coro v)(c \<mapsto> o1), v_dl := (v_dl v)(c := None)\<rparr>"]
  by (auto simp: v_exec_def settle_def split: prod.splits option.splits)

lemma v_exec_other:
  "s \<noteq> c \<Longrightarrow> v_coro (v_exec c o1 prog v) s = v_coro v s" "s \<noteq> c \<Longrightarrow> v_cont (v_exec c o1 prog v) s = v_cont v s"
  "s \<noteq> c \<Longrightarrow> v_dl (v_exec c o1 prog v) s = v_dl v s"
  "n \<noteq> co_id o1 \<Longrightarrow> v_live (v_exec c o1 prog v) n = v_live v n" "n \<noteq> co_id o1 \<Longrightarrow> v_dead (v_exec c o1 prog v) n = v_dead v n"
  using exec_frame [of prog c "coro.truncate o1" "v\<lparr>v_coro := (v_coro v)(c \<mapsto> o1), v_dl := (v_dl v)(c := None)\<rparr>"]
  by (auto simp: v_exec_def settle_def split: prod.splits option.splits)

lemma v_run_frame [simp]:
  "v_now (v_run c o1 v) = v_now v" "v_maxCoroId (v_run c o1 v) = v_maxCoroId v"
  by (simp_all add: v_run_def)

text \<open>Which code runs: two programs with the same effect may be exchanged.\<close>

lemma v_run_exec:
  assumes "exec (resume_prog c o1 v) c (coro.truncate o1) (v\<lparr>v_coro := (v_coro v)(c \<mapsto> o1), v_dl := (v_dl v)(c := None)\<rparr>)
     = exec prog c (coro.truncate o1) (v\<lparr>v_coro := (v_coro v)(c \<mapsto> o1), v_dl := (v_dl v)(c := None)\<rparr>)"
  shows "v_run c o1 v = v_exec c o1 prog v"
  using assms by (simp add: v_run_def v_exec_def)

end
