(* ===== verification/Coroutine_Safety.thy ===== *)
theory Coroutine_Safety
  imports Coroutine_Spec
begin

text \<open>
  The coroutine manager works: an invariant that ties the tables of the manager, the libco routines,
  the call stack and the timers together, and its preservation by every operation that the main
  routine calls, for any coroutine code that behaves (\<open>good\<close>). The scheduler's contract \<open>timeout_client\<close>
  is interpreted for the coroutines, which gives what \<open>Update\<close> wakes and in which order.
\<close>

section \<open>Invariant\<close>

text \<open>
  Code that behaves: it does not crash by itself, it only looks at and yields its own \<open>Coro\<close>, and
  its timeouts are at least a millisecond and less than the scheduler's long timeouts. After a yield
  (\<open>aw\<close>) it may rely on the reason for which it was woken: a timeout, a cancellation, or a packet that
  has the shape of a response, an error text and a message.
\<close>

definition rsp_shaped :: "packet \<Rightarrow> bool" where
  "rsp_shaped p \<longleftrightarrow> pk_ok p \<and> (\<exists>errText body. pk_data p = enc_string errText @ enc_string body) \<and> length (pk_data p) + 8192 \<le> 2 ^ 31"

definition woken :: "'b coro_scheme \<Rightarrow> bool" where
  "woken o1 \<longleftrightarrow> co_timeouted o1 \<or> co_cancelled o1 \<or> (\<exists>p. co_ptrParam1 o1 = PPacket p \<and> rsp_shaped p)"

definition good_time :: "int \<Rightarrow> bool" where
  "good_time t \<longleftrightarrow> t \<le> 0 \<or> 1000 \<le> t \<and> t div 1000 < LONG_TIMEOUT_TIME"

primrec good :: "'g prog \<Rightarrow> bool \<Rightarrow> nat \<Rightarrow> bool" where
  "good Finish aw c = True"
| "good (Crash e) aw c = False"
| "good NoFuel aw c = False"
| "good (Get k) aw c = (\<forall>g. good (k g) aw c)"
| "good (Put g p) aw c = good p aw c"
| "good (Info fmt args p) aw c = good p aw c"
| "good (Push packet p) aw c = good p aw c"
| "good (Channel ip port k) aw c = (\<forall>r. good (k r) aw c)"
| "good (CurCoro k) aw c = good (k (Some c)) aw c"
| "good (Deref a k) aw c = (a = c \<and> (\<forall>o1. (aw \<longrightarrow> woken o1) \<longrightarrow> good (k o1) aw c))"
| "good (IsMain a k) aw c = (a = c \<and> good (k False) aw c)"
| "good (YieldOn a t k) aw c = (a = c \<and> good_time t \<and> (\<forall>r. good (k r) True c))"

text \<open>A coroutine that waits to be started, or to be woken from its yield; and one that has ended.\<close>

definition suspended :: "'g world \<Rightarrow> nat \<Rightarrow> 'g coroutine \<Rightarrow> 'g routine \<Rightarrow> bool" where
  "suspended w c o1 i \<longleftrightarrow> co_yielded o1 \<and> \<not> co_timeouted o1 \<and> \<not> co_cancelled o1 \<and> \<not> in_cEnd i
     \<and> (if in_cStart i then deadline w c \<noteq> None \<and> (\<exists>k. in_ctx i = Some (c, k) \<and> (\<forall>r. good (k r) True c))
        else deadline w c = None \<and> in_ctx i = None \<and> good (co_entry o1 (co_args o1)) False c)"

definition ended :: "'g world \<Rightarrow> nat \<Rightarrow> 'g coroutine \<Rightarrow> 'g routine \<Rightarrow> bool" where
  "ended w c o1 i \<longleftrightarrow> \<not> co_yielded o1 \<and> in_cEnd i \<and> deadline w c = None \<and> map_of (w_recycle w) (co_id o1) = Some c"

definition running :: "'g world \<Rightarrow> nat \<Rightarrow> 'g coroutine \<Rightarrow> 'g routine \<Rightarrow> bool" where
  "running w c o1 i \<longleftrightarrow> \<not> co_yielded o1 \<and> in_cStart i \<and> \<not> in_cEnd i \<and> deadline w c = None
     \<and> map_of (w_coros w) (co_id o1) = Some c"

definition coro_ok :: "nat option \<Rightarrow> 'g world \<Rightarrow> nat \<Rightarrow> 'g coroutine \<Rightarrow> bool" where
  "coro_ok cur w c o1 \<longleftrightarrow> ts_timers w c \<noteq> None \<and> c < ts_next w \<and> 0 < co_id o1 \<and> co_id o1 \<le> w_maxCoroId w
     \<and> (\<exists>p i. co_inner o1 = Some p \<and> w_inner w p = Some i \<and> in_arg i = c \<and> in_spec0 i = co_id o1 \<and> \<not> in_cIsMain i
          \<and> (if cur = Some c then running w c o1 i
             else if map_of (w_coros w) (co_id o1) = Some c then suspended w c o1 i else ended w c o1 i))"

text \<open>The main routine: it has no \<open>Coro\<close> of its own, since \<open>Start\<close> is never called.\<close>

definition is_main :: "'g routine \<Rightarrow> bool" where
  [simp]: "is_main im \<longleftrightarrow> in_cIsMain im \<and> in_spec0 im = 0"

text \<open>The call stack: the main routine, and on it the coroutine that runs (\<open>cur\<close>).\<close>

definition stack_ok :: "nat option \<Rightarrow> 'g world \<Rightarrow> bool" where
  "stack_ok cur w \<longleftrightarrow> (case cur of
       None \<Rightarrow> w_stack w = [] \<and> w_coro w = Map.empty
         \<or> (\<exists>m im. w_stack w = [m] \<and> w_inner w m = Some im \<and> is_main im)
     | Some c \<Rightarrow> (\<exists>o1 p m im. w_coro w c = Some o1 \<and> co_inner o1 = Some p \<and> w_stack w = [p, m]
         \<and> w_inner w m = Some im \<and> is_main im))"

definition tables_ok :: "'g world \<Rightarrow> bool" where
  "tables_ok w \<longleftrightarrow> distinct (map fst (w_coros w)) \<and> distinct (map fst (w_recycle w))
     \<and> (\<forall>n. map_of (w_coros w) n = None \<or> map_of (w_recycle w) n = None)
     \<and> (\<forall>n c. map_of (w_coros w) n = Some c \<or> map_of (w_recycle w) n = Some c \<longrightarrow>
            (\<exists>o1. w_coro w c = Some o1 \<and> co_id o1 = n))"

definition cinv :: "nat option \<Rightarrow> 'g world \<Rightarrow> bool" where
  "cinv cur w \<longleftrightarrow> stack_ok cur w \<and> tables_ok w \<and> (\<forall>c o1. w_coro w c = Some o1 \<longrightarrow> coro_ok cur w c o1)
     \<and> (\<forall>c. ts_timers w c \<noteq> None \<longrightarrow> w_coro w c \<noteq> None)
     \<and> (\<forall>p i. w_inner w p = Some i \<longrightarrow> p < ts_next w)
     \<and> (\<forall>c dl. deadline w c = Some dl \<longrightarrow> dl - ts_now w < LONG_TIMEOUT_TIME)
     \<and> cm_svc (w_conn w) \<noteq> None"

lemma ts_cong:
  fixes w :: "'a tstate_scheme" and w' :: "'b tstate_scheme"
  assumes "ts_heap w' = ts_heap w" "ts_data w' = ts_data w" "ts_timers w' = ts_timers w"
  shows "deadline w' = deadline w" "ts_key w' = ts_key w"
    "ts_now w' = ts_now w \<Longrightarrow> due_items w' = due_items w"
    "ts_next w' = ts_next w \<Longrightarrow> ts_destroyed w' = ts_destroyed w \<Longrightarrow> ts_inv fire w' \<longleftrightarrow> ts_inv fire w"
proof -
  show key: "ts_key w' = ts_key w" by (simp add: ts_key_def fun_eq_iff assms)
  show "deadline w' = deadline w" by (simp add: deadline_def fun_eq_iff assms cong: option.case_cong)
  show "ts_now w' = ts_now w \<Longrightarrow> due_items w' = due_items w" by (simp add: due_items_def key assms)
  assume n: "ts_next w' = ts_next w" "ts_destroyed w' = ts_destroyed w"
  have qd: "ts_queued fire w' q \<longleftrightarrow> ts_queued fire w q" for q by (simp add: ts_queued_def assms)
  have ow: "ts_owned w' q e \<longleftrightarrow> ts_owned w q e" for q e by (simp add: ts_owned_def assms)
  show "ts_inv fire w' \<longleftrightarrow> ts_inv fire w" by (simp add: ts_inv_def data_ok_def key qd ow assms n)
qed

lemma set_coro_fields [simp]:
  "ts_heap (set_coro c o1 w) = ts_heap w" "ts_data (set_coro c o1 w) = ts_data w"
  "ts_timers (set_coro c o1 w) = ts_timers w" "ts_now (set_coro c o1 w) = ts_now w"
  "ts_next (set_coro c o1 w) = ts_next w" "ts_destroyed (set_coro c o1 w) = ts_destroyed w"
  "ts_enabled (set_coro c o1 w) = ts_enabled w" "ts_maxTimerId (set_coro c o1 w) = ts_maxTimerId w"
  "w_inner (set_coro c o1 w) = w_inner w" "w_stack (set_coro c o1 w) = w_stack w"
  "w_coro (set_coro c o1 w) = (w_coro w)(c \<mapsto> o1)" "w_coros (set_coro c o1 w) = w_coros w"
  "w_recycle (set_coro c o1 w) = w_recycle w" "w_maxCoroId (set_coro c o1 w) = w_maxCoroId w"
  "w_globals (set_coro c o1 w) = w_globals w" "w_info (set_coro c o1 w) = w_info w" "w_conn (set_coro c o1 w) = w_conn w"
  by (simp_all add: set_coro_def)

lemma set_coro_ts [simp]:
  "deadline (set_coro c o1 w) = deadline w" "due_items (set_coro c o1 w) = due_items w"
  "ts_inv fire (set_coro c o1 w) \<longleftrightarrow> ts_inv fire w"
  by (rule ts_cong; simp)+

lemma coro_at_Some [simp]: "w_coro w c = Some o1 \<Longrightarrow> coro_at c w = Ok o1"
  by (simp add: coro_at_def)

lemma routine_at_Some [simp]: "w_inner w p = Some i \<Longrightarrow> routine_at p w = Ok i"
  by (simp add: routine_at_def)

text \<open>What code does between two yields leaves the coroutines and their timers alone.\<close>

definition same_coros :: "'g world \<Rightarrow> 'g world \<Rightarrow> bool" where
  "same_coros w w' \<longleftrightarrow> (\<exists>g l c. w' = w\<lparr>w_globals := g, w_info := l, w_conn := c\<rparr> \<and> (cm_svc (w_conn w) \<noteq> None \<longrightarrow> cm_svc c \<noteq> None))"

lemma same_coros_refl: "same_coros w w"
  unfolding same_coros_def by (rule exI [of _ "w_globals w"], rule exI [of _ "w_info w"], rule exI [of _ "w_conn w"]) simp

lemma same_coros_trans:
  assumes "same_coros w w1" "same_coros w1 w2"
  shows "same_coros w w2"
proof -
  obtain g l c where w1: "w1 = w\<lparr>w_globals := g, w_info := l, w_conn := c\<rparr>" "cm_svc (w_conn w) \<noteq> None \<longrightarrow> cm_svc c \<noteq> None"
    using assms(1) by (auto simp: same_coros_def)
  obtain g' l' c' where w2: "w2 = w1\<lparr>w_globals := g', w_info := l', w_conn := c'\<rparr>" "cm_svc (w_conn w1) \<noteq> None \<longrightarrow> cm_svc c' \<noteq> None"
    using assms(2) by (auto simp: same_coros_def)
  have "w2 = w\<lparr>w_globals := g', w_info := l', w_conn := c'\<rparr>" "cm_svc (w_conn w) \<noteq> None \<longrightarrow> cm_svc c' \<noteq> None"
    using w1 w2 by simp_all
  then show ?thesis unfolding same_coros_def by blast
qed

lemma same_coros_fields:
  assumes "same_coros w w'"
  shows "ts_now w' = ts_now w" "ts_heap w' = ts_heap w" "ts_data w' = ts_data w" "ts_timers w' = ts_timers w"
    "ts_next w' = ts_next w" "ts_destroyed w' = ts_destroyed w" "ts_enabled w' = ts_enabled w"
    "w_inner w' = w_inner w" "w_stack w' = w_stack w" "w_coro w' = w_coro w"
    "w_coros w' = w_coros w" "w_recycle w' = w_recycle w" "w_maxCoroId w' = w_maxCoroId w"
    "cm_svc (w_conn w) \<noteq> None \<Longrightarrow> cm_svc (w_conn w') \<noteq> None"
  using assms by (auto simp: same_coros_def)

lemma same_coros_ts:
  assumes "same_coros w w'"
  shows "deadline w' = deadline w" "due_items w' = due_items w" "ts_inv fire w' \<longleftrightarrow> ts_inv fire w"
  using ts_cong [of w' w] same_coros_fields [OF assms] by simp_all

lemma same_coros_cinv:
  assumes "same_coros w w'"
  shows "cinv cur w \<Longrightarrow> cinv cur w'"
  unfolding cinv_def stack_ok_def tables_ok_def coro_ok_def running_def suspended_def ended_def
    same_coros_fields(1-13) [OF assms] same_coros_ts(1) [OF assms]
  by (elim conjE, intro conjI; (assumption | erule same_coros_fields(14) [OF assms]))

lemma running_coro:
  assumes "cinv (Some c) w"
  obtains o1 p i m im where "w_coro w c = Some o1" "co_inner o1 = Some p" "w_inner w p = Some i" "in_arg i = c"
    "in_spec0 i = co_id o1" "\<not> in_cIsMain i" "running w c o1 i" "w_stack w = [p, m]" "w_inner w m = Some im" "is_main im"
    "GetCurCoro w = Ok (Some c)" "IsMainCoro c w = Ok False"
proof -
  obtain o1 p m im where st: "w_coro w c = Some o1" "co_inner o1 = Some p" "w_stack w = [p, m]" "w_inner w m = Some im" "is_main im"
    using assms by (auto simp: cinv_def stack_ok_def)
  have "coro_ok (Some c) w c o1" using assms st(1) unfolding cinv_def by blast
  then obtain i where i: "w_inner w p = Some i" "in_arg i = c" "in_spec0 i = co_id o1" "\<not> in_cIsMain i" "running w c o1 i"
    using st(2) by (auto simp: coro_ok_def)
  have "GetCurCoro w = Ok (Some c)" "IsMainCoro c w = Ok False"
    using st i by (simp_all add: GetCurCoro_def co_self_def GetCoro_def running_def IsMainCoro_def)
  with that st i show thesis by blast
qed

text \<open>\<open>Yield\<close> of the running coroutine schedules its timer and switches to the main routine.\<close>

lemma yield_millis_bounds: "good_time t \<Longrightarrow> 0 < yield_millis t \<and> yield_millis t < LONG_TIMEOUT_TIME"
  by (auto simp: good_time_def yield_millis_def CoroTimeoutTime_def LONG_TIMEOUT_TIME_def)

lemma Coro_Yield_ok:
  assumes cinv: "cinv (Some c) w" and inv: "ts_inv fire w" and t: "good_time t"
    and o1: "w_coro w c = Some o1" and st: "w_stack w = [p, m]"
  shows "\<exists>w'. Coro_Yield res c t w = Ok (None, w') \<and> ts_inv fire w'
     \<and> w' = w\<lparr>ts_data := ts_data w', ts_timers := (ts_timers w)(c \<mapsto> Some (ts_next w)), ts_next := ts_next w + 1,
              ts_maxTimerId := ts_maxTimerId w + 1, ts_heap := ts_heap w',
              w_coro := (w_coro w)(c \<mapsto> yielded_coro o1), w_stack := [m]\<rparr>
     \<and> deadline w' = (deadline w)(c \<mapsto> ts_now w + yield_millis t) \<and> due_items w' \<subseteq> due_items w
     \<and> (\<forall>q d d'. ts_data w q = Some d \<longrightarrow> ts_data w' q = Some d' \<longrightarrow> same_timing d d')
     \<and> set (bh_items (ts_heap w)) \<subseteq> set (bh_items (ts_heap w'))"
proof -
  let ?actual = "if t \<le> 0 then CoroTimeoutTime * 1000 else t"
  let ?o1 = "o1\<lparr>co_yieldTimes := co_yieldTimes o1 + 1\<rparr>"
  let ?w1 = "set_coro c ?o1 w"
  obtain i where run: "running w c o1 i" "GetCurCoro w = Ok (Some c)" "IsMainCoro c w = Ok False"
    using running_coro [OF cinv] o1 by (metis option.inject)
  have ms: "max 0 (?actual div 1000) = yield_millis t" "0 < yield_millis t" using yield_millis_bounds [OF t]
    by (auto simp: yield_millis_def good_time_def CoroTimeoutTime_def)
  have idle: "deadline ?w1 c = None" using run(1) by (simp add: running_def)
  obtain old where old: "ts_timers ?w1 c = Some old" using cinv o1 by (auto simp: cinv_def coro_ok_def)
  have inv1: "ts_inv fire ?w1" using inv by simp
  have cancel: "Timer_Cancel (OnCoroCancel res) c ?w1 = Ok (None, ?w1)"
    by (rule Timer_Cancel_idle [OF inv1 _ idle]) (simp only: old, simp)
  obtain w2 where w2: "Scheduler_Schedule c (yield_millis t) (yield_millis t) ?w1 = Ok (None, w2)" "ts_inv fire w2"
    "w2 = ?w1\<lparr>ts_data := ts_data w2, ts_timers := (ts_timers ?w1)(c \<mapsto> Some (ts_next ?w1)), ts_next := ts_next ?w1 + 1,
              ts_maxTimerId := ts_maxTimerId ?w1 + 1, ts_heap := ts_heap w2\<rparr>"
    "deadline w2 = (deadline ?w1)(c \<mapsto> ts_now ?w1 + yield_millis t)" "due_items w2 \<subseteq> due_items ?w1"
    "\<forall>q d d'. ts_data ?w1 q = Some d \<longrightarrow> ts_data w2 q = Some d' \<longrightarrow> same_timing d d'"
    "set (bh_items (ts_heap ?w1)) \<subseteq> set (bh_items (ts_heap w2))"
    using Schedule_deadline [OF _ old idle, of fire "yield_millis t" "yield_millis t"] inv ms(2) by force
  have sched: "Timer_Schedule (OnCoroCancel res) c ?actual 0 ?w1 = Ok (None, w2)"
    unfolding Timer_Schedule_def cancel obind.simps prod.case option.case Let_def ms(1) using w2(1) by simp
  have f2: "w_coro w2 = (w_coro w)(c \<mapsto> ?o1)" "w_stack w2 = [p, m]" by (subst w2(3), simp add: st)+
  let ?w' = "(set_coro c (yielded_coro o1) w2)\<lparr>w_stack := [m]\<rparr>"
  have o2: "?o1\<lparr>co_yielded := True, co_timeouted := False, co_cancelled := False, co_passData := VNil\<rparr> = yielded_coro o1"
    by (simp add: yielded_coro_def)
  have "Coro_Yield res c t w = Ok (None, ?w')"
    using o1 run sched f2 o2 by (simp add: Coro_Yield_def running_def Let_def co_yield_ct_def)
  moreover have "ts_inv fire ?w'" "deadline ?w' = deadline w2" "due_items ?w' = due_items w2"
    using w2(2) ts_cong [of ?w' w2] by simp_all
  moreover have "?w' = w\<lparr>ts_data := ts_data ?w', ts_timers := (ts_timers w)(c \<mapsto> Some (ts_next w)), ts_next := ts_next w + 1,
              ts_maxTimerId := ts_maxTimerId w + 1, ts_heap := ts_heap ?w', w_coro := (w_coro w)(c \<mapsto> yielded_coro o1), w_stack := [m]\<rparr>"
    by (subst w2(3)) (simp add: set_coro_def)
  ultimately show ?thesis using w2(4-7) by (intro exI [of _ ?w']) simp
qed

text \<open>Running code: it ends, or it reaches a yield, after changes that leave the coroutines alone.\<close>

lemma cm_ops_ok:
  assumes "cm_svc c \<noteq> None"
  shows "\<exists>ret c'. cm_PushPacket packet c = Ok (ret, c') \<and> cm_svc c' \<noteq> None"
    "\<exists>ch c'. cm_GetRpcChannel ip port c = Ok (ch, c') \<and> cm_svc c' \<noteq> None"
  using assms by (auto simp: cm_PushPacket_def cm_GetRpcChannel_def Let_def split: prod.splits option.splits)

lemma same_coros_view:
  "view (w\<lparr>w_globals := g\<rparr>) = (view w)\<lparr>v_globals := g\<rparr>" "view (w\<lparr>w_info := l\<rparr>) = (view w)\<lparr>v_info := l\<rparr>"
  "view (w\<lparr>w_conn := cn\<rparr>) = (view w)\<lparr>v_conn := cn\<rparr>"
proof -
  have "deadline (w\<lparr>w_globals := g\<rparr>) = deadline w" "deadline (w\<lparr>w_info := l\<rparr>) = deadline w" "deadline (w\<lparr>w_conn := cn\<rparr>) = deadline w"
    by (rule ts_cong(1); simp)+
  moreover have "saved_ctx (w\<lparr>w_globals := g\<rparr>) c = saved_ctx w c" "saved_ctx (w\<lparr>w_info := l\<rparr>) c = saved_ctx w c"
    "saved_ctx (w\<lparr>w_conn := cn\<rparr>) c = saved_ctx w c" for c
    by (rule saved_ctx_cong; simp)+
  ultimately show "view (w\<lparr>w_globals := g\<rparr>) = (view w)\<lparr>v_globals := g\<rparr>" "view (w\<lparr>w_info := l\<rparr>) = (view w)\<lparr>v_info := l\<rparr>"
    "view (w\<lparr>w_conn := cn\<rparr>) = (view w)\<lparr>v_conn := cn\<rparr>"
    by (simp_all add: view_def)
qed

definition reaches :: "(nat \<Rightarrow> 'g world \<Rightarrow> 'g world outcome) \<Rightarrow> nat \<Rightarrow> 'g coroutine \<Rightarrow> 'g prog \<Rightarrow> 'g world \<Rightarrow> bool" where
  "reaches res c o1 prog w \<longleftrightarrow> (\<exists>w1 r. same_coros w w1 \<and> exec prog c (coro.truncate o1) (view w) = (r, view w1) \<and> (case r of
       None \<Rightarrow> run prog (Coro_Yield res) w = Ok (None, w1)
     | Some (t, k) \<Rightarrow> good_time t \<and> (\<forall>r. good (k r) True c) \<and> (\<exists>w'. Coro_Yield res c t w1 = Ok (None, w')
           \<and> run prog (Coro_Yield res) w = Ok (Some (c, k), w'))))"

lemma reaches_step:
  assumes "reaches res c o1 p w2" "same_coros w w2" "exec prog c (coro.truncate o1) (view w) = exec p c (coro.truncate o1) (view w2)"
    "run prog (Coro_Yield res) w = run p (Coro_Yield res) w2"
  shows "reaches res c o1 prog w"
proof -
  obtain w1 r where w1: "same_coros w2 w1" "exec p c (coro.truncate o1) (view w2) = (r, view w1)" "case r of
       None \<Rightarrow> run p (Coro_Yield res) w2 = Ok (None, w1)
     | Some (t, k) \<Rightarrow> good_time t \<and> (\<forall>r. good (k r) True c) \<and> (\<exists>w'. Coro_Yield res c t w1 = Ok (None, w')
           \<and> run p (Coro_Yield res) w2 = Ok (Some (c, k), w'))"
    using assms(1) unfolding reaches_def by (elim exE conjE)
  show ?thesis
    unfolding reaches_def assms(3,4) using w1 same_coros_trans [OF assms(2) w1(1)] by (intro exI [of _ w1] exI [of _ r] conjI)
qed

lemma run_split:
  "good prog aw c \<Longrightarrow> cinv (Some c) w \<Longrightarrow> ts_inv fire w \<Longrightarrow> w_coro w c = Some o1 \<Longrightarrow> (aw \<longrightarrow> woken o1) \<Longrightarrow> reaches res c o1 prog w"
proof (induction prog arbitrary: aw w)
  case (Put g prog)
  let ?w = "w\<lparr>w_globals := g\<rparr>"
  have s: "same_coros w ?w"
    unfolding same_coros_def by (rule exI [of _ g], rule exI [of _ "w_info w"], rule exI [of _ "w_conn w"]) simp
  have "reaches res c o1 prog ?w"
    using Put.prems same_coros_cinv [OF s] same_coros_ts(3) [OF s] by (intro Put.IH [of aw]) simp_all
  then show ?case by (rule reaches_step [OF _ s]) (simp_all add: same_coros_view)
next
  case (Info fmt args prog)
  let ?w = "w\<lparr>w_info := w_info w @ [(fmt, args)]\<rparr>"
  have s: "same_coros w ?w"
    unfolding same_coros_def by (rule exI [of _ "w_globals w"], rule exI [of _ "w_info w @ [(fmt, args)]"], rule exI [of _ "w_conn w"]) simp
  have "reaches res c o1 prog ?w"
    using Info.prems same_coros_cinv [OF s] same_coros_ts(3) [OF s] by (intro Info.IH [of aw]) simp_all
  then show ?case by (rule reaches_step [OF _ s]) (simp_all add: same_coros_view)
next
  case (Push packet prog)
  have "cm_svc (w_conn w) \<noteq> None" using Push.prems(2) by (simp add: cinv_def)
  then obtain ret cc where cc: "cm_PushPacket packet (w_conn w) = Ok (ret, cc)" "cm_svc cc \<noteq> None"
    using cm_ops_ok(1) by blast
  let ?w = "w\<lparr>w_conn := cc\<rparr>"
  have s: "same_coros w ?w"
    unfolding same_coros_def using cc(2) by (intro exI [of _ "w_globals w"] exI [of _ "w_info w"] exI [of _ cc]) simp
  have "reaches res c o1 prog ?w"
    using Push.prems same_coros_cinv [OF s] same_coros_ts(3) [OF s] by (intro Push.IH [of aw]) simp_all
  then show ?case by (rule reaches_step [OF _ s]) (simp_all add: same_coros_view cc)
next
  case (Channel ip port k)
  have "cm_svc (w_conn w) \<noteq> None" using Channel.prems(2) by (simp add: cinv_def)
  then obtain ch cc where cc: "cm_GetRpcChannel ip port (w_conn w) = Ok (ch, cc)" "cm_svc cc \<noteq> None"
    using cm_ops_ok(2) by blast
  let ?w = "w\<lparr>w_conn := cc\<rparr>"
  have s: "same_coros w ?w"
    unfolding same_coros_def using cc(2) by (intro exI [of _ "w_globals w"] exI [of _ "w_info w"] exI [of _ cc]) simp
  have "reaches res c o1 (k ch) ?w"
    using Channel.prems same_coros_cinv [OF s] same_coros_ts(3) [OF s] by (intro Channel.IH [of _ aw]) simp_all
  then show ?case by (rule reaches_step [OF _ s]) (simp_all add: same_coros_view cc)
next
  case (CurCoro k)
  have cur: "GetCurCoro w = Ok (Some c)" using running_coro [OF CurCoro.prems(2)] by blast
  have "reaches res c o1 (k (Some c)) w" using CurCoro.prems by (intro CurCoro.IH [of _ aw]) simp_all
  then show ?case by (rule reaches_step [OF _ same_coros_refl]) (simp_all add: cur)
next
  case (Deref a k)
  have "aw \<longrightarrow> woken (coro.truncate o1)" using Deref.prems(5) by (simp add: woken_def coro.truncate_def)
  then have "reaches res c o1 (k (coro.truncate o1)) w" using Deref.prems by (intro Deref.IH [of _ aw]) simp_all
  then show ?case by (rule reaches_step [OF _ same_coros_refl]) (use Deref.prems in simp_all)
next
  case (IsMain a k)
  have main: "IsMainCoro c w = Ok False" using running_coro [OF IsMain.prems(2)] by blast
  have "reaches res c o1 (k False) w" using IsMain.prems by (intro IsMain.IH [of _ aw]) simp_all
  then show ?case by (rule reaches_step [OF _ same_coros_refl]) (use main IsMain.prems in simp_all)
next
  case (YieldOn a t k)
  obtain p m where o1: "w_stack w = [p, m]" using running_coro [OF YieldOn.prems(2)] by metis
  then obtain w' where "Coro_Yield res c t w = Ok (None, w')"
    using Coro_Yield_ok [OF YieldOn.prems(2,3) _ YieldOn.prems(4), where t = t and res = res] YieldOn.prems(1) by auto
  then show ?case using YieldOn.prems(1) same_coros_refl [of w] unfolding reaches_def by (intro exI [of _ w] exI [of _ "Some (t, k)"]) simp
next
  case (Get k)
  have "reaches res c o1 (k (w_globals w)) w" using Get.prems by (intro Get.IH [of _ aw]) simp_all
  then show ?case by (rule reaches_step [OF _ same_coros_refl]) simp_all
next
  case Finish
  then show ?case unfolding reaches_def by (intro exI [of _ w] exI [of _ None]) (simp add: same_coros_refl)
qed simp_all

lemma coro_ok_frame:
  assumes "coro_ok cur w s o1" "cur' = Some s \<longleftrightarrow> cur = Some s" "ts_timers w' s \<noteq> None" "ts_next w \<le> ts_next w'"
    "w_maxCoroId w \<le> w_maxCoroId w'" "deadline w' s = deadline w s"
    "map_of (w_coros w') (co_id o1) = map_of (w_coros w) (co_id o1)"
    "map_of (w_recycle w') (co_id o1) = map_of (w_recycle w) (co_id o1)"
    "\<And>p i. co_inner o1 = Some p \<Longrightarrow> w_inner w p = Some i \<Longrightarrow> in_arg i = s \<Longrightarrow> w_inner w' p = Some i"
  shows "coro_ok cur' w' s o1"
proof -
  obtain p i where p: "co_inner o1 = Some p" "w_inner w p = Some i" "in_arg i = s" "in_spec0 i = co_id o1" "\<not> in_cIsMain i"
    "if cur = Some s then running w s o1 i
     else if map_of (w_coros w) (co_id o1) = Some s then suspended w s o1 i else ended w s o1 i"
    using assms(1) by (auto simp: coro_ok_def)
  have "running w' s o1 i = running w s o1 i" "suspended w' s o1 i = suspended w s o1 i" "ended w' s o1 i = ended w s o1 i"
    by (simp_all add: running_def suspended_def ended_def assms(6-8))
  then show ?thesis
    unfolding coro_ok_def assms(2,7) using assms(1,3-5) p assms(9) [OF p(1-3)] by (auto simp: coro_ok_def)
qed

lemma main_routine:
  assumes "cinv None w" "w_coro w c = Some o1"
  obtains m im where "w_stack w = [m]" "w_inner w m = Some im" "is_main im"
  using assms by (auto simp: cinv_def stack_ok_def)

lemma cinv_coro: "cinv cur w \<Longrightarrow> w_coro w c = Some o1 \<Longrightarrow> coro_ok cur w c o1"
  by (simp add: cinv_def)

lemma tables_ok_cong:
  assumes "tables_ok w" "w_coros w' = w_coros w" "w_recycle w' = w_recycle w"
    "\<And>s o1. w_coro w s = Some o1 \<Longrightarrow> \<exists>o2. w_coro w' s = Some o2 \<and> co_id o2 = co_id o1"
  shows "tables_ok w'"
  using assms(1,4) unfolding tables_ok_def assms(2,3) by metis

lemma tables_okD:
  assumes "tables_ok w"
  shows "distinct (map fst (w_coros w))" "distinct (map fst (w_recycle w))"
    "map_of (w_coros w) n = Some c \<Longrightarrow> map_of (w_recycle w) n = None"
    "map_of (w_coros w) n = Some c \<Longrightarrow> \<exists>o1. w_coro w c = Some o1 \<and> co_id o1 = n"
    "map_of (w_recycle w) n = Some c \<Longrightarrow> \<exists>o1. w_coro w c = Some o1 \<and> co_id o1 = n"
  using assms unfolding tables_ok_def by (blast, blast, metis option.distinct(1), blast, blast)

lemma suspended_coro:
  assumes "cinv None w" "w_coro w c = Some o1" "map_of (w_coros w) (co_id o1) = Some c"
  obtains p i where "co_inner o1 = Some p" "w_inner w p = Some i" "in_arg i = c" "in_spec0 i = co_id o1" "\<not> in_cIsMain i"
    "suspended w c o1 i"
  using cinv_coro [OF assms(1,2)] assms(3) by (auto simp: coro_ok_def)

text \<open>A suspended coroutine whose timer has been stopped is put on the stack.\<close>

definition waking :: "nat \<Rightarrow> 'g coroutine \<Rightarrow> 'g world \<Rightarrow> 'g world \<Rightarrow> bool" where
  "waking c o2 w0 w \<longleftrightarrow> w_inner w = w_inner w0 \<and> w_stack w = w_stack w0 \<and> w_coros w = w_coros w0 \<and> w_recycle w = w_recycle w0
     \<and> w_maxCoroId w = w_maxCoroId w0 \<and> w_conn w = w_conn w0 \<and> w_globals w = w_globals w0 \<and> w_info w = w_info w0
     \<and> ts_now w = ts_now w0 \<and> w_coro w = (w_coro w0)(c \<mapsto> o2)
     \<and> ts_timers w = ts_timers w0 \<and> ts_next w = ts_next w0 \<and> deadline w = (deadline w0)(c := None)"

lemma push_cinv:
  assumes cinv: "cinv None w0" and o1: "w_coro w0 c = Some o1" "map_of (w_coros w0) (co_id o1) = Some c"
    and wk: "waking c o2 w0 w" and o2: "co_id o2 = co_id o1" "co_inner o2 = co_inner o1" "\<not> co_yielded o2"
    and p: "co_inner o1 = Some p" "w_inner w0 p = Some i"
  shows "cinv (Some c) (w\<lparr>w_stack := p # w_stack w, w_inner := (w_inner w)(p \<mapsto> i\<lparr>in_cStart := True\<rparr>)\<rparr>)"
proof -
  let ?w = "w\<lparr>w_stack := p # w_stack w, w_inner := (w_inner w)(p \<mapsto> i\<lparr>in_cStart := True\<rparr>)\<rparr>"
  have i: "in_arg i = c" "in_spec0 i = co_id o1" "\<not> in_cIsMain i" "suspended w0 c o1 i"
    using suspended_coro [OF cinv o1] p by (metis option.inject)+
  obtain m im where m: "w_stack w0 = [m]" "w_inner w0 m = Some im" "is_main im" using main_routine [OF cinv o1(1)] by blast
  have mp: "m \<noteq> p" using m p i(3) by auto
  note eqs = wk [unfolded waking_def]
  have dl: "deadline ?w = (deadline w0)(c := None)" using eqs ts_cong(1) [of ?w w] by simp
  have ok: "coro_ok (Some c) ?w s os" if "w_coro ?w s = Some os" for s os
  proof (cases "s = c")
    case True
    then have "os = o2" using that eqs by simp
    moreover have "coro_ok None w0 c o1" by (rule cinv_coro [OF cinv o1(1)])
    ultimately show ?thesis
      using True o1 o2 p i eqs dl by (auto simp: coro_ok_def running_def suspended_def)
  next
    case False
    then have s: "w_coro w0 s = Some os" using that eqs by simp
    have "coro_ok None w0 s os" by (rule cinv_coro [OF cinv s])
    then show ?thesis
    proof (rule coro_ok_frame)
      show "ts_timers ?w s \<noteq> None" using \<open>coro_ok None w0 s os\<close> eqs by (simp add: coro_ok_def)
      show "w_inner ?w p' = Some i'" if "co_inner os = Some p'" "w_inner w0 p' = Some i'" "in_arg i' = s" for p' i'
        using that p i(1) False eqs by auto
    qed (use False eqs dl in auto)
  qed
  show ?thesis
    unfolding cinv_def
  proof (intro conjI allI impI)
    show "stack_ok (Some c) ?w" using eqs m mp p(1) o2(2) by (auto simp: stack_ok_def)
    show "tables_ok ?w"
      by (rule tables_ok_cong [of w0]) (use cinv eqs o1 o2 in \<open>auto simp: cinv_def\<close>)
    show "w_coro ?w s \<noteq> None" if "ts_timers ?w s \<noteq> None" for s
      using that cinv eqs by (auto simp: cinv_def)
    show "q < ts_next ?w" if "w_inner ?w q = Some j" for q j
      using that cinv eqs p by (auto simp: cinv_def split: if_splits)
    show "d - ts_now ?w < LONG_TIMEOUT_TIME" if "deadline ?w s = Some d" for s d
      using that cinv eqs dl by (auto simp: cinv_def split: if_splits)
    show "cm_svc (w_conn ?w) \<noteq> None" using cinv eqs by (simp add: cinv_def)
  qed (use ok in blast)
qed

text \<open>The two ways in which a coroutine gives the control back.\<close>

lemma leave_yield:
  assumes cinv: "cinv (Some c) w" and t: "good_time t" and k: "\<forall>r. good (k r) True c"
    and o1: "w_coro w c = Some o1" "co_inner o1 = Some p" "w_inner w p = Some i" "w_stack w = [p, m]"
    and w': "w' = w\<lparr>ts_data := ts_data w', ts_timers := (ts_timers w)(c \<mapsto> Some (ts_next w)), ts_next := ts_next w + 1,
              ts_maxTimerId := ts_maxTimerId w + 1, ts_heap := ts_heap w',
              w_coro := (w_coro w)(c \<mapsto> yielded_coro o1), w_stack := [m]\<rparr>"
      "deadline w' = (deadline w)(c \<mapsto> ts_now w + yield_millis t)"
  shows "co_leave p (Some (c, k), w') = Ok (w'\<lparr>w_inner := (w_inner w)(p \<mapsto> i\<lparr>in_ctx := Some (c, k)\<rparr>)\<rparr>)"
    "cinv None (w'\<lparr>w_inner := (w_inner w)(p \<mapsto> i\<lparr>in_ctx := Some (c, k)\<rparr>)\<rparr>)"
proof -
  let ?w = "w'\<lparr>w_inner := (w_inner w)(p \<mapsto> i\<lparr>in_ctx := Some (c, k)\<rparr>)\<rparr>"
  have eqs: "w_inner w' = w_inner w" "w_stack w' = [m]" "w_coros w' = w_coros w" "w_recycle w' = w_recycle w"
    "w_maxCoroId w' = w_maxCoroId w" "w_conn w' = w_conn w" "ts_now w' = ts_now w"
    "w_coro w' = (w_coro w)(c \<mapsto> yielded_coro o1)" "ts_timers w' = (ts_timers w)(c \<mapsto> Some (ts_next w))"
    "ts_next w' = ts_next w + 1"
    by (subst w'(1), simp)+
  have dl: "deadline ?w = (deadline w)(c \<mapsto> ts_now w + yield_millis t)" using w'(2) ts_cong(1) [of ?w w'] by simp
  show "co_leave p (Some (c, k), w') = Ok ?w" using o1(3) eqs by (simp add: co_leave_def)
  have i: "in_arg i = c" "in_spec0 i = co_id o1" "\<not> in_cIsMain i" "running w c o1 i"
    using running_coro [OF cinv] o1 by (metis option.inject)+
  obtain im where m: "w_inner w m = Some im" "is_main im" "m \<noteq> p"
  proof -
    obtain p' m' im' i' where r: "w_stack w = [p', m']" "w_inner w m' = Some im'" "is_main im'" using running_coro [OF cinv] by metis
    then have "m' = m" "p' = p" using o1(4) by simp_all
    moreover have "m' \<noteq> p'" using r o1(3) i(3) calculation by auto
    ultimately show thesis using that r by blast
  qed
  have yc: "co_id (yielded_coro o1) = co_id o1" "co_inner (yielded_coro o1) = co_inner o1" "co_yielded (yielded_coro o1)"
    "\<not> co_timeouted (yielded_coro o1)" "\<not> co_cancelled (yielded_coro o1)"
    by (simp_all add: yielded_coro_def)
  have ok: "coro_ok None ?w s os" if "w_coro ?w s = Some os" for s os
  proof (cases "s = c")
    case True
    then have "os = yielded_coro o1" using that eqs by simp
    moreover have "coro_ok (Some c) w c o1" by (rule cinv_coro [OF cinv o1(1)])
    ultimately show ?thesis
      using True o1 i eqs dl yc k by (auto simp: coro_ok_def running_def suspended_def)
  next
    case False
    then have s: "w_coro w s = Some os" using that eqs by simp
    have "coro_ok (Some c) w s os" by (rule cinv_coro [OF cinv s])
    then show ?thesis
    proof (rule coro_ok_frame)
      show "ts_timers ?w s \<noteq> None" using \<open>coro_ok (Some c) w s os\<close> eqs by (simp add: coro_ok_def)
      show "w_inner ?w p' = Some i'" if "co_inner os = Some p'" "w_inner w p' = Some i'" "in_arg i' = s" for p' i'
        using that o1(3) i(1) False eqs by auto
    qed (use False eqs dl in auto)
  qed
  show "cinv None ?w"
    unfolding cinv_def
  proof (intro conjI allI impI)
    show "stack_ok None ?w" using eqs m by (auto simp: stack_ok_def)
    show "tables_ok ?w" by (rule tables_ok_cong [of w]) (use cinv eqs o1 yc in \<open>auto simp: cinv_def\<close>)
    show "w_coro ?w s \<noteq> None" if "ts_timers ?w s \<noteq> None" for s
      using that cinv eqs by (auto simp: cinv_def split: if_splits)
    show "q < ts_next ?w" if "w_inner ?w q = Some j" for q j
      using that cinv eqs o1(3) by (auto simp: cinv_def less_Suc_eq split: if_splits)
    show "d - ts_now ?w < LONG_TIMEOUT_TIME" if "deadline ?w s = Some d" for s d
      using that cinv eqs dl yield_millis_bounds [OF t] by (auto simp: cinv_def split: if_splits)
    show "cm_svc (w_conn ?w) \<noteq> None" using cinv eqs by (simp add: cinv_def)
  qed (use ok in blast)
qed

lemma map_of_sm_emplace: "map_of m k = None \<Longrightarrow> map_of (sm_emplace k v m) k' = (if k' = k then Some v else map_of m k')"
proof -
  assume none: "map_of m k = None"
  have "map_of (insort_key fst (k, v) m) k' = (if k' = k then Some v else map_of m k')" using none
  proof (induction m)
    case (Cons e m)
    then show ?case by (cases e) (auto split: if_splits)
  qed simp
  then show ?thesis using none by (simp add: sm_emplace_def)
qed

lemma distinct_sm_emplace: "distinct (map fst m) \<Longrightarrow> distinct (map fst (sm_emplace k v m))"
  by (auto simp: sm_emplace_def distinct_insort map_of_eq_None_iff distinct_map set_insort_key inj_on_def split: option.splits)
    (metis fst_conv image_eqI)+

lemma leave_finish:
  assumes cinv: "cinv (Some c) w"
    and o1: "w_coro w c = Some o1" "co_inner o1 = Some p" "w_inner w p = Some i" "w_stack w = [p, m]"
  defines "w' \<equiv> w\<lparr>w_recycle := sm_emplace (co_id o1) c (w_recycle w), w_coros := al_erase (co_id o1) (w_coros w),
      w_inner := (w_inner w)(p \<mapsto> i\<lparr>in_cEnd := True, in_ctx := None\<rparr>), w_stack := [m]\<rparr>"
  shows "co_leave p (None, w) = Ok w'" "cinv None w'"
proof -
  have i: "in_arg i = c" "in_spec0 i = co_id o1" "\<not> in_cIsMain i" "running w c o1 i"
    using running_coro [OF cinv] o1 by (metis option.inject)+
  obtain im where m: "w_inner w m = Some im" "is_main im" "m \<noteq> p"
  proof -
    obtain p' m' im' i' where r: "w_stack w = [p', m']" "w_inner w m' = Some im'" "is_main im'" using running_coro [OF cinv] by metis
    then have "m' = m" "p' = p" using o1(4) by simp_all
    moreover have "m' \<noteq> p'" using r o1(3) i(3) calculation by auto
    ultimately show thesis using that r by blast
  qed
  have tab: "tables_ok w" using cinv by (simp add: cinv_def)
  have none: "map_of (w_recycle w) (co_id o1) = None" using tab i(4) by (force simp: tables_ok_def running_def)
  show "co_leave p (None, w) = Ok w'"
    using o1 i(1) none by (simp add: co_leave_def MaskWillRecycle_def co_yield_ct_def w'_def)
  have dl: "deadline w' = deadline w" by (rule ts_cong(1)) (simp_all add: w'_def)
  have eqs: "w_coro w' = w_coro w" "ts_timers w' = ts_timers w" "ts_next w' = ts_next w" "ts_now w' = ts_now w"
    "w_maxCoroId w' = w_maxCoroId w" "w_inner w' = (w_inner w)(p \<mapsto> i\<lparr>in_cEnd := True, in_ctx := None\<rparr>)" "w_conn w' = w_conn w"
    by (simp_all add: w'_def)
  have rc: "map_of (w_recycle w') n = (if n = co_id o1 then Some c else map_of (w_recycle w) n)"
    and cr: "map_of (w_coros w') n = (if n = co_id o1 then None else map_of (w_coros w) n)" for n
    by (simp_all add: w'_def map_of_erase map_of_sm_emplace [OF none])
  have idc: "co_id os \<noteq> co_id o1" if "w_coro w s = Some os" "s \<noteq> c" for s os
  proof
    assume eq: "co_id os = co_id o1"
    have "map_of (w_coros w) (co_id o1) = Some c" using i(4) by (simp add: running_def)
    moreover have "coro_ok (Some c) w s os" by (rule cinv_coro [OF cinv that(1)])
    ultimately show False using that(2) eq none by (auto simp: coro_ok_def ended_def split: if_splits)
  qed
  have ok: "coro_ok None w' s os" if s: "w_coro w' s = Some os" for s os
  proof (cases "s = c")
    case True
    then have "os = o1" using s o1 eqs by simp
    moreover have "coro_ok (Some c) w c o1" by (rule cinv_coro [OF cinv o1(1)])
    ultimately show ?thesis
      using True o1 i eqs dl rc cr by (auto simp: coro_ok_def running_def ended_def)
  next
    case False
    then have s': "w_coro w s = Some os" using s eqs by simp
    have "coro_ok (Some c) w s os" by (rule cinv_coro [OF cinv s'])
    then show ?thesis
    proof (rule coro_ok_frame)
      show "ts_timers w' s \<noteq> None" using \<open>coro_ok (Some c) w s os\<close> eqs by (simp add: coro_ok_def)
      show "w_inner w' p' = Some i'" if "co_inner os = Some p'" "w_inner w p' = Some i'" "in_arg i' = s" for p' i'
        using that o1(3) i(1) False eqs by auto
    qed (use False eqs dl rc cr idc [OF s' False] in auto)
  qed
  show "cinv None w'"
    unfolding cinv_def
  proof (intro conjI allI impI)
    show "stack_ok None w'" using m by (auto simp: stack_ok_def w'_def)
    have "\<exists>o1. w_coro w s = Some o1 \<and> co_id o1 = n" if "map_of (w_coros w') n = Some s \<or> map_of (w_recycle w') n = Some s" for n s
      using that tab o1(1) unfolding rc cr tables_ok_def by (metis option.inject option.simps(3))
    then show "tables_ok w'"
      using tab unfolding tables_ok_def eqs by (auto simp: rc cr) (simp_all add: w'_def distinct_sm_emplace)
    show "w_coro w' s \<noteq> None" if "ts_timers w' s \<noteq> None" for s using that cinv eqs by (simp add: cinv_def)
    show "q < ts_next w'" if "w_inner w' q = Some j" for q j
      using that cinv eqs o1(3) by (auto simp: cinv_def split: if_splits)
    show "d - ts_now w' < LONG_TIMEOUT_TIME" if "deadline w' s = Some d" for s d using that cinv eqs dl by (simp add: cinv_def)
    show "cm_svc (w_conn w') \<noteq> None" using cinv eqs by (simp add: cinv_def)
  qed (use ok in blast)
qed

text \<open>
  What a resumption may do to the world: nothing to the other coroutines, their contexts and their
  timers; and the coroutine itself has run once and is suspended again or has ended.
\<close>

definition resumed :: "nat \<Rightarrow> 'g world \<Rightarrow> 'g world \<Rightarrow> bool" where
  "resumed c w w' \<longleftrightarrow> ts_now w' = ts_now w \<and> ts_enabled w' = ts_enabled w \<and> w_maxCoroId w' = w_maxCoroId w
     \<and> (\<forall>s. s \<noteq> c \<longrightarrow> w_coro w' s = w_coro w s \<and> saved_ctx w' s = saved_ctx w s \<and> deadline w' s = deadline w s)
     \<and> (\<forall>dl. deadline w' c = Some dl \<longrightarrow> ts_now w < dl) \<and> due_items w' \<subseteq> due_items w
     \<and> (\<forall>p d d'. ts_data w p = Some d \<longrightarrow> ts_data w' p = Some d' \<longrightarrow> same_timing d d')
     \<and> set (bh_items (ts_heap w)) \<subseteq> set (bh_items (ts_heap w'))"

lemma resumedD:
  assumes "resumed c w w'"
  shows "ts_now w' = ts_now w" "ts_enabled w' = ts_enabled w" "w_maxCoroId w' = w_maxCoroId w"
    "s \<noteq> c \<Longrightarrow> w_coro w' s = w_coro w s" "s \<noteq> c \<Longrightarrow> saved_ctx w' s = saved_ctx w s"
    "s \<noteq> c \<Longrightarrow> deadline w' s = deadline w s" "deadline w' c = Some dl \<Longrightarrow> ts_now w < dl"
    "due_items w' \<subseteq> due_items w" "ts_data w p = Some d \<Longrightarrow> ts_data w' p = Some d' \<Longrightarrow> same_timing d d'"
    "set (bh_items (ts_heap w)) \<subseteq> set (bh_items (ts_heap w'))"
  using assms unfolding resumed_def by blast+

lemma saved_ctx_other:
  assumes "cinv cur w" "w_coro w s = Some os" "s \<noteq> c" "w_inner w p = Some i" "in_arg i = c" "w_coro w' s = w_coro w s"
    "w_inner w' = (w_inner w)(p \<mapsto> i')"
  shows "saved_ctx w' s = saved_ctx w s"
proof -
  obtain q j where "co_inner os = Some q" "w_inner w q = Some j" "in_arg j = s"
    using cinv_coro [OF assms(1,2)] by (auto simp: coro_ok_def)
  moreover from this have "q \<noteq> p" using assms(3-5) by auto
  ultimately show ?thesis using assms(2,6,7) by (simp add: saved_ctx_def)
qed

lemma run_leave_finish:
  assumes cinv: "cinv (Some c) w" and inv: "ts_inv fire w" and o1: "w_coro w c = Some o1" "co_inner o1 = Some p"
    and w1: "same_coros w w1" "exec prog c (coro.truncate o1) (view w) = (None, view w1)"
    and run: "run prog (Coro_Yield res) w = Ok (None, w1)"
  shows "\<exists>w'. obind (run prog (Coro_Yield res) w) (co_leave p) = Ok w' \<and> cinv None w' \<and> ts_inv fire w' \<and> resumed c w w'
     \<and> view w' = settle c o1 (exec prog c (coro.truncate o1) (view w))"
proof -
  obtain i m where p: "w_inner w p = Some i" "w_stack w = [p, m]" "in_arg i = c" "running w c o1 i"
    using running_coro [OF cinv] o1 by (metis option.inject)
  note s = same_coros_fields [OF w1(1)] same_coros_ts [OF w1(1)]
  have cinv1: "cinv (Some c) w1" by (rule same_coros_cinv [OF w1(1) cinv])
  have inv1: "ts_inv fire w1" using inv s by simp
  have p1: "w_coro w1 c = Some o1" "w_inner w1 p = Some i" "w_stack w1 = [p, m]" using s o1 p by simp_all
  define w' where "w' = w1\<lparr>w_recycle := sm_emplace (co_id o1) c (w_recycle w1), w_coros := al_erase (co_id o1) (w_coros w1),
    w_inner := (w_inner w1)(p \<mapsto> i\<lparr>in_cEnd := True, in_ctx := None\<rparr>), w_stack := [m]\<rparr>"
  note fin = leave_finish [OF cinv1 p1(1) o1(2) p1(2,3), folded w'_def]
  have ts: "deadline w' = deadline w" "due_items w' = due_items w" "ts_inv fire w' \<longleftrightarrow> ts_inv fire w"
    using ts_cong [of w' w1] s by (simp_all add: w'_def)
  have f: "w_coro w' = w_coro w" "w_inner w' = (w_inner w)(p \<mapsto> i\<lparr>in_cEnd := True, in_ctx := None\<rparr>)"
    "ts_data w' = ts_data w" "ts_now w' = ts_now w" "ts_enabled w' = ts_enabled w" "w_maxCoroId w' = w_maxCoroId w"
    "ts_heap w' = ts_heap w"
    using s by (simp_all add: w'_def)
  have ctx: "saved_ctx w' x = saved_ctx w x" if "x \<noteq> c" for x
    using saved_ctx_other [OF cinv _ that p(1,3) _ f(2)] f(1) by (cases "w_coro w x") (auto simp: saved_ctx_def)
  then have "resumed c w w'" using p(4) by (simp add: resumed_def ts f running_def same_timing_def)
  moreover have "view w' = settle c o1 (exec prog c (coro.truncate o1) (view w))"
  proof (rule view_eqI)
    have "map_of (w_recycle w1) (co_id o1) = None"
      using tables_okD(3) [of w "co_id o1" c] cinv p(4) s by (simp add: cinv_def running_def)
    then show "v_dead (view w') n = v_dead (settle c o1 (exec prog c (coro.truncate o1) (view w))) n" for n
      by (simp add: w1(2) settle_def w'_def map_of_sm_emplace)
    show "v_cont (view w') x = v_cont (settle c o1 (exec prog c (coro.truncate o1) (view w))) x" for x
    proof (cases "x = c")
      case True
      then show ?thesis using f(1,2) o1 by (simp add: w1(2) settle_def saved_ctx_def)
    next
      case False
      then show ?thesis using ctx [OF False] saved_ctx_cong [of w1 x w] s by (simp add: w1(2) settle_def)
    qed
  qed (simp_all add: w1(2) settle_def ts f s, simp_all add: w'_def map_of_erase s)
  ultimately show ?thesis using run fin ts(3) inv by auto
qed

lemma run_leave_yield:
  assumes cinv: "cinv (Some c) w" and inv: "ts_inv fire w" and o1: "w_coro w c = Some o1" "co_inner o1 = Some p"
    and w1: "same_coros w w1" "exec prog c (coro.truncate o1) (view w) = (Some (t, k), view w1)"
    and y: "good_time t" "\<forall>r. good (k r) True c" "Coro_Yield res c t w1 = Ok (None, w2)"
      "run prog (Coro_Yield res) w = Ok (Some (c, k), w2)"
  shows "\<exists>w'. obind (run prog (Coro_Yield res) w) (co_leave p) = Ok w' \<and> cinv None w' \<and> ts_inv fire w' \<and> resumed c w w'
     \<and> view w' = settle c o1 (exec prog c (coro.truncate o1) (view w))"
proof -
  obtain i m where p: "w_inner w p = Some i" "w_stack w = [p, m]" "in_arg i = c" "running w c o1 i"
    using running_coro [OF cinv] o1 by (metis option.inject)
  note s = same_coros_fields [OF w1(1)] same_coros_ts [OF w1(1)]
  have cinv1: "cinv (Some c) w1" by (rule same_coros_cinv [OF w1(1) cinv])
  have inv1: "ts_inv fire w1" using inv s by simp
  have p1: "w_coro w1 c = Some o1" "w_inner w1 p = Some i" "w_stack w1 = [p, m]" using s o1 p by simp_all
  obtain w2': "ts_inv fire w2" "w2 = w1\<lparr>ts_data := ts_data w2, ts_timers := (ts_timers w1)(c \<mapsto> Some (ts_next w1)),
      ts_next := ts_next w1 + 1, ts_maxTimerId := ts_maxTimerId w1 + 1, ts_heap := ts_heap w2,
      w_coro := (w_coro w1)(c \<mapsto> yielded_coro o1), w_stack := [m]\<rparr>"
    "deadline w2 = (deadline w1)(c \<mapsto> ts_now w1 + yield_millis t)" "due_items w2 \<subseteq> due_items w1"
    "\<forall>q d d'. ts_data w1 q = Some d \<longrightarrow> ts_data w2 q = Some d' \<longrightarrow> same_timing d d'"
    "set (bh_items (ts_heap w1)) \<subseteq> set (bh_items (ts_heap w2))"
    using Coro_Yield_ok [OF cinv1 inv1 y(1) p1(1,3), of res] y(3) by auto
  let ?w = "w2\<lparr>w_inner := (w_inner w1)(p \<mapsto> i\<lparr>in_ctx := Some (c, k)\<rparr>)\<rparr>"
  note fin = leave_yield [OF cinv1 y(1,2) p1(1) o1(2) p1(2,3) w2'(2,3)]
  have ts: "deadline ?w = deadline w2" "due_items ?w = due_items w2" "ts_inv fire ?w \<longleftrightarrow> ts_inv fire w2"
    using ts_cong [of ?w w2] by simp_all
  have f: "w_coro ?w = (w_coro w)(c \<mapsto> yielded_coro o1)" "w_inner ?w = (w_inner w)(p \<mapsto> i\<lparr>in_ctx := Some (c, k)\<rparr>)"
    "ts_now ?w = ts_now w" "ts_enabled ?w = ts_enabled w" "w_maxCoroId ?w = w_maxCoroId w"
    by (subst w2'(2), simp add: s)+
  have ctx: "saved_ctx ?w x = saved_ctx w x" if "x \<noteq> c" for x
    using saved_ctx_other [OF cinv _ that p(1,3) _ f(2)] f(1) that by (cases "w_coro w x") (auto simp: saved_ctx_def)
  then have "resumed c w ?w"
    unfolding resumed_def ts(1,2) f using w2'(3-6) s yield_millis_bounds [OF y(1)] by auto
  moreover have f2: "w_coros ?w = w_coros w" "w_recycle ?w = w_recycle w" "w_globals ?w = w_globals w1" "w_info ?w = w_info w1"
    "w_conn ?w = w_conn w1"
    by (subst w2'(2), simp add: s)+
  moreover have "view ?w = settle c o1 (exec prog c (coro.truncate o1) (view w))"
  proof (rule view_eqI)
    show "v_cont (view ?w) x = v_cont (settle c o1 (exec prog c (coro.truncate o1) (view w))) x" for x
    proof (cases "x = c")
      case True
      have "co_inner (yielded_coro o1) = Some p" using o1(2) by (simp add: yielded_coro_def)
      then have "saved_ctx ?w c = Some (c, k)" using f(1,2) by (simp add: saved_ctx_def)
      then show ?thesis using True by (simp add: w1(2) settle_def)
    next
      case False
      then show ?thesis using ctx [OF False] saved_ctx_cong [of w1 x w] s by (simp add: w1(2) settle_def)
    qed
  qed (simp_all only: view_sel ts(1) f f2, simp_all add: w1(2) settle_def w2'(3) s)
  ultimately show ?thesis using y(4) fin ts(3) w2'(1) by auto
qed

lemma run_to_leave:
  assumes cinv: "cinv (Some c) w" and inv: "ts_inv fire w" and prog: "good prog aw c" "aw \<longrightarrow> woken o1"
    and o1: "w_coro w c = Some o1" "co_inner o1 = Some p"
  shows "\<exists>w'. obind (run prog (Coro_Yield res) w) (co_leave p) = Ok w' \<and> cinv None w' \<and> ts_inv fire w' \<and> resumed c w w'
     \<and> view w' = settle c o1 (exec prog c (coro.truncate o1) (view w))"
proof -
  obtain w1 r where w1: "same_coros w w1" "exec prog c (coro.truncate o1) (view w) = (r, view w1)" "case r of
       None \<Rightarrow> run prog (Coro_Yield res) w = Ok (None, w1)
     | Some (t, k) \<Rightarrow> good_time t \<and> (\<forall>r. good (k r) True c) \<and> (\<exists>w'. Coro_Yield res c t w1 = Ok (None, w')
           \<and> run prog (Coro_Yield res) w = Ok (Some (c, k), w'))"
    using run_split [OF prog(1) cinv inv o1(1) prog(2), of res] unfolding reaches_def by (elim exE conjE)
  show ?thesis
  proof (cases r)
    case None
    then show ?thesis using run_leave_finish [OF cinv inv o1 w1(1)] w1(2,3) by simp
  next
    case (Some tk)
    then obtain t k w2 where tk: "r = Some (t, k)" and y: "good_time t" "\<forall>r. good (k r) True c" "Coro_Yield res c t w1 = Ok (None, w2)"
      "run prog (Coro_Yield res) w = Ok (Some (c, k), w2)"
      using w1(3) by (cases tk) auto
    show ?thesis by (rule run_leave_yield [OF cinv inv o1 w1(1) w1(2) [unfolded tk] y])
  qed
qed

lemma co_resume_ok:
  assumes cinv: "cinv None w0" and o1: "w_coro w0 c = Some o1" "map_of (w_coros w0) (co_id o1) = Some c"
    and wk: "waking c o2 w0 w" and inv: "ts_inv fire w"
    and o2: "co_id o2 = co_id o1" "co_inner o2 = co_inner o1" "co_entry o2 (co_args o2) = co_entry o1 (co_args o1)" "\<not> co_yielded o2"
    and p: "co_inner o1 = Some p" "w_inner w0 p = Some i" "in_cStart i \<longrightarrow> woken o2"
  shows "\<exists>w'. co_resume (Coro_Yield res) p w = Ok w' \<and> cinv None w' \<and> ts_inv fire w' \<and> resumed c w w'
     \<and> view w' = v_run c o2 (view w0)"
proof -
  let ?w = "w\<lparr>w_stack := p # w_stack w, w_inner := (w_inner w)(p \<mapsto> i\<lparr>in_cStart := True\<rparr>)\<rparr>"
  have cinv1: "cinv (Some c) ?w" by (rule push_cinv [OF cinv o1 wk o2(1,2,4) p(1,2)])
  have i: "in_arg i = c" "suspended w0 c o1 i" using suspended_coro [OF cinv o1] p by (metis option.inject)+
  note eqs = wk [unfolded waking_def]
  have ts: "deadline ?w = deadline w" "due_items ?w = due_items w" "ts_inv fire ?w \<longleftrightarrow> ts_inv fire w"
    using ts_cong [of ?w w] by simp_all
  obtain m where m: "w_stack w = [m]" using main_routine [OF cinv o1(1)] eqs by auto
  define prog where "prog = (if in_cStart i then snd (the (in_ctx i)) (if co_timeouted o2 \<or> co_cancelled o2 then Some ERROR_UNKNOWN else None)
     else co_entry o2 (co_args o2))"
  have good: "good prog (in_cStart i) c" using i(2) o2(3) by (auto simp: prog_def suspended_def split: if_splits)
  have eq: "co_resume (Coro_Yield res) p w = obind (run prog (Coro_Yield res) ?w) (co_leave p)"
  proof -
    have "w_inner w p = Some i" "w_coro w c = Some o2" using eqs p by simp_all
    with m i o2(3,4) show ?thesis by (auto simp: co_resume_def Let_def prog_def suspended_def split: if_splits)
  qed
  have oc: "w_coro ?w c = Some o2" "co_inner o2 = Some p" using eqs o2(2) p(1) by simp_all
  have inv1: "ts_inv fire ?w" using inv ts by simp
  obtain w' where w': "obind (run prog (Coro_Yield res) ?w) (co_leave p) = Ok w'" "cinv None w'" "ts_inv fire w'"
    "resumed c ?w w'" "view w' = settle c o2 (exec prog c (coro.truncate o2) (view ?w))"
    using run_to_leave [OF cinv1 inv1 good p(3) oc, of res] by blast
  have ctx: "saved_ctx ?w s = saved_ctx w s" if "s \<noteq> c" for s
  proof (cases "w_coro w s")
    case (Some os)
    then have os: "w_coro w0 s = Some os" using eqs that by simp
    obtain q j where "co_inner os = Some q" "w_inner w0 q = Some j" "in_arg j = s"
      using cinv_coro [OF cinv os] by (auto simp: coro_ok_def)
    then show ?thesis using Some p(2) i(1) that eqs by (auto simp: saved_ctx_def)
  qed (simp add: saved_ctx_def)
  then have "resumed c w w'" using w'(4) unfolding resumed_def ts by simp
  moreover have "view w' = v_run c o2 (view w0)"
  proof -
    have "saved_ctx w0 c = in_ctx i" using o1(1) p(1,2) by (simp add: saved_ctx_def)
    then have "prog = resume_prog c o2 (view w0)" using i(2) by (auto simp: prog_def resume_prog_def suspended_def split: if_splits)
    moreover have "view ?w = (view w0)\<lparr>v_coro := (w_coro w0)(c \<mapsto> o2), v_dl := (deadline w0)(c := None)\<rparr>"
    proof (rule view_eqI)
      have "saved_ctx ?w c = in_ctx i" using oc by (simp add: saved_ctx_def)
      moreover have "saved_ctx w s = saved_ctx w0 s" if "s \<noteq> c" for s using that eqs by (intro saved_ctx_cong) simp_all
      ultimately show "v_cont (view ?w) s = v_cont ((view w0)\<lparr>v_coro := (w_coro w0)(c \<mapsto> o2), v_dl := (deadline w0)(c := None)\<rparr>) s" for s
        using ctx \<open>saved_ctx w0 c = in_ctx i\<close> by (cases "s = c") simp_all
    qed (simp_all only: view_sel ts(1), simp_all add: eqs)
    ultimately show ?thesis using w'(5) by (simp add: v_run_def v_exec_def)
  qed
  ultimately show ?thesis unfolding eq using w' by blast
qed

text \<open>\<open>Resume\<close> of a suspended coroutine: its timer is stopped and its code runs to the next yield.\<close>

lemma awake_coro_fields [simp]:
  "co_id (awake_coro v o1) = co_id o1" "co_inner (awake_coro v o1) = co_inner o1" "co_entry (awake_coro v o1) = co_entry o1" "co_args (awake_coro v o1) = co_args o1"
  "\<not> co_yielded (awake_coro v o1)" "co_timeouted (awake_coro v o1) = co_timeouted o1"
  "co_cancelled (awake_coro v o1) = co_cancelled o1" "co_ptrParam1 (awake_coro v o1) = co_ptrParam1 o1"
  "co_resumeTimes (awake_coro v o1) = co_resumeTimes o1 + 1"
  by (simp_all add: awake_coro_def)

lemma Coro_Resume_unfold:
  fixes w :: "'g world"
  assumes "w_coro w c = Some o1" "co_yielded o1"
  shows "Coro_Resume (Suc n) v c w =
     obind (if co_timeouted o1 \<or> co_cancelled o1 then Ok (set_coro c (awake_coro v o1) w)
            else obind (Timer_Cancel (OnCoroCancel (resume_nil n)) c (set_coro c (awake_coro v o1) w)) (\<lambda>(_, w2). Ok w2)) (\<lambda>w2.
     obind (coro_at c w2) (\<lambda>o2. case co_inner o2 of None \<Rightarrow> Fault NullDeref
       | Some p \<Rightarrow> obind (co_resume (Coro_Yield (resume_nil n)) p w2) (\<lambda>w3. Ok (None, w3))))"
proof -
  have "(\<lambda>c (w :: 'g world). obind (Coro_Resume n VNil c w) (\<lambda>(_, w'). Ok w')) = resume_nil n"
    by (simp add: fun_eq_iff resume_nil_def)
  then show ?thesis
    unfolding Coro_Resume.simps Let_def coro_at_Some [OF assms(1)] obind.simps using assms(2)
    by (simp only: awake_coro_def not_True_eq_False if_False)
qed

lemma OnCoroCancel_awake: "w_coro w c = Some o1 \<Longrightarrow> \<not> co_yielded o1 \<Longrightarrow> OnCoroCancel res c w = Ok w"
  by (simp add: OnCoroCancel_def)

lemma waking_cancel:
  assumes cinv: "cinv None w" and inv: "ts_inv fire w" and c: "w_coro w c \<noteq> None" and o2: "\<not> co_yielded o2"
  shows "\<exists>w2. Timer_Cancel (OnCoroCancel res) c (set_coro c o2 w) = Ok (None, w2) \<and> ts_inv fire w2 \<and> waking c o2 w w2
     \<and> due_items w2 \<subseteq> due_items w \<and> ts_enabled w2 = ts_enabled w
     \<and> (\<forall>p d d'. ts_data w p = Some d \<longrightarrow> \<not> td_validate d \<longrightarrow> ts_data w2 p = Some d' \<longrightarrow> \<not> td_validate d')"
proof -
  let ?w = "set_coro c o2 w"
  have inv1: "ts_inv fire ?w" using inv by simp
  obtain o1 where "w_coro w c = Some o1" using c by blast
  then have tm: "ts_timers ?w c \<noteq> None" using cinv_coro [OF cinv] by (simp add: coro_ok_def)
  show ?thesis
  proof (cases "deadline w c")
    case None
    then have "Timer_Cancel (OnCoroCancel res) c ?w = Ok (None, ?w)" by (intro Timer_Cancel_idle [OF inv1 tm]) simp
    then show ?thesis using inv1 None by (auto simp: waking_def fun_upd_idem)
  next
    case (Some dl)
    then have dl: "deadline ?w c = Some dl" by simp
    obtain p d where p: "ts_timers ?w c = Some (Some p)" "ts_data ?w p = Some d" "td_validate d"
      using deadline_valid [OF inv1 dl] by blast
    have "OnCoroCancel res c w0 = Ok w0" if "w0 = set_data p (d\<lparr>td_validate := False, td_cancelling := True\<rparr>) ?w" for w0
      using that o2 by (intro OnCoroCancel_awake [of _ _ o2]) (simp_all add: set_data_def)
    then obtain w2 where w2: "Timer_Cancel (OnCoroCancel res) c ?w = Ok (None, w2)" "ts_inv fire w2"
      "w2 = ?w\<lparr>ts_data := ts_data w2, ts_heap := ts_heap w2\<rparr>" "deadline w2 = (deadline ?w)(c := None)"
      "due_items w2 \<subseteq> due_items ?w" "\<forall>d'. ts_data w2 p = Some d' \<longrightarrow> \<not> td_validate d'" "\<forall>q. q \<noteq> p \<longrightarrow> ts_data w2 q = ts_data ?w q"
      using Timer_Cancel_quiet [OF inv1 p, of "OnCoroCancel res"] by blast
    have f: "w_inner w2 = w_inner w" "w_stack w2 = w_stack w" "w_coros w2 = w_coros w" "w_recycle w2 = w_recycle w"
      "w_maxCoroId w2 = w_maxCoroId w" "w_conn w2 = w_conn w" "ts_now w2 = ts_now w" "w_coro w2 = (w_coro w)(c \<mapsto> o2)"
      "ts_timers w2 = ts_timers w" "ts_next w2 = ts_next w" "ts_enabled w2 = ts_enabled w" "w_globals w2 = w_globals w" "w_info w2 = w_info w"
      by (subst w2(3), simp)+
    have "\<not> td_validate e'" if "ts_data w q = Some e" "\<not> td_validate e" "ts_data w2 q = Some e'" for q e e'
      using that w2(6,7) by (cases "q = p") auto
    then show ?thesis using w2 f by (intro exI [of _ w2]) (simp add: waking_def)
  qed
qed

lemma Coro_Resume_ok:
  assumes cinv: "cinv None w" and inv: "ts_inv fire w"
    and o1: "w_coro w c = Some o1" "map_of (w_coros w) (co_id o1) = Some c"
    and p: "co_inner o1 = Some p" "w_inner w p = Some i" "in_cStart i \<longrightarrow> (\<exists>q. co_ptrParam1 o1 = PPacket q \<and> rsp_shaped q)"
  shows "\<exists>w'. Coro_Resume (Suc n) v c w = Ok (None, w') \<and> cinv None w' \<and> ts_inv fire w'
     \<and> ts_now w' = ts_now w \<and> ts_enabled w' = ts_enabled w \<and> w_maxCoroId w' = w_maxCoroId w
     \<and> (\<forall>s. s \<noteq> c \<longrightarrow> w_coro w' s = w_coro w s \<and> saved_ctx w' s = saved_ctx w s \<and> deadline w' s = deadline w s)
     \<and> view w' = v_Resume v c (view w)"
proof -
  have susp: "suspended w c o1 i" using suspended_coro [OF cinv o1] p by (metis option.inject)
  have c: "w_coro w c \<noteq> None" using o1 by simp
  obtain w2 where w2: "Timer_Cancel (OnCoroCancel (resume_nil n)) c (set_coro c (awake_coro v o1) w) = Ok (None, w2)"
    "ts_inv fire w2" "waking c (awake_coro v o1) w w2" "ts_enabled w2 = ts_enabled w"
    using waking_cancel [OF cinv inv c, of "awake_coro v o1" "resume_nil n"] by auto
  have wk: "in_cStart i \<longrightarrow> woken (awake_coro v o1)" using p(3) by (auto simp: woken_def)
  obtain w3 where w3: "co_resume (Coro_Yield (resume_nil n)) p w2 = Ok w3" "cinv None w3" "ts_inv fire w3" "resumed c w2 w3"
    "view w3 = v_run c (awake_coro v o1) (view w)"
    using co_resume_ok [OF cinv o1 w2(3,2) _ _ _ _ p(1,2) wk, where res = "resume_nil n"] by auto
  have "w_coro w2 c = Some (awake_coro v o1)" using w2(3) by (simp add: waking_def)
  then have "Coro_Resume (Suc n) v c w = Ok (None, w3)"
    using Coro_Resume_unfold [OF o1(1)] susp w2(1) w3(1) p(1) by (simp add: suspended_def)
  moreover have "saved_ctx w2 s = saved_ctx w s" if "s \<noteq> c" for s
    using w2(3) that by (intro saved_ctx_cong) (simp_all add: waking_def)
  ultimately show ?thesis using w3 w2(3,4) o1(1) by (intro exI [of _ w3]) (simp add: resumed_def waking_def v_Resume_def)
qed

text \<open>\<open>Resume\<close> when a flag says why: the timer has been dealt with.\<close>

lemma Resume_flagged:
  assumes cinv: "cinv None w0" and o1: "w_coro w0 c = Some o1" "map_of (w_coros w0) (co_id o1) = Some c"
    and wk: "waking c o2 w0 w" and inv: "ts_inv fire w"
    and o2: "co_id o2 = co_id o1" "co_inner o2 = co_inner o1" "co_entry o2 (co_args o2) = co_entry o1 (co_args o1)" "co_yielded o2"
      "co_timeouted o2 \<or> co_cancelled o2"
  shows "\<exists>w'. resume_nil (Suc n) c w = Ok w' \<and> cinv None w' \<and> ts_inv fire w' \<and> resumed c w w'
     \<and> view w' = v_run c (awake_coro VNil o2) (view w0)"
proof -
  obtain p i where p: "co_inner o1 = Some p" "w_inner w0 p = Some i" using suspended_coro [OF cinv o1] by metis
  have c: "w_coro w c = Some o2" using wk by (simp add: waking_def)
  let ?w = "set_coro c (awake_coro VNil o2) w"
  have wk': "waking c (awake_coro VNil o2) w0 ?w" using wk by (simp add: waking_def)
  have inv': "ts_inv fire ?w" using inv by simp
  have wo: "in_cStart i \<longrightarrow> woken (awake_coro VNil o2)" using o2(5) by (auto simp: woken_def)
  obtain w3 where w3: "co_resume (Coro_Yield (resume_nil n)) p ?w = Ok w3" "cinv None w3" "ts_inv fire w3" "resumed c ?w w3"
    "view w3 = v_run c (awake_coro VNil o2) (view w0)"
    using co_resume_ok [OF cinv o1 wk' inv' _ _ _ _ p wo, where res = "resume_nil n"] o2 by auto
  have "Coro_Resume (Suc n) VNil c w = Ok (None, w3)"
    using Coro_Resume_unfold [OF c o2(4)] o2 w3(1) p(1) by simp
  moreover have "saved_ctx ?w s = saved_ctx w s" if "s \<noteq> c" for s using that by (intro saved_ctx_cong) simp_all
  ultimately show ?thesis using w3 by (intro exI [of _ w3]) (simp add: resume_nil_def resumed_def)
qed

section \<open>Timeouts\<close>

lemma deadline_coro:
  assumes "cinv None w" "ts_timers w c \<noteq> None" "deadline w c \<noteq> None"
  obtains o1 where "w_coro w c = Some o1" "map_of (w_coros w) (co_id o1) = Some c" "co_yielded o1"
    "\<not> co_timeouted o1" "\<not> co_cancelled o1"
proof -
  obtain o1 where o1: "w_coro w c = Some o1" using assms(1,2) by (auto simp: cinv_def)
  have "map_of (w_coros w) (co_id o1) = Some c" "co_yielded o1" "\<not> co_timeouted o1" "\<not> co_cancelled o1"
    using cinv_coro [OF assms(1) o1] assms(3) by (auto simp: coro_ok_def ended_def suspended_def split: if_splits)
  with that o1 show thesis by blast
qed

lemma OnCoroTimeout_ok:
  assumes cinv: "cinv None w" and inv: "ts_inv (Some p) w" and t: "ts_timers w c = Some (Some p)" and due: "is_due w c"
  shows "\<exists>w'. OnCoroTimeout (Suc n) c w = Ok w' \<and> cinv None w' \<and> ts_inv (Some p) w' \<and> ts_now w' = ts_now w
     \<and> (\<forall>d. ts_data w' p = Some d \<longrightarrow> \<not> td_validate d) \<and> view w' = v_Timeout c (view w) \<and> \<not> is_due w' c
     \<and> (\<forall>s. s \<noteq> c \<longrightarrow> deadline w' s = deadline w s) \<and> due_items w' \<subseteq> due_items w
     \<and> ts_enabled w' = ts_enabled w \<and> w_maxCoroId w' = w_maxCoroId w"
proof -
  obtain dl where dl: "deadline w c = Some dl" using due by (auto simp: is_due_def)
  obtain o1 where o1: "w_coro w c = Some o1" "map_of (w_coros w) (co_id o1) = Some c" "co_yielded o1"
    "\<not> co_timeouted o1" "\<not> co_cancelled o1"
    using deadline_coro [OF cinv] t dl by (metis option.distinct(1))
  let ?o2 = "o1\<lparr>co_timeouted := True\<rparr>"
  let ?w1 = "set_coro c ?o2 w"
  have inv1: "ts_inv (Some p) ?w1" using inv by simp
  obtain d where d: "ts_data w p = Some d" "td_timer d = c" using ts_invD(7) [OF inv t] by blast
  have val: "td_validate d" using dl t d(1) by (simp add: deadline_def split: if_splits)
  have "td_timeouting d" using ts_invD(8) [OF inv d(1)] by (simp add: data_ok_def)
  then have quiet: "OnCoroCancel (resume_nil (Suc n)) c w0 = Ok w0"
    if "w0 = set_data p (d\<lparr>td_validate := False, td_cancelling := True\<rparr>) ?w1" for w0
    using that o1(3) t by (simp add: OnCoroCancel_def set_data_def Timer_IsTimeouting_def timer_ptr_def data_at_def)
  obtain w2 where w2: "Timer_Cancel (OnCoroCancel (resume_nil (Suc n))) c ?w1 = Ok (None, w2)" "ts_inv (Some p) w2"
    "w2 = ?w1\<lparr>ts_data := ts_data w2, ts_heap := ts_heap w2\<rparr>" "deadline w2 = (deadline ?w1)(c := None)"
    "due_items w2 \<subseteq> due_items ?w1" "\<forall>d'. ts_data w2 p = Some d' \<longrightarrow> \<not> td_validate d'"
  proof -
    have t1: "ts_timers ?w1 c = Some (Some p)" "ts_data ?w1 p = Some d" using t d(1) by simp_all
    show thesis
      using that Timer_Cancel_quiet [OF inv1 t1 val, where onCancel = "OnCoroCancel (resume_nil (Suc n))"] quiet by blast
  qed
  have f: "w_inner w2 = w_inner w" "w_stack w2 = w_stack w" "w_coros w2 = w_coros w" "w_recycle w2 = w_recycle w"
    "w_maxCoroId w2 = w_maxCoroId w" "w_conn w2 = w_conn w" "ts_now w2 = ts_now w" "w_coro w2 = (w_coro w)(c \<mapsto> ?o2)"
    "ts_timers w2 = ts_timers w" "ts_next w2 = ts_next w" "ts_enabled w2 = ts_enabled w" "w_globals w2 = w_globals w" "w_info w2 = w_info w"
    by (subst w2(3), simp)+
  have wk: "waking c ?o2 w w2" using f w2(4) by (simp add: waking_def)
  obtain w3 where w3: "resume_nil (Suc n) c w2 = Ok w3" "cinv None w3" "ts_inv (Some p) w3" "resumed c w2 w3"
    "view w3 = v_run c (awake_coro VNil ?o2) (view w)"
    using Resume_flagged [OF cinv o1(1,2) wk w2(2), of n] o1(3) by auto
  have "OnCoroTimeout (Suc n) c w = Ok w3" using o1(1) w2(1) w3(1) by (simp add: OnCoroTimeout_def)
  moreover have "\<not> td_validate d3" if "ts_data w3 p = Some d3" for d3
  proof -
    obtain d2 where d2: "ts_data w2 p = Some d2" using ts_invD(5) [OF w2(2)] by blast
    then show ?thesis using w2(6) resumedD(9) [OF w3(4) d2 that] by (simp add: same_timing_def)
  qed
  moreover have "view w3 = v_Timeout c (view w)" using w3(5) o1(1) by (simp add: v_Timeout_def)
  moreover have "\<not> is_due w3 c" using resumedD(1,7) [OF w3(4)] by (force simp: is_due_def)
  moreover have "deadline w3 s = deadline w s" if "s \<noteq> c" for s using that resumedD(6) [OF w3(4) that] w2(4) by simp
  moreover have "due_items w3 \<subseteq> due_items w" "ts_now w3 = ts_now w" "ts_enabled w3 = ts_enabled w" "w_maxCoroId w3 = w_maxCoroId w"
    using resumedD(1-3,8) [OF w3(4)] w2(5) f by simp_all
  ultimately show ?thesis using w3(2,3) by blast
qed

lemma cinv_timers:
  assumes "cinv None w" "deadline (w\<lparr>ts_heap := h, ts_data := D\<rparr>) = deadline w"
  shows "cinv None (w\<lparr>ts_heap := h, ts_data := D\<rparr>) \<and> view (w\<lparr>ts_heap := h, ts_data := D\<rparr>) = view w"
proof -
  let ?w = "w\<lparr>ts_heap := h, ts_data := D\<rparr>"
  have f: "w_inner ?w = w_inner w" "w_stack ?w = w_stack w" "w_coros ?w = w_coros w" "w_recycle ?w = w_recycle w"
    "w_maxCoroId ?w = w_maxCoroId w" "w_conn ?w = w_conn w" "ts_now ?w = ts_now w" "w_coro ?w = w_coro w"
    "ts_timers ?w = ts_timers w" "ts_next ?w = ts_next w"
    by simp_all
  have "cinv None ?w"
    using assms(1) unfolding cinv_def stack_ok_def tables_ok_def coro_ok_def running_def suspended_def ended_def f assms(2) .
  moreover have "saved_ctx ?w = saved_ctx w" using saved_ctx_cong [of ?w _ w] by (simp add: fun_eq_iff)
  ultimately show ?thesis using assms(2) by (simp add: view_def)
qed

interpretation sched: timeout_client "\<lambda>w. cinv None w \<and> ts_enabled w" view "\<lambda>c v v'. v' = v_Timeout c v" "OnCoroTimeout (Suc n)" for n
proof (unfold_locales, goal_cases)
  case (1 w h D)
  then show ?case using cinv_timers [of w h D] by simp
next
  case (2 w p t)
  then show ?case using OnCoroTimeout_ok [of w p t n] by auto
qed

section \<open>Cancellation\<close>

lemma Coro_Cancel_ok:
  assumes cinv: "cinv None w" and inv: "ts_inv None w" and dl: "deadline w c = Some dl"
  shows "\<exists>w'. Coro_Cancel (Suc n) c w = Ok (None, w') \<and> cinv None w' \<and> ts_inv None w'
     \<and> ts_enabled w' = ts_enabled w \<and> w_maxCoroId w' = w_maxCoroId w \<and> view w' = v_Cancel c (view w)"
proof -
  obtain p d where p: "ts_timers w c = Some (Some p)" "ts_data w p = Some d" "td_timer d = c" "td_validate d" "td_handle d = dl"
    "ts_queued None w p"
    using deadline_valid [OF inv dl] .
  obtain o1 where o1: "w_coro w c = Some o1" "map_of (w_coros w) (co_id o1) = Some c" "co_yielded o1"
    "\<not> co_timeouted o1" "\<not> co_cancelled o1"
    using deadline_coro [OF cinv] p(1) dl by (metis option.distinct(1))
  let ?d0 = "d\<lparr>td_validate := False, td_cancelling := True\<rparr>"
  let ?w0 = "set_data p ?d0 w" and ?o2 = "o1\<lparr>co_cancelled := True\<rparr>"
  have inv0: "ts_inv None ?w0" by (rule set_data_inv [OF inv p(2)]) simp_all
  have dl0: "deadline ?w0 = (deadline w)(c := None)" by (rule invalidate [OF inv p(1,2)]) simp_all
  have wf: "w_inner ?w0 = w_inner w" "w_stack ?w0 = w_stack w" "w_coros ?w0 = w_coros w" "w_recycle ?w0 = w_recycle w"
    "w_maxCoroId ?w0 = w_maxCoroId w" "w_conn ?w0 = w_conn w" "w_coro ?w0 = w_coro w" "w_globals ?w0 = w_globals w" "w_info ?w0 = w_info w"
    by (simp_all add: set_data_def)
  have wk: "waking c ?o2 w (set_coro c ?o2 ?w0)" using dl0 by (simp add: waking_def wf)
  have inv1: "ts_inv None (set_coro c ?o2 ?w0)" using inv0 by simp
  obtain w1 where w1: "resume_nil (Suc n) c (set_coro c ?o2 ?w0) = Ok w1" "cinv None w1" "ts_inv None w1"
    "resumed c (set_coro c ?o2 ?w0) w1" "view w1 = v_run c (awake_coro VNil ?o2) (view w)"
    using Resume_flagged [OF cinv o1(1,2) wk inv1, of n] o1(3) by auto
  have tmo: "\<not> td_timeouting d" using ts_invD(8) [OF inv p(2)] by (simp add: data_ok_def)
  have cb: "OnCoroCancel (resume_nil (Suc n)) c ?w0 = Ok w1"
    using o1(1,3) wf p(1) tmo w1(1) by (simp add: OnCoroCancel_def Timer_IsTimeouting_def)
  have "p \<in> set (bh_items (ts_heap w1))" using p(6) resumedD(10) [OF w1(4)] by (auto simp: ts_queued_def)
  then obtain d1 where d1: "ts_data w1 p = Some d1" using ts_invD(4) [OF w1(3)] by blast
  have "same_timing ?d0 d1" by (rule resumedD(9) [OF w1(4) _ d1]) simp
  moreover have "dl - ts_now w < LONG_TIMEOUT_TIME" using cinv dl by (simp add: cinv_def)
  ultimately have short: "td_timeouting d1 \<or> td_handle d1 - ts_now w1 < LONG_TIMEOUT_TIME"
    using p(5) resumedD(1) [OF w1(4)] by (simp add: same_timing_def)
  define w' where "w' = set_data p (d1\<lparr>td_cancelling := False\<rparr>) w1"
  note fin = Timer_Cancel_callback [where onCancel = "OnCoroCancel (resume_nil (Suc n))", OF inv p(1,2,4) cb w1(3) d1 short, folded w'_def]
  have w': "w' = w1\<lparr>ts_heap := ts_heap w1, ts_data := (ts_data w1)(p \<mapsto> d1\<lparr>td_cancelling := False\<rparr>)\<rparr>"
    by (simp add: w'_def set_data_def)
  have cv: "cinv None w'" "view w' = view w1" using cinv_timers [OF w1(2)] fin(3) w' by metis+
  have g: "ts_enabled w' = ts_enabled w1" "w_maxCoroId w' = w_maxCoroId w1" by (simp_all add: w')
  have "Coro_Cancel (Suc n) c w = Ok (None, w')" using o1(1,3) fin(1) by (simp add: Coro_Cancel_def)
  moreover have "ts_enabled w' = ts_enabled w" "w_maxCoroId w' = w_maxCoroId w"
    using resumedD(2,3) [OF w1(4)] g wf by simp_all
  moreover have "view w' = v_Cancel c (view w)" using cv(2) w1(5) dl o1(1) by (simp add: v_Cancel_def)
  ultimately show ?thesis using cv(1) fin(2) by blast
qed

text \<open>A coroutine that was never resumed has no timer: cancelling it reports success and does nothing.\<close>

lemma Coro_Cancel_fresh:
  assumes "cinv None w" "ts_inv None w" "w_coro w c = Some o1" "co_yielded o1" "deadline w c = None"
  shows "Coro_Cancel n c w = Ok (None, w)"
proof -
  have "ts_timers w c \<noteq> None" using cinv_coro [OF assms(1,3)] by (simp add: coro_ok_def)
  then show ?thesis using Timer_Cancel_idle [OF assms(2) _ assms(5)] assms(3,4) by (simp add: Coro_Cancel_def)
qed

section \<open>Recycling\<close>

text \<open>A deleted coroutine leaves the tables, and the others stay as they are.\<close>

lemma recycled_coro:
  assumes cinv: "cinv None (w\<lparr>w_recycle := (n, c) # cs\<rparr>)"
  shows "\<exists>o1 p i. w_coro w c = Some o1 \<and> co_id o1 = n \<and> co_inner o1 = Some p \<and> w_inner w p = Some i \<and> in_arg i = c \<and> \<not> in_cIsMain i
      \<and> \<not> co_yielded o1 \<and> deadline w c = None \<and> ts_timers w c \<noteq> None"
    "map_of (w_coros w) n = None" "map_of cs n = None" "distinct (map fst cs)"
proof -
  let ?wr = "w\<lparr>w_recycle := (n, c) # cs\<rparr>"
  have dlr: "deadline ?wr = deadline w" by (rule ts_cong(1)) simp_all
  have tab: "tables_ok ?wr" using cinv by (simp add: cinv_def)
  obtain o1 where o1: "w_coro w c = Some o1" "co_id o1 = n" using tables_okD(5) [OF tab, of n c] by auto
  have o1r: "w_coro ?wr c = Some o1" using o1 by simp
  have ok: "coro_ok None ?wr c o1" by (rule cinv_coro [OF cinv o1r])
  show none: "map_of (w_coros w) n = None" "map_of cs n = None" "distinct (map fst cs)"
    using tables_okD(2) [OF tab] tables_okD(3) [OF tab, of n] by (cases "map_of (w_coros w) n"; simp add: map_of_eq_None_iff)+
  show "\<exists>o1 p i. w_coro w c = Some o1 \<and> co_id o1 = n \<and> co_inner o1 = Some p \<and> w_inner w p = Some i \<and> in_arg i = c \<and> \<not> in_cIsMain i
      \<and> \<not> co_yielded o1 \<and> deadline w c = None \<and> ts_timers w c \<noteq> None"
    using ok none(1) o1 dlr by (auto simp: coro_ok_def ended_def)
qed

lemma deleted_tables_ok:
  assumes cinv: "cinv None (w\<lparr>w_recycle := (n, c) # cs\<rparr>)"
    and f: "w_coro w' = (w_coro w)(c := None)" "w_coros w' = w_coros w"
  shows "tables_ok (w'\<lparr>w_recycle := cs\<rparr>)"
proof -
  let ?wr = "w\<lparr>w_recycle := (n, c) # cs\<rparr>" and ?wr' = "w'\<lparr>w_recycle := cs\<rparr>"
  have tab: "tables_ok ?wr" using cinv by (simp add: cinv_def)
  note none = recycled_coro(2-4) [OF cinv]
  obtain o1 where o1: "w_coro w c = Some o1" "co_id o1 = n" using recycled_coro(1) [OF cinv] by blast
  have "\<exists>o1. w_coro ?wr' s = Some o1 \<and> co_id o1 = k" if k: "map_of (w_coros w) k = Some s \<or> map_of cs k = Some s" for k s
  proof -
    have kn: "k \<noteq> n" using k none by auto
    then have "map_of (w_coros ?wr) k = Some s \<or> map_of (w_recycle ?wr) k = Some s" using k by auto
    then have "\<exists>os. w_coro ?wr s = Some os \<and> co_id os = k" using tables_okD(4,5) [OF tab] by blast
    then obtain os where os: "w_coro w s = Some os" "co_id os = k" by auto
    moreover have "s \<noteq> c" using os o1 kn by auto
    ultimately show ?thesis using f by simp
  qed
  moreover have "map_of (w_coros w) k = None \<or> map_of cs k = None" for k
    using tables_okD(3) [OF tab, of k] none(1) by (cases "map_of (w_coros w) k") (auto split: if_splits)
  moreover have "w_coros ?wr' = w_coros w" "w_recycle ?wr' = cs" "distinct (map fst (w_coros w))"
    using f(2) tables_okD(1) [OF tab] by simp_all
  ultimately show "tables_ok ?wr'" using none(3) unfolding tables_ok_def by metis
qed

lemma deleted_coro_ok:
  assumes cinv: "cinv None (w\<lparr>w_recycle := (n, c) # cs\<rparr>)" and p: "w_inner w p = Some i" "in_arg i = c"
    and f: "w_coro w' = (w_coro w)(c := None)" "w_inner w' = (w_inner w)(p := None)" "w_stack w' = w_stack w" "w_coros w' = w_coros w"
      "w_maxCoroId w' = w_maxCoroId w" "w_conn w' = w_conn w" "ts_now w' = ts_now w" "ts_timers w' = (ts_timers w)(c := None)"
      "ts_next w' = ts_next w" "deadline w' = deadline w"
    and s: "w_coro w' s = Some os"
  shows "coro_ok None (w'\<lparr>w_recycle := cs\<rparr>) s os"
proof -
  let ?wr = "w\<lparr>w_recycle := (n, c) # cs\<rparr>" and ?wr' = "w'\<lparr>w_recycle := cs\<rparr>"
  have dl: "deadline ?wr' = deadline ?wr" using ts_cong(1) [of ?wr' w'] ts_cong(1) [of ?wr w] f(10) by simp
  have s': "s \<noteq> c" "w_coro ?wr s = Some os" using s f(1) by (auto split: if_splits)
  have oks: "coro_ok None ?wr s os" by (rule cinv_coro [OF cinv s'(2)])
  then have idn: "co_id os \<noteq> n" using recycled_coro(2) [OF cinv] s'(1) by (auto simp: coro_ok_def ended_def split: if_splits)
  from oks show ?thesis
  proof (rule coro_ok_frame)
    show "ts_timers ?wr' s \<noteq> None" using oks s'(1) f(8) by (auto simp: coro_ok_def)
    show "deadline ?wr' s = deadline ?wr s" using dl by simp
    show "w_inner ?wr' q = Some j" if "co_inner os = Some q" "w_inner ?wr q = Some j" "in_arg j = s" for q j
      using that p s'(1) f(2) by auto
  qed (use idn f in auto)
qed

lemma deleted_cinv:
  assumes cinv: "cinv None (w\<lparr>w_recycle := (n, c) # cs\<rparr>)" and p: "w_inner w p = Some i" "in_arg i = c" "\<not> in_cIsMain i"
    and f: "w_coro w' = (w_coro w)(c := None)" "w_inner w' = (w_inner w)(p := None)" "w_stack w' = w_stack w" "w_coros w' = w_coros w"
      "w_maxCoroId w' = w_maxCoroId w" "w_conn w' = w_conn w" "ts_now w' = ts_now w" "ts_timers w' = (ts_timers w)(c := None)"
      "ts_next w' = ts_next w" "deadline w' = deadline w"
  shows "cinv None (w'\<lparr>w_recycle := cs\<rparr>)" "s \<noteq> c \<Longrightarrow> saved_ctx w' s = saved_ctx w s"
proof -
  let ?wr = "w\<lparr>w_recycle := (n, c) # cs\<rparr>" and ?wr' = "w'\<lparr>w_recycle := cs\<rparr>"
  obtain o1 where o1: "w_coro ?wr c = Some o1" using recycled_coro(1) [OF cinv] by auto
  have dl: "deadline ?wr' = deadline ?wr" using ts_cong(1) [of ?wr' w'] ts_cong(1) [of ?wr w] f(10) by simp
  show "cinv None ?wr'"
    unfolding cinv_def
  proof (intro conjI allI impI)
    obtain mm im where "w_stack w = [mm]" "w_inner w mm = Some im" "is_main im" using main_routine [OF cinv o1] by auto
    then show "stack_ok None ?wr'" using p f by (auto simp: stack_ok_def)
    show "tables_ok ?wr'" by (rule deleted_tables_ok [OF cinv f(1,4)])
    show "coro_ok None ?wr' s os" if "w_coro ?wr' s = Some os" for s os
      using deleted_coro_ok [OF cinv p(1,2) f, of s os] that by simp
    show "w_coro ?wr' s \<noteq> None" if "ts_timers ?wr' s \<noteq> None" for s
      using that cinv f by (auto simp: cinv_def split: if_splits)
    show "q < ts_next ?wr'" if "w_inner ?wr' q = Some j" for q j
      using that cinv f by (auto simp: cinv_def split: if_splits)
    show "d - ts_now ?wr' < LONG_TIMEOUT_TIME" if "deadline ?wr' s = Some d" for s d
      using that cinv f(7) dl by (auto simp: cinv_def)
    show "cm_svc (w_conn ?wr') \<noteq> None" using cinv f by (simp add: cinv_def)
  qed
  show "saved_ctx w' s = saved_ctx w s" if "s \<noteq> c"
  proof (cases "w_coro w s")
    case (Some os)
    then have "w_coro ?wr s = Some os" by simp
    from cinv_coro [OF cinv this] obtain q j where "co_inner os = Some q" "w_inner w q = Some j" "in_arg j = s"
      by (auto simp: coro_ok_def)
    then show ?thesis using Some that p f(1,2) by (auto simp: saved_ctx_def)
  qed (use f(1) that in \<open>simp add: saved_ctx_def\<close>)
qed

lemma Coro_delete_ok:
  assumes cinv: "cinv None (w\<lparr>w_recycle := (n, c) # cs\<rparr>)" and inv: "ts_inv None w"
  shows "\<exists>w'. Coro_delete m c w = Ok w' \<and> cinv None (w'\<lparr>w_recycle := cs\<rparr>) \<and> ts_inv None w'
     \<and> w_coro w' = (w_coro w)(c := None) \<and> (\<forall>s. s \<noteq> c \<longrightarrow> saved_ctx w' s = saved_ctx w s)
     \<and> deadline w' = deadline w \<and> ts_now w' = ts_now w \<and> ts_enabled w' = ts_enabled w \<and> w_maxCoroId w' = w_maxCoroId w
     \<and> w_coros w' = w_coros w \<and> w_globals w' = w_globals w \<and> w_info w' = w_info w \<and> w_conn w' = w_conn w"
proof -
  obtain o1 p i ptr where o1: "w_coro w c = Some o1" and p: "co_inner o1 = Some p" "w_inner w p = Some i" "in_arg i = c" "\<not> in_cIsMain i"
    "\<not> co_yielded o1" "deadline w c = None" and ptr: "ts_timers w c = Some ptr"
    using recycled_coro(1) [OF cinv] by blast
  let ?w2 = "w\<lparr>w_inner := (w_inner w)(p := None)\<rparr>"
  have ts2: "ts_inv None ?w2" "deadline ?w2 c = None" "deadline ?w2 = deadline w" "ts_timers ?w2 c = Some ptr"
    using ts_cong [of ?w2 w] inv p(6) ptr by simp_all
  obtain w3 where w3: "Timer_delete (OnCoroCancel (resume_nil m)) c ?w2 = Ok w3" "ts_inv None w3"
    "w3 = ?w2\<lparr>ts_data := ts_data w3, ts_timers := (ts_timers ?w2)(c := None)\<rparr>" "deadline w3 = deadline ?w2"
    using Timer_delete_idle [OF ts2(1,4,2)] by blast
  define w' where "w' = w3\<lparr>w_coro := (w_coro w3)(c := None)\<rparr>"
  have del: "Coro_delete m c w = Ok w'" using o1 p w3(1) by (simp add: Coro_delete_def co_release_def w'_def)
  have ts': "ts_inv None w'" "deadline w' = deadline w"
    using ts_cong [of w' w3] w3(2,4) ts2(3) by (simp_all add: w'_def)
  have f: "w_coro w' = (w_coro w)(c := None)" "w_inner w' = (w_inner w)(p := None)" "w_stack w' = w_stack w" "w_coros w' = w_coros w"
    "w_maxCoroId w' = w_maxCoroId w" "w_conn w' = w_conn w" "ts_now w' = ts_now w" "ts_timers w' = (ts_timers w)(c := None)"
    "ts_next w' = ts_next w" "ts_enabled w' = ts_enabled w" "w_globals w' = w_globals w" "w_info w' = w_info w"
    unfolding w'_def by (subst w3(3), simp)+
  note d = deleted_cinv [OF cinv p(2-4) f(1-9) ts'(2)]
  show ?thesis using del ts' d f by blast
qed

lemma Recycle_loop_ok:
  "cinv None (w\<lparr>w_recycle := cs\<rparr>) \<Longrightarrow> ts_inv None w \<Longrightarrow>
   \<exists>w'. Recycle_loop m cs w = Ok w' \<and> cinv None (w'\<lparr>w_recycle := []\<rparr>) \<and> ts_inv None w'
     \<and> (\<forall>s. w_coro w' s = (if s \<in> snd ` set cs then None else w_coro w s))
     \<and> (\<forall>s. s \<notin> snd ` set cs \<longrightarrow> saved_ctx w' s = saved_ctx w s)
     \<and> deadline w' = deadline w \<and> ts_now w' = ts_now w \<and> ts_enabled w' = ts_enabled w \<and> w_maxCoroId w' = w_maxCoroId w
     \<and> w_coros w' = w_coros w \<and> w_globals w' = w_globals w \<and> w_info w' = w_info w \<and> w_conn w' = w_conn w"
proof (induction cs arbitrary: w)
  case (Cons e cs)
  obtain n c where e: "e = (n, c)" by (cases e)
  obtain w1 where w1: "Coro_delete m c w = Ok w1" "cinv None (w1\<lparr>w_recycle := cs\<rparr>)" "ts_inv None w1"
    "w_coro w1 = (w_coro w)(c := None)" "\<And>s. s \<noteq> c \<Longrightarrow> saved_ctx w1 s = saved_ctx w s"
    "deadline w1 = deadline w" "ts_now w1 = ts_now w" "ts_enabled w1 = ts_enabled w" "w_maxCoroId w1 = w_maxCoroId w"
    "w_coros w1 = w_coros w" "w_globals w1 = w_globals w" "w_info w1 = w_info w" "w_conn w1 = w_conn w"
    using Coro_delete_ok [OF Cons.prems(1) [unfolded e] Cons.prems(2), of m] by blast
  obtain w' where w': "Recycle_loop m cs w1 = Ok w'" "cinv None (w'\<lparr>w_recycle := []\<rparr>)" "ts_inv None w'"
    "\<And>s. w_coro w' s = (if s \<in> snd ` set cs then None else w_coro w1 s)"
    "\<And>s. s \<notin> snd ` set cs \<Longrightarrow> saved_ctx w' s = saved_ctx w1 s"
    "deadline w' = deadline w1" "ts_now w' = ts_now w1" "ts_enabled w' = ts_enabled w1" "w_maxCoroId w' = w_maxCoroId w1"
    "w_coros w' = w_coros w1" "w_globals w' = w_globals w1" "w_info w' = w_info w1" "w_conn w' = w_conn w1"
    using Cons.IH [OF w1(2,3)] by blast
  have "w_coro w' s = (if s \<in> snd ` set (e # cs) then None else w_coro w s)" for s using w'(4) w1(4) e by simp
  moreover have "saved_ctx w' s = saved_ctx w s" if "s \<notin> snd ` set (e # cs)" for s using that w'(5) w1(5) e by simp
  ultimately show ?case using w' w1 e by (intro exI [of _ w']) simp
qed simp

text \<open>The invariant between two calls of the main routine.\<close>

definition winv :: "'g world \<Rightarrow> bool" where
  "winv w \<longleftrightarrow> cinv None w \<and> ts_inv None w \<and> 0 \<le> w_maxCoroId w \<and> ts_enabled w"

lemma wakes_fold: "wakes (\<lambda>c v v'. v' = f c v) ts v v' \<longleftrightarrow> v' = fold f ts v"
  by (induction ts arbitrary: v) auto

lemma recycled_coros:
  assumes "cinv None w" "w_coro w c = Some o1"
  shows "c \<in> snd ` set (w_recycle w) \<longleftrightarrow> \<not> co_yielded o1"
proof -
  have tab: "tables_ok w" using assms(1) by (simp add: cinv_def)
  have ok: "coro_ok None w c o1" by (rule cinv_coro [OF assms])
  have "c \<in> snd ` set (w_recycle w) \<longleftrightarrow> map_of (w_recycle w) (co_id o1) = Some c"
  proof
    assume "c \<in> snd ` set (w_recycle w)"
    then obtain k where k: "map_of (w_recycle w) k = Some c" using tables_okD(2) [OF tab] by (auto intro: map_of_is_SomeI)
    then show "map_of (w_recycle w) (co_id o1) = Some c" using tables_okD(5) [OF tab k] assms(2) by auto
  qed (force dest: map_of_SomeD)
  then show ?thesis
    using ok tables_okD(3) [OF tab, of "co_id o1" c] by (auto simp: coro_ok_def suspended_def ended_def split: if_splits)
qed

lemma mgr_Update_ok:
  assumes w: "winv w" and fuel: "bh_size (ts_heap w) < fuel"
  shows "\<exists>w' ts. mgr_Update fuel (Suc n) w = Ok w' \<and> winv w'
     \<and> distinct ts \<and> set ts = {t. is_due w t} \<and> sorted (map (\<lambda>t. the (deadline w t)) ts)
     \<and> view w' = v_Recycle (fold v_Timeout ts (view w)) \<and> (\<forall>t. \<not> is_due w' t)"
proof -
  have w0: "cinv None w" "ts_inv None w" "ts_enabled w" "0 \<le> w_maxCoroId w" using w by (simp_all add: winv_def)
  obtain w1 ts where w1: "Scheduler_Update fuel (OnCoroTimeout (Suc n)) w = Ok w1" "cinv None w1" "ts_enabled w1" "ts_inv None w1"
    "distinct ts" "set ts = {t. is_due w t}" "sorted (map (\<lambda>t. the (deadline w t)) ts)"
    "view w1 = fold v_Timeout ts (view w)" "\<forall>t. \<not> is_due w1 t"
    using sched.Update_wakes [OF _ w0(2,3) fuel, of n] w0 unfolding wakes_fold by blast
  obtain w2 where w2: "Recycle_loop (Suc n) (w_recycle w1) w1 = Ok w2" "cinv None (w2\<lparr>w_recycle := []\<rparr>)" "ts_inv None w2"
    "\<And>s. w_coro w2 s = (if s \<in> snd ` set (w_recycle w1) then None else w_coro w1 s)"
    "\<And>s. s \<notin> snd ` set (w_recycle w1) \<Longrightarrow> saved_ctx w2 s = saved_ctx w1 s"
    "deadline w2 = deadline w1" "ts_now w2 = ts_now w1" "ts_enabled w2 = ts_enabled w1" "w_maxCoroId w2 = w_maxCoroId w1"
    "w_coros w2 = w_coros w1" "w_globals w2 = w_globals w1" "w_info w2 = w_info w1" "w_conn w2 = w_conn w1"
    using Recycle_loop_ok [of "w_recycle w1" w1 "Suc n"] w1(2,4) by auto
  let ?w = "w2\<lparr>w_recycle := []\<rparr>"
  have ts: "deadline ?w = deadline w1" "ts_inv None ?w" using ts_cong [of ?w w2] w2(3,6) by simp_all
  have upd: "mgr_Update fuel (Suc n) w = Ok ?w"
    using w1(1) w2(1) by (cases "w_recycle w1 = []") (simp_all add: mgr_Update_def)
  have "tables_ok w1" using w1(2) by (simp add: cinv_def)
  then have dead: "ran (map_of (w_recycle w1)) = snd ` set (w_recycle w1)" by (intro ran_distinct) (rule tables_okD(2))
  have "view ?w = v_Recycle (view w1)"
  proof (rule view_eqI)
    fix c
    show "v_coro (view ?w) c = v_coro (v_Recycle (view w1)) c"
      using w2(4) [of c] by (simp add: v_Recycle_def dead restrict_map_def)
    have "saved_ctx ?w c = saved_ctx w2 c" by (rule saved_ctx_cong) simp_all
    then show "v_cont (view ?w) c = v_cont (v_Recycle (view w1)) c"
      using w2(4) [of c] w2(5) [of c] by (simp add: v_Recycle_def dead restrict_map_def saved_ctx_def)
  qed (simp_all add: v_Recycle_def ts(1) w2(7-13))
  moreover have "w_maxCoroId w1 = w_maxCoroId w"
  proof -
    have "v_maxCoroId (fold v_Timeout ts v) = v_maxCoroId v" for ts and v :: "'a view"
      by (induction ts arbitrary: v) (simp_all add: v_Timeout_def)
    then show ?thesis using w1(8) by (metis view_sel(7))
  qed
  then have "winv ?w" using w2(2,8,9) ts(2) w1(3) w0(4) by (simp add: winv_def)
  moreover have "is_due ?w t = is_due w1 t" for t using ts(1) w2(7) by (simp add: is_due_def)
  ultimately show ?thesis using upd w1(5-9) by (intro exI [of _ ?w] exI [of _ ts]) simp
qed

section \<open>Creation\<close>

lemma ts_inv_next:
  assumes "ts_inv fire w" "ts_next w \<le> n"
  shows "ts_inv fire (w\<lparr>ts_next := n\<rparr>)"
proof -
  let ?w = "w\<lparr>ts_next := n\<rparr>"
  have key: "ts_key ?w = ts_key w" by (simp add: ts_key_def fun_eq_iff)
  have qd: "ts_queued fire ?w q \<longleftrightarrow> ts_queued fire w q" for q by (simp add: ts_queued_def)
  have ow: "ts_owned ?w q e \<longleftrightarrow> ts_owned w q e" for q e by (simp add: ts_owned_def)
  have "data_ok fire w q e \<Longrightarrow> data_ok fire ?w q e" for q e using assms(2) by (auto simp: data_ok_def qd ow)
  then show ?thesis using assms(1) unfolding ts_inv_def key qd by simp
qed

lemma created_fields [simp]:
  "co_id (created k p entry args) = k" "co_inner (created k p entry args) = Some p" "co_yielded (created k p entry args)"
  "\<not> co_timeouted (created k p entry args)" "\<not> co_cancelled (created k p entry args)" "co_entry (created k p entry args) = entry" "co_args (created k p entry args) = args"
  "co_resumeTimes (created k p entry args) = 0" "co_ptrParam1 (created k p entry args) = PNull"
  by (simp_all add: created_def Coro_new_def)

text \<open>The state after \<open>CreateCoro\<close>: the new coroutine, its routine, and, at the first creation in a thread, the routine of the thread.\<close>

definition create_p :: "'g world \<Rightarrow> nat" where
  "create_p w = (if w_stack w = [] then ts_next w + 2 else ts_next w + 1)"

definition create_world :: "(nat \<Rightarrow> 'g prog) \<Rightarrow> nat \<Rightarrow> 'g world \<Rightarrow> 'g world" where
  "create_world entry args w = w\<lparr>w_maxCoroId := w_maxCoroId w + 1, ts_next := create_p w + 1, ts_timers := (ts_timers w)(ts_next w \<mapsto> None),
     w_stack := (if w_stack w = [] then [ts_next w + 1] else w_stack w),
     w_coro := (w_coro w)(ts_next w \<mapsto> created (w_maxCoroId w + 1) (create_p w) entry args),
     w_coros := sm_emplace (w_maxCoroId w + 1) (ts_next w) (w_coros w),
     w_inner := (if w_stack w = [] then (w_inner w)(ts_next w + 1 \<mapsto> new_routine 0 True) else w_inner w)
       (create_p w \<mapsto> (new_routine (ts_next w) False)\<lparr>in_spec0 := w_maxCoroId w + 1\<rparr>)\<rparr>"

lemma CreateCoro_eq:
  assumes "0 \<le> w_maxCoroId w" "w_maxCoroId w < 2 ^ 31 - 1"
  shows "CreateCoro entry args w = Ok (ts_next w, create_world entry args w)"
proof -
  have gen: "GenCoroId w = (w_maxCoroId w + 1, w\<lparr>w_maxCoroId := w_maxCoroId w + 1\<rparr>)" using assms by (simp add: GenCoroId_def Let_def)
  show ?thesis
    using assms unfolding CreateCoro_def gen Let_def prod.case
    by (cases "w_stack w = []")
      (simp_all add: co_create_def co_init_curr_thread_env_def Let_def SetInnerCoro_def Timer_new_def set_coro_def
        routine_at_def coro_at_def new_routine_def created_def Coro_new_def create_world_def create_p_def)
qed

lemma create_p_bounds: "ts_next w < create_p w" "create_p w \<le> ts_next w + 2"
  by (simp_all add: create_p_def)

lemma create_routine:
  "\<exists>i. w_inner (create_world entry args w) (create_p w) = Some i \<and> in_arg i = ts_next w \<and> in_spec0 i = w_maxCoroId w + 1
     \<and> \<not> in_cIsMain i \<and> \<not> in_cStart i \<and> \<not> in_cEnd i \<and> in_ctx i = None"
  by (simp add: create_world_def new_routine_def)

lemma create_inner:
  assumes "cinv None w" "w_inner w q = Some j"
  shows "w_inner (create_world entry args w) q = Some j"
proof -
  have "q < ts_next w" using assms by (simp add: cinv_def)
  then show ?thesis using assms(2) create_p_bounds [of w] by (simp add: create_world_def)
qed

lemma create_new:
  assumes "cinv None w"
  shows "w_coro w (ts_next w) = None" "ts_timers w (ts_next w) = None"
proof -
  show "w_coro w (ts_next w) = None"
    using cinv_coro [OF assms, of "ts_next w"] by (cases "w_coro w (ts_next w)") (auto simp: coro_ok_def)
  then show "ts_timers w (ts_next w) = None" using assms unfolding cinv_def by blast
qed

lemma create_fresh_id:
  assumes "cinv None w"
  shows "map_of (w_coros w) (w_maxCoroId w + 1) = None" "map_of (w_recycle w) (w_maxCoroId w + 1) = None"
proof -
  have tab: "tables_ok w" using assms by (simp add: cinv_def)
  have ids: "co_id os \<le> w_maxCoroId w" if "w_coro w s = Some os" for s os using cinv_coro [OF assms that] by (simp add: coro_ok_def)
  have "map_of (w_coros w) (w_maxCoroId w + 1) \<noteq> Some s" "map_of (w_recycle w) (w_maxCoroId w + 1) \<noteq> Some s" for s
    using tables_okD(4,5) [OF tab, of "w_maxCoroId w + 1" s] ids by force+
  then show "map_of (w_coros w) (w_maxCoroId w + 1) = None" "map_of (w_recycle w) (w_maxCoroId w + 1) = None" by auto
qed

lemma create_coros:
  assumes "cinv None w"
  shows "map_of (w_coros (create_world entry args w)) n = (if n = w_maxCoroId w + 1 then Some (ts_next w) else map_of (w_coros w) n)"
  by (simp add: create_world_def map_of_sm_emplace [OF create_fresh_id(1) [OF assms]])

lemma create_timers:
  assumes "cinv None w" "ts_inv None w"
  shows "ts_inv None (create_world entry args w)" "deadline (create_world entry args w) = deadline w"
proof -
  let ?w' = "create_world entry args w"
  note new = Timer_new_inv [OF assms(2) create_new(2) [OF assms(1)]]
  let ?w1 = "(Timer_new (ts_next w) w)\<lparr>ts_next := create_p w + 1\<rparr>"
  have "ts_inv None ?w1" using create_p_bounds [of w] by (intro ts_inv_next [OF new(1)]) (simp add: Timer_new_def)
  then show "ts_inv None ?w'" using ts_cong(4) [of ?w' ?w1] by (simp add: create_world_def Timer_new_def)
  show "deadline ?w' = deadline w" using ts_cong(1) [of ?w' "Timer_new (ts_next w) w"] new(2) by (simp add: create_world_def Timer_new_def)
qed

lemma create_coro_ok:
  assumes w: "winv w" and entry: "\<And>c. good (entry args) False c" and s: "w_coro (create_world entry args w) s = Some os"
  shows "coro_ok None (create_world entry args w) s os"
proof (cases "s = ts_next w")
  case True
  have w0: "cinv None w" "ts_inv None w" "0 \<le> w_maxCoroId w" using w by (simp_all add: winv_def)
  have dl: "deadline w (ts_next w) = None" using create_new(2) [OF w0(1)] by (simp add: deadline_def)
  have "os = created (w_maxCoroId w + 1) (create_p w) entry args" using s True by (simp add: create_world_def)
  then show ?thesis
    using True create_p_bounds [of w] w0(3) create_coros [OF w0(1)] create_timers(2) [OF w0(1,2)] dl entry
    by (simp add: coro_ok_def suspended_def create_world_def new_routine_def)
next
  case False
  have w0: "cinv None w" "ts_inv None w" using w by (simp_all add: winv_def)
  have s': "w_coro w s = Some os" using s False by (simp add: create_world_def)
  have oks: "coro_ok None w s os" by (rule cinv_coro [OF w0(1) s'])
  then have "co_id os \<le> w_maxCoroId w" by (simp add: coro_ok_def)
  with oks show ?thesis
    by (intro coro_ok_frame [OF oks])
      (use False create_coros [OF w0(1)] create_timers(2) [OF w0] create_inner [OF w0(1)] create_p_bounds [of w] in
        \<open>auto simp: create_world_def coro_ok_def\<close>)
qed

lemma create_stack_ok:
  assumes "cinv None w"
  shows "stack_ok None (create_world entry args w)"
proof (cases "w_stack w = []")
  case True
  then show ?thesis by (simp add: stack_ok_def create_world_def create_p_def new_routine_def)
next
  case False
  then obtain mm im where "w_stack w = [mm]" "w_inner w mm = Some im" "is_main im"
    using assms by (auto simp: cinv_def stack_ok_def)
  then show ?thesis using create_inner [OF assms, of mm im entry args] False by (simp add: stack_ok_def) (simp add: create_world_def)
qed

lemma create_tables_ok:
  assumes "cinv None w"
  shows "tables_ok (create_world entry args w)"
proof -
  let ?w' = "create_world entry args w"
  have tab: "tables_ok w" using assms by (simp add: cinv_def)
  note cm = create_coros [OF assms, of entry args]
  have rec: "w_recycle ?w' = w_recycle w" by (simp add: create_world_def)
  have "\<exists>o1. w_coro ?w' s = Some o1 \<and> co_id o1 = n" if "map_of (w_coros ?w') n = Some s \<or> map_of (w_recycle ?w') n = Some s" for n s
  proof (cases "s = ts_next w")
    case True
    have "map_of (w_coros w) n \<noteq> Some (ts_next w)" "map_of (w_recycle w) n \<noteq> Some (ts_next w)"
      using tables_okD(4,5) [OF tab, of n "ts_next w"] create_new(1) [OF assms] by auto
    then have "n = w_maxCoroId w + 1" using that True cm rec by (auto split: if_splits)
    then show ?thesis using True by (simp add: create_world_def)
  next
    case False
    then have "map_of (w_coros w) n = Some s \<or> map_of (w_recycle w) n = Some s" using that cm rec by (auto split: if_splits)
    then have "\<exists>o1. w_coro w s = Some o1 \<and> co_id o1 = n" using tables_okD(4,5) [OF tab] by blast
    then show ?thesis using False by (simp add: create_world_def)
  qed
  moreover have "map_of (w_coros ?w') n = None \<or> map_of (w_recycle ?w') n = None" for n
    using tables_okD(3) [OF tab, of n] create_fresh_id(2) [OF assms] cm [of n] rec by (cases "map_of (w_coros w) n") auto
  moreover have "distinct (map fst (w_coros ?w'))" "distinct (map fst (w_recycle ?w'))"
    using tables_okD(1,2) [OF tab] by (simp_all add: create_world_def distinct_sm_emplace)
  ultimately show ?thesis unfolding tables_ok_def by blast
qed

lemma create_winv:
  assumes w: "winv w" and entry: "\<And>c. good (entry args) False c"
  shows "winv (create_world entry args w)"
proof -
  let ?w' = "create_world entry args w"
  have w0: "cinv None w" "ts_inv None w" "0 \<le> w_maxCoroId w" "ts_enabled w" using w by (simp_all add: winv_def)
  have "cinv None ?w'"
    unfolding cinv_def
  proof (intro conjI allI impI)
    show "w_coro ?w' s \<noteq> None" if "ts_timers ?w' s \<noteq> None" for s
      using that w0(1) by (auto simp: cinv_def create_world_def split: if_splits)
    show "q < ts_next ?w'" if "w_inner ?w' q = Some j" for q j
    proof (cases "w_inner w q")
      case None
      then show ?thesis using that by (auto simp: create_world_def create_p_def split: if_splits)
    next
      case (Some j')
      then have "q < ts_next w" using w0(1) by (simp add: cinv_def)
      then show ?thesis using create_p_bounds(1) [of w] by (simp add: create_world_def)
    qed
    show "d - ts_now ?w' < LONG_TIMEOUT_TIME" if "deadline ?w' s = Some d" for s d
      using that w0(1) create_timers(2) [OF w0(1,2)] by (simp add: cinv_def) (simp add: create_world_def)
    show "cm_svc (w_conn ?w') \<noteq> None" using w0(1) by (simp add: cinv_def create_world_def)
  qed (use create_stack_ok [OF w0(1)] create_tables_ok [OF w0(1)] create_coro_ok [where entry = entry and args = args, OF w entry] in blast)+
  then show ?thesis using create_timers(1) [OF w0(1,2)] w0(3,4) by (simp add: winv_def) (simp add: create_world_def)
qed

lemma create_view:
  assumes "cinv None w" "ts_inv None w"
  shows "view (create_world entry args w) = v_Create (ts_next w) (create_p w) entry args (view w)" (is "view ?w' = ?v'")
proof (rule view_eqI)
  fix s
  have "saved_ctx ?w' s = saved_ctx w s"
  proof (cases "w_coro w s")
    case (Some os)
    obtain q j where "co_inner os = Some q" "w_inner w q = Some j" using cinv_coro [OF assms(1) Some] by (auto simp: coro_ok_def)
    moreover have "w_coro ?w' s = Some os" using Some create_new(1) [OF assms(1)] by (auto simp: create_world_def)
    ultimately show ?thesis using Some create_inner [OF assms(1)] by (simp add: saved_ctx_def)
  qed (simp add: saved_ctx_def create_world_def new_routine_def)
  then show "v_cont (view ?w') s = v_cont ?v' s" by (simp add: v_Create_def Let_def)
  show "v_live (view ?w') n = v_live ?v' n" for n by (simp add: v_Create_def Let_def create_coros [OF assms(1)])
qed (simp_all add: v_Create_def Let_def create_timers(2) [OF assms], simp_all add: create_world_def)

lemma CreateCoro_ok:
  fixes w :: "'g world"
  assumes w: "winv w" and max: "w_maxCoroId w < 2 ^ 31 - 1" and entry: "\<And>c. good (entry args) False c"
  shows "\<exists>w' c p. CreateCoro entry args w = Ok (c, w') \<and> winv w' \<and> w_coro w c = None
     \<and> w_coro w' = (w_coro w)(c \<mapsto> created (w_maxCoroId w + 1) p entry args)
     \<and> (\<exists>i. w_inner w' p = Some i \<and> \<not> in_cStart i)
     \<and> view w' = v_Create c p entry args (view w)"
proof -
  have w0: "cinv None w" "ts_inv None w" "0 \<le> w_maxCoroId w" using w by (simp_all add: winv_def)
  have "w_coro (create_world entry args w) = (w_coro w)(ts_next w \<mapsto> created (w_maxCoroId w + 1) (create_p w) entry args)"
    by (simp add: create_world_def)
  then show ?thesis
    using CreateCoro_eq [OF w0(3) max] create_winv [where entry = entry and args = args, OF w entry] create_new(1) [OF w0(1)]
      create_routine [of entry args w] create_view [OF w0(1,2)] by blast
qed

text \<open>A coroutine is created and started.\<close>

lemma spawn_ok:
  fixes w :: "'g world"
  assumes w: "winv w" and max: "w_maxCoroId w < 2 ^ 31 - 1" and entry: "\<And>c. good (entry args) False c"
  shows "\<exists>c p w1 w2. CreateCoro entry args w = Ok (c, w1) \<and> Coro_Resume (Suc n) VNil c w1 = Ok (None, w2) \<and> winv w1 \<and> winv w2
     \<and> w_coro w c = None \<and> view w1 = v_Create c p entry args (view w)
     \<and> view w2 = v_exec c (awake_coro VNil (created (w_maxCoroId w + 1) p entry args)) (entry args) (view w1)"
proof -
  obtain c p w1 i where w1: "CreateCoro entry args w = Ok (c, w1)" "winv w1" "w_coro w c = None"
    "w_coro w1 = (w_coro w)(c \<mapsto> created (w_maxCoroId w + 1) p entry args)" "w_inner w1 p = Some i" "\<not> in_cStart i"
    "view w1 = v_Create c p entry args (view w)"
    using CreateCoro_ok [OF w max, of entry args] entry by blast
  let ?o1 = "created (w_maxCoroId w + 1) p entry args"
  have o1: "w_coro w1 c = Some ?o1" using w1(4) by simp
  have "v_live (view w1) (co_id ?o1) = Some c" unfolding w1(7) by (simp add: v_Create_def Let_def)
  then have live: "map_of (w_coros w1) (co_id ?o1) = Some c" by simp
  have inv: "cinv None w1" "ts_inv None w1" "0 \<le> w_maxCoroId w1" "ts_enabled w1" using w1(2) by (simp_all add: winv_def)
  have pi: "co_inner ?o1 = Some p" "in_cStart i \<longrightarrow> (\<exists>q. co_ptrParam1 ?o1 = PPacket q \<and> rsp_shaped q)" using w1(6) by simp_all
  obtain w2 where w2: "Coro_Resume (Suc n) VNil c w1 = Ok (None, w2)" "cinv None w2" "ts_inv None w2" "ts_enabled w2"
    "w_maxCoroId w2 = w_maxCoroId w1" "view w2 = v_Resume VNil c (view w1)"
    using Coro_Resume_ok [OF inv(1,2) o1 live pi(1) w1(5) pi(2), of n VNil] inv(4) by blast
  have "suspended w1 c ?o1 i" using suspended_coro [OF inv(1) o1 live] pi(1) w1(5) by (metis option.inject)
  then have "v_cont (view w1) c = None" using o1 pi(1) w1(5,6) by (simp add: suspended_def saved_ctx_def)
  then have "view w2 = v_exec c (awake_coro VNil ?o1) (entry args) (view w1)"
    using w2(6) o1 by (simp add: v_Resume_def v_run_def resume_prog_def)
  moreover have "winv w2" using w2(2-5) inv(3) by (simp add: winv_def)
  ultimately show ?thesis using w1(1,2,3,7) w2(1) by blast
qed

text \<open>Members of a \<open>Coro\<close> that play no part in the scheduling may change.\<close>

definition same_life :: "'g coroutine \<Rightarrow> 'g coroutine \<Rightarrow> bool" where
  "same_life o1 o2 \<longleftrightarrow> co_id o2 = co_id o1 \<and> co_inner o2 = co_inner o1 \<and> co_yielded o2 = co_yielded o1
     \<and> co_timeouted o2 = co_timeouted o1 \<and> co_cancelled o2 = co_cancelled o1 \<and> co_entry o2 = co_entry o1 \<and> co_args o2 = co_args o1"

lemma map_coros_ok:
  fixes w :: "'g world"
  assumes life: "\<And>c o1. same_life o1 (F c o1)"
  defines "w' \<equiv> w\<lparr>w_coro := (\<lambda>c. map_option (F c) (w_coro w c))\<rparr>"
  shows "winv w \<Longrightarrow> winv w'" "view w' = (view w)\<lparr>v_coro := (\<lambda>c. map_option (F c) (w_coro w c))\<rparr>"
proof -
  have F [simp]: "co_id (F c o1) = co_id o1" "co_inner (F c o1) = co_inner o1" "co_yielded (F c o1) = co_yielded o1"
    "co_timeouted (F c o1) = co_timeouted o1" "co_cancelled (F c o1) = co_cancelled o1" "co_entry (F c o1) = co_entry o1"
    "co_args (F c o1) = co_args o1" for c o1
    using life [of o1 c] by (simp_all add: same_life_def)
  have ts: "deadline w' = deadline w" "ts_inv None w' \<longleftrightarrow> ts_inv None w"
    using ts_cong [of w' w] by (simp_all add: w'_def)
  have f: "ts_timers w' = ts_timers w" "ts_next w' = ts_next w" "ts_now w' = ts_now w" "w_inner w' = w_inner w" "w_stack w' = w_stack w"
    "w_coros w' = w_coros w" "w_recycle w' = w_recycle w" "w_maxCoroId w' = w_maxCoroId w" "w_conn w' = w_conn w"
    "ts_enabled w' = ts_enabled w" "w_globals w' = w_globals w" "w_info w' = w_info w" "w_coro w' c = map_option (F c) (w_coro w c)" for c
    by (simp_all add: w'_def)
  have ok: "coro_ok None w' c (F c o1) \<longleftrightarrow> coro_ok None w c o1" for c o1
    by (simp add: coro_ok_def suspended_def ended_def ts f)
  show "winv w'" if w: "winv w"
  proof -
    have cinv: "cinv None w" using w by (simp add: winv_def)
    have "cinv None w'"
      unfolding cinv_def
    proof (intro conjI allI impI)
      have "w_coro w = Map.empty \<Longrightarrow> w_coro w' = Map.empty" by (simp add: w'_def)
      then show "stack_ok None w'" using cinv unfolding cinv_def stack_ok_def option.case f(4,5) by blast
      show "tables_ok w'"
        by (rule tables_ok_cong [of w]) (use cinv in \<open>simp_all add: cinv_def f\<close>)
      show "coro_ok None w' c o2" if "w_coro w' c = Some o2" for c o2
        using that cinv_coro [OF cinv, of c] ok by (auto simp: f)
    qed (use cinv in \<open>auto simp: cinv_def f ts\<close>)
    then show ?thesis using w by (simp add: winv_def ts f)
  qed
  have "saved_ctx w' c = saved_ctx w c" for c by (cases "w_coro w c") (simp_all add: saved_ctx_def f cong: option.case_cong)
  then show "view w' = (view w)\<lparr>v_coro := (\<lambda>c. map_option (F c) (w_coro w c))\<rparr>" by (intro view_eqI) (simp_all add: ts f)
qed

text \<open>Time passes.\<close>

lemma winv_clock:
  assumes "winv w" "ts_now w \<le> t"
  shows "winv (w\<lparr>ts_now := t\<rparr>)" "view (w\<lparr>ts_now := t\<rparr>) = (view w)\<lparr>v_now := t\<rparr>"
proof -
  let ?w = "w\<lparr>ts_now := t\<rparr>"
  have ts: "deadline ?w = deadline w" "ts_inv None ?w \<longleftrightarrow> ts_inv None w" using ts_cong [of ?w w] by simp_all
  have f: "w_inner ?w = w_inner w" "w_stack ?w = w_stack w" "w_coros ?w = w_coros w" "w_recycle ?w = w_recycle w"
    "w_maxCoroId ?w = w_maxCoroId w" "w_conn ?w = w_conn w" "w_coro ?w = w_coro w" "ts_timers ?w = ts_timers w" "ts_next ?w = ts_next w"
    by simp_all
  have cinv: "cinv None w" using assms(1) by (simp add: winv_def)
  have "stack_ok None ?w" "tables_ok ?w" using cinv by (simp_all add: cinv_def stack_ok_def tables_ok_def)
  moreover have "coro_ok None ?w c o1 \<longleftrightarrow> coro_ok None w c o1" for c o1
    by (simp add: coro_ok_def suspended_def ended_def ts)
  moreover have "d - t < LONG_TIMEOUT_TIME" if "deadline w s = Some d" for s d using that cinv assms(2) by (force simp: cinv_def)
  ultimately have "cinv None ?w" using cinv unfolding cinv_def f ts by simp
  then show "winv ?w" using assms(1) ts by (simp add: winv_def)
  have "saved_ctx ?w c = saved_ctx w c" for c by (rule saved_ctx_cong) simp_all
  then show "view ?w = (view w)\<lparr>v_now := t\<rparr>" by (simp add: view_def ts)
qed

end
