(* ===== verification/Rpc.thy ===== *)
theory Rpc
  imports Coroutine_Safety
begin

text \<open>
  The RPC layer: the client side \<open>RpcChannel::CallMethod\<close> (rpc/src/rpc_channel.cpp), the server side
  \<open>RpcMgr\<close> (rpc/src/rpc_mgr.cpp), and the dispatch of the service's queued events to them
  (\<open>HandleQueuedEvents\<close> in llbc/comm/ServiceImpl.cpp, \<open>ConnMgr::Tick\<close>).

  Code that can run on a coroutine takes its continuation as its last argument. \<open>CallMethod\<close> passes on
  the reason with which it called \<open>SetFailed\<close>, if it did, and the content of the response, if it is no
  longer the cleared one. Protobuf messages are values of a type \<open>'m\<close> with a \<open>codec\<close>: the generated
  serializer and parser, and what a failed parse leaves in the message. A service is a table of its
  methods, with the code that \<open>Service::CallMethod\<close> dispatches to.
\<close>

section \<open>Controllers and descriptors\<close>

definition ascii :: "string \<Rightarrow> byte list" where
  "ascii s = map of_char s"

record controller =
  ctl_isFailed :: bool
  ctl_errorText :: "byte list"

definition RpcController_new :: controller where
  "RpcController_new = \<lparr>ctl_isFailed = False, ctl_errorText = []\<rparr>"

definition SetFailed :: "byte list \<Rightarrow> controller \<Rightarrow> controller" where
  "SetFailed reason ctl = ctl\<lparr>ctl_isFailed := True, ctl_errorText := reason\<rparr>"

definition ctl_Reset :: "controller \<Rightarrow> controller" where
  "ctl_Reset ctl = ctl"

text \<open>What \<open>CallMethod\<close> does to the controller it is given.\<close>

definition fail_with :: "byte list option \<Rightarrow> controller \<Rightarrow> controller" where
  "fail_with reason ctl = (case reason of None \<Rightarrow> ctl | Some r \<Rightarrow> SetFailed r ctl)"

record 'm codec =
  cd_ser :: "'m \<Rightarrow> byte list"
  cd_parse :: "byte list \<Rightarrow> 'm option"
  cd_partial :: "packet \<Rightarrow> 'm"

record 'm rpc_method =
  md_service :: "byte list"
  md_name :: "byte list"
  md_req :: "'m codec"
  md_rsp :: "'m codec"
  md_new :: 'm
  md_isCoroRequired :: bool

type_synonym ('m, 'g) impl = "controller \<Rightarrow> 'm \<Rightarrow> 'm \<Rightarrow> (controller \<Rightarrow> 'm \<Rightarrow> 'g prog) \<Rightarrow> 'g prog"

text \<open>\<open>_services\<close>: by service name and method name.\<close>

type_synonym ('m, 'g) services = "byte list \<rightharpoonup> byte list \<rightharpoonup> 'm rpc_method \<times> ('m, 'g) impl"

text \<open>The byte order of the host, and what the message block pool hands out.\<close>

record rpc_env =
  env_me :: nat
  env_pool :: "msg_block option"

definition RpcReq :: "32 word" where
  "RpcReq = 1"

definition RpcRsp :: "32 word" where
  "RpcRsp = 2"

text \<open>A computation on packets inside a program.\<close>

definition lift_outcome :: "'a outcome \<Rightarrow> ('a \<Rightarrow> 'g prog) \<Rightarrow> 'g prog" where
  "lift_outcome r k = (case r of Ok x \<Rightarrow> k x | Fault e \<Rightarrow> Crash e | Fuel \<Rightarrow> NoFuel)"

section \<open>The client side\<close>

text \<open>The request packet: service and method names, the id of the calling coroutine, the message.\<close>

definition req_packet :: "rpc_env \<Rightarrow> int \<Rightarrow> 'm rpc_method \<Rightarrow> int \<Rightarrow> 'm \<Rightarrow> packet outcome" where
  "req_packet env sessionId md coroId request =
     (let me = env_me env; p0 = (pk_SetHeader 0 RpcReq 0 (Packet_new (env_pool env)))\<lparr>pk_sessionId := sessionId\<rparr> in
      obind (pk_Write_string me (md_service md) p0) (\<lambda>(_, p1).
      obind (pk_Write_string me (md_name md) p1) (\<lambda>(_, p2).
      obind (pk_WriteRawType me (word_of_int coroId :: 32 word) p2) (\<lambda>(_, p3).
      obind (pk_Write_pb (cd_ser (md_req md)) me request p3) (\<lambda>(_, p4). Ok p4)))))"

text \<open>Reading the response packet: the reason of a failure, if any, and the response.\<close>

definition read_rsp :: "rpc_env \<Rightarrow> 'm rpc_method \<Rightarrow> packet \<Rightarrow> (byte list option \<times> 'm option) outcome" where
  "read_rsp env md recvPacket = obind (pk_Read_string (env_me env) recvPacket) (\<lambda>(r, p1). case r of
       None \<Rightarrow> Ok (Some (ascii ''Read errText fail''), None)
     | Some errText \<Rightarrow> obind (pk_Read_pb (cd_parse (md_rsp md)) (env_me env) p1) (\<lambda>(m, p2). case m of
         None \<Rightarrow> Ok (Some (ascii ''Read recvPacket fail''), Some (cd_partial (md_rsp md) p1))
       | Some response \<Rightarrow> Ok (if errText = [] then None else Some errText, Some response)))"

text \<open>\<open>CallMethod\<close> after its yield: why was the coroutine woken?\<close>

definition await_rsp :: "rpc_env \<Rightarrow> 'm rpc_method \<Rightarrow> nat \<Rightarrow> (byte list option \<Rightarrow> 'm option \<Rightarrow> 'g prog) \<Rightarrow> llbc_error option \<Rightarrow> 'g prog" where
  "await_rsp env md c k ret = Deref c (\<lambda>o1.
     if co_timeouted o1 then k (Some (ascii ''Coro timeouted'')) None
     else if co_cancelled o1 then k (Some (ascii ''Coro cancelled'')) None
     else (case co_ptrParam1 o1 of PNull \<Rightarrow> Crash NullDeref | PDangling \<Rightarrow> Crash UseAfterFree
       | PPacket recvPacket \<Rightarrow> lift_outcome (read_rsp env md recvPacket) (\<lambda>(reason, rsp). k reason rsp)))"

definition CallMethod :: "rpc_env \<Rightarrow> int \<Rightarrow> 'm rpc_method \<Rightarrow> 'm \<Rightarrow> (byte list option \<Rightarrow> 'm option \<Rightarrow> 'g prog) \<Rightarrow> 'g prog" where
  "CallMethod env sessionId md request k =
     CurCoro (\<lambda>coro. case coro of None \<Rightarrow> Crash NullDeref | Some c \<Rightarrow>
     IsMain c (\<lambda>isMain. if isMain then k None None else
     CurCoro (\<lambda>cur. case cur of None \<Rightarrow> Crash NullDeref | Some c1 \<Rightarrow>
     Deref c1 (\<lambda>o1. lift_outcome (req_packet env sessionId md (co_id o1) request) (\<lambda>sendPacket.
     Push sendPacket (YieldOn c 0 (await_rsp env md c k)))))))"

section \<open>The server side\<close>

definition RpcMgr_new :: "rpc_handler conn_mgr \<Rightarrow> rpc_handler conn_mgr outcome" where
  "RpcMgr_new c = obind (cm_Subscribe RpcReq OnRpcReq c) (\<lambda>(_, c1).
     obind (cm_Subscribe RpcRsp OnRpcRsp c1) (\<lambda>(_, c2). Ok c2))"

definition RpcMgr_delete :: "rpc_handler conn_mgr \<Rightarrow> rpc_handler conn_mgr" where
  "RpcMgr_delete c = cm_Unsubscribe RpcRsp (cm_Unsubscribe RpcReq c)"

definition AddService :: "byte list \<Rightarrow> ('m rpc_method \<times> ('m, 'g) impl) list \<Rightarrow> ('m, 'g) services \<Rightarrow> ('m, 'g) services" where
  "AddService name methods svcs = svcs(name \<mapsto> fold (\<lambda>m mds. mds(md_name (fst m) \<mapsto> m)) methods Map.empty)"

definition rsp_packet :: "rpc_env \<Rightarrow> 'm rpc_method \<Rightarrow> controller \<Rightarrow> 'm \<Rightarrow> int \<Rightarrow> int \<Rightarrow> packet outcome" where
  "rsp_packet env md ctl rsp sessionId srcCoroId =
     (let me = env_me env; p0 = (Packet_new (env_pool env))\<lparr>pk_sessionId := sessionId, pk_opcode := RpcRsp\<rparr> in
      obind (pk_WriteRawType me (word_of_int srcCoroId :: 32 word) p0) (\<lambda>(_, p1).
      obind (pk_Write_string me (ctl_errorText ctl) p1) (\<lambda>(_, p2).
      obind (pk_Write_pb (cd_ser (md_rsp md)) me rsp p2) (\<lambda>(_, p3). Ok p3))))"

definition OnRpcDone :: "rpc_env \<Rightarrow> 'm rpc_method \<Rightarrow> controller \<Rightarrow> 'm \<Rightarrow> int \<Rightarrow> int \<Rightarrow> 'g prog \<Rightarrow> 'g prog" where
  "OnRpcDone env md ctl rsp sessionId srcCoroId k =
     lift_outcome (rsp_packet env md ctl rsp sessionId srcCoroId) (\<lambda>packet. Push packet k)"

text \<open>The handling of a request: the code of the method, then the response.\<close>

definition serve :: "rpc_env \<Rightarrow> 'm rpc_method \<Rightarrow> ('m, 'g) impl \<Rightarrow> 'm \<Rightarrow> int \<Rightarrow> int \<Rightarrow> 'g prog" where
  "serve env md f req sessionId srcCoroId =
     f RpcController_new req (md_new md) (\<lambda>ctl rsp. OnRpcDone env md ctl rsp sessionId srcCoroId Finish)"

text \<open>Code that is called by the main routine itself; it has no stack to leave.\<close>

definition run_main :: "nat \<Rightarrow> 'g prog \<Rightarrow> 'g world \<Rightarrow> 'g world outcome" where
  "run_main n prog w = obind (run prog (Coro_Yield (resume_nil n)) w) (\<lambda>(r, w1). case r of
       None \<Rightarrow> Ok w1 | Some _ \<Rightarrow> Fault OutOfBounds)"

definition HandleRpcReq :: "nat \<Rightarrow> rpc_env \<Rightarrow> ('m, 'g) services \<Rightarrow> packet \<Rightarrow> 'g world \<Rightarrow> 'g world outcome" where
  "HandleRpcReq n env svcs packet w =
     obind (pk_Read_string (env_me env) packet) (\<lambda>(r1, p1). case r1 of None \<Rightarrow> Ok w | Some serviceName \<Rightarrow>
     obind (pk_Read_string (env_me env) p1) (\<lambda>(r2, p2). case r2 of None \<Rightarrow> Ok w | Some methodName \<Rightarrow>
     obind (pk_ReadRawType (env_me env) p2) (\<lambda>(r3, p3). case r3 of None \<Rightarrow> Ok w | Some srcCoro \<Rightarrow>
       let srcCoroId = sint (srcCoro :: 32 word) in
       case svcs serviceName of None \<Rightarrow> Fault NullDeref | Some mds \<Rightarrow>
       case mds methodName of None \<Rightarrow> Fault NullDeref | Some (md, f) \<Rightarrow>
       obind (pk_Read_pb (cd_parse (md_req md)) (env_me env) p3) (\<lambda>(r4, p4). case r4 of None \<Rightarrow> Ok w | Some req \<Rightarrow>
         let func = serve env md f req (pk_sessionId packet) srcCoroId in
         if \<not> md_isCoroRequired md then run_main n func w
         else obind (CreateCoro (\<lambda>_. func) 0 w) (\<lambda>(coro, w1).
              obind (Coro_Resume n VNil coro w1) (\<lambda>(_, w2). Ok w2))))))"

definition HandleRpcRsp :: "nat \<Rightarrow> rpc_env \<Rightarrow> packet \<Rightarrow> 'g world \<Rightarrow> 'g world outcome" where
  "HandleRpcRsp n env packet w =
     obind (pk_ReadRawType (env_me env) packet) (\<lambda>(r, p1). case r of None \<Rightarrow> Ok w
       | Some dstCoro \<Rightarrow> (case GetCoro (sint (dstCoro :: 32 word)) w of None \<Rightarrow> Ok w
         | Some c \<Rightarrow> obind (coro_at c w) (\<lambda>o1.
             obind (Coro_Resume n VNil c (set_coro c (o1\<lparr>co_ptrParam1 := PPacket p1\<rparr>) w)) (\<lambda>(_, w1). Ok w1))))"

section \<open>Dispatch\<close>

text \<open>\<open>LLBC_Recycle(packet)\<close>: from then on the pointers to the packet dangle. Only the packet that
is being handled is pointed to.\<close>

definition forget_packet :: "'g coroutine \<Rightarrow> 'g coroutine" where
  "forget_packet o1 = (case co_ptrParam1 o1 of PPacket _ \<Rightarrow> o1\<lparr>co_ptrParam1 := PDangling\<rparr> | _ \<Rightarrow> o1)"

definition recycle_packet :: "'g world \<Rightarrow> 'g world" where
  "recycle_packet w = w\<lparr>w_coro := (\<lambda>c. map_option forget_packet (w_coro w c))\<rparr>"

definition HandlePacket :: "nat \<Rightarrow> rpc_env \<Rightarrow> ('m, 'g) services \<Rightarrow> rpc_handler \<Rightarrow> packet \<Rightarrow> 'g world \<Rightarrow> 'g world outcome" where
  "HandlePacket n env svcs h packet w =
     obind (case h of OnRpcReq \<Rightarrow> HandleRpcReq n env svcs packet w | OnRpcRsp \<Rightarrow> HandleRpcRsp n env packet w)
       (\<lambda>w1. Ok (recycle_packet w1))"

text \<open>One queued event. \<open>ConnComp\<close> only logs the creation of sessions and unhandled packets.\<close>

definition HandleEvent :: "nat \<Rightarrow> rpc_env \<Rightarrow> ('m, 'g) services \<Rightarrow> svc_event \<Rightarrow> 'g world \<Rightarrow> 'g world outcome" where
  "HandleEvent n env svcs ev w = (case cm_svc (w_conn w) of None \<Rightarrow> Fault NullDeref
     | Some s \<Rightarrow> (case ev of
         SessionCreate sid isListen \<Rightarrow> Ok (w\<lparr>w_conn := (w_conn w)\<lparr>cm_svc := Some (AddReadySession sid isListen s)\<rparr>\<rparr>)
       | SessionDestroy sid \<Rightarrow> obind (OnSessionDestroy sid ((w_conn w)\<lparr>cm_svc := Some (RemoveReadySession sid s)\<rparr>))
           (\<lambda>c. Ok (w\<lparr>w_conn := c\<rparr>))
       | DataArrival packet \<Rightarrow> (case HandleEv_DataArrival packet s of
           Dropped \<Rightarrow> Ok w | PassedOn _ \<Rightarrow> Ok w | UnHandled _ \<Rightarrow> Ok w
         | Handled h packet1 \<Rightarrow> HandlePacket n env svcs h packet1 w)))"

fun HandleQueuedEvents :: "nat \<Rightarrow> rpc_env \<Rightarrow> ('m, 'g) services \<Rightarrow> svc_event list \<Rightarrow> 'g world \<Rightarrow> 'g world outcome" where
  "HandleQueuedEvents n env svcs [] w = Ok w"
| "HandleQueuedEvents n env svcs (ev # evs) w =
     obind (HandleEvent n env svcs ev w) (HandleQueuedEvents n env svcs evs)"

text \<open>\<open>ConnMgr::Tick\<close> calls \<open>OnSvc\<close>, which takes all queued events and handles them in order.\<close>

definition cm_Tick :: "nat \<Rightarrow> rpc_env \<Rightarrow> ('m, 'g) services \<Rightarrow> 'g world \<Rightarrow> 'g world outcome" where
  "cm_Tick n env svcs w = (case cm_svc (w_conn w) of None \<Rightarrow> Fault NullDeref
     | Some s \<Rightarrow> if \<not> sv_started s then Ok w
         else HandleQueuedEvents n env svcs (sv_events s)
                (w\<lparr>w_conn := (w_conn w)\<lparr>cm_svc := Some (s\<lparr>sv_events := []\<rparr>)\<rparr>\<rparr>))"

end
