(* ===== verification/Packet_Protocol.thy ===== *)
theory Packet_Protocol
  imports Packet
begin

text \<open>
  The wire format: \<open>LLBC_PacketHeaderAssembler\<close> (llbc/comm/PacketHeaderAssembler.cpp) and the
  packing layer \<open>LLBC_PacketProtocol\<close> (llbc/comm/protocol/PacketProtocol.cpp).

  \<open>Send\<close> turns a packet into a block of 28 header bytes and the payload. \<open>Recv\<close> is called with
  the blocks the socket delivers, cut anywhere, and keeps what belongs to an unfinished packet
  in the protocol object. What it relies on outside this layer (the session's ids, the
  socket's maximal packet size and the packet pool) is the record \<open>recv_env\<close>. The loop of
  \<open>Recv\<close> has fuel, one unit per byte of the block and one more; \<open>recv_step\<close> and
  \<open>recv_loop_frames\<close> show that it is enough.

  \<open>frames\<close> is the reference: it cuts a byte sequence into frames. \<open>Recv\<close> refines it, whatever
  the chunks (\<open>recv_implements_framing\<close>), and hence the packets sent are the packets received
  (\<open>protocol_roundtrip\<close>).
\<close>

section \<open>The header assembler\<close>

record header_asm =
  ha_headerLen :: nat
  ha_header :: "byte list"
  ha_curRecved :: nat

definition HeaderAssembler_new :: "nat \<Rightarrow> header_asm" where
  "HeaderAssembler_new headerLen =
     \<lparr>ha_headerLen = headerLen, ha_header = replicate headerLen junk_byte, ha_curRecved = 0\<rparr>"

text \<open>\<open>Assemble\<close> returns whether the header is complete and how many bytes it used.\<close>

definition ha_Assemble :: "byte list \<Rightarrow> header_asm \<Rightarrow> bool \<times> nat \<times> header_asm" where
  "ha_Assemble data h =
     (if ha_curRecved h = ha_headerLen h then (True, 0, h)
      else let needSize = ha_headerLen h - ha_curRecved h in
        if length data \<ge> needSize
        then (True, needSize, h\<lparr>ha_header := mem_write (ha_header h) (ha_curRecved h) (take needSize data),
                               ha_curRecved := ha_headerLen h\<rparr>)
        else (False, length data, h\<lparr>ha_header := mem_write (ha_header h) (ha_curRecved h) data,
                               ha_curRecved := ha_curRecved h + length data\<rparr>))"

definition ha_Reset :: "header_asm \<Rightarrow> header_asm" where
  "ha_Reset h = h\<lparr>ha_curRecved := 0\<rparr>"

definition ha_SetToPacket :: "nat \<Rightarrow> header_asm \<Rightarrow> packet \<Rightarrow> packet" where
  "ha_SetToPacket me h p = (let hdr = ha_header h;
       len = LLBC_Net2Host me (of_mem me (mem_read hdr 0 4) :: 32 word);
       opcode = LLBC_Net2Host me (of_mem me (mem_read hdr 4 4) :: 32 word);
       status = LLBC_Net2Host me (of_mem me (mem_read hdr 8 2) :: 16 word);
       senderServiceId = LLBC_Net2Host me (of_mem me (mem_read hdr 10 4) :: 32 word);
       recverServiceId = LLBC_Net2Host me (of_mem me (mem_read hdr 14 4) :: 32 word);
       flags = LLBC_Net2Host me (of_mem me (mem_read hdr 18 2) :: 16 word);
       extData1 = LLBC_Net2Host_64 me (of_mem me (mem_read hdr 20 8))
     in p\<lparr>pk_length := unat len, pk_opcode := opcode, pk_status := ucast status,
          pk_senderSvcId := senderServiceId, pk_recverSvcId := recverServiceId,
          pk_flags := ucast flags, pk_extData1 := extData1\<rparr>)"

section \<open>The packing layer\<close>

definition headerLen :: nat where
  "headerLen = 28"

record pproto =
  pp_headerAssembler :: header_asm
  pp_packet :: "packet option"
  pp_payloadNeedRecv :: nat
  pp_payloadRecved :: nat

definition PacketProtocol_new :: pproto where
  "PacketProtocol_new = \<lparr>pp_headerAssembler = HeaderAssembler_new headerLen, pp_packet = None,
                         pp_payloadNeedRecv = 0, pp_payloadRecved = 0\<rparr>"

record recv_env =
  re_maxPacketLen :: nat
  re_sessionId :: int
  re_acceptSessionId :: int
  re_pool :: "msg_block option"

text \<open>A block write whose result the caller ignores.\<close>

definition mb_put :: "byte list option \<Rightarrow> nat \<Rightarrow> msg_block \<Rightarrow> msg_block outcome" where
  "mb_put buf len b = obind (mb_Write buf len b) (\<lambda>r. Ok (case r of Inl _ \<Rightarrow> b | Inr b' \<Rightarrow> b'))"

definition pp_Send :: "nat \<Rightarrow> packet \<Rightarrow> msg_block outcome" where
  "pp_Send me packet =
     (let len = (of_nat (headerLen + pk_GetPayloadLength packet) :: 32 word);
          block = MessageBlock_new (unat len);
          opcode = pk_opcode packet;
          status = (ucast (pk_status packet) :: 16 word);
          senderServiceId = pk_senderSvcId packet;
          recverServiceId = pk_recverSvcId packet;
          flags = (ucast (pk_flags packet) :: 16 word);
          extData1 = pk_extData1 packet
      in obind (mb_put (Some (mem_bytes me (LLBC_Host2Net me len))) 4 block) (\<lambda>block.
         obind (mb_put (Some (mem_bytes me (LLBC_Host2Net me opcode))) 4 block) (\<lambda>block.
         obind (mb_put (Some (mem_bytes me (LLBC_Host2Net me status))) 2 block) (\<lambda>block.
         obind (mb_put (Some (mem_bytes me (LLBC_Host2Net me senderServiceId))) 4 block) (\<lambda>block.
         obind (mb_put (Some (mem_bytes me (LLBC_Host2Net me recverServiceId))) 4 block) (\<lambda>block.
         obind (mb_put (Some (mem_bytes me (LLBC_Host2Net me flags))) 2 block) (\<lambda>block.
         obind (mb_put (Some (mem_bytes me (LLBC_Host2Net_64 me extData1))) 8 block) (\<lambda>block.
           mb_put (pk_GetPayload packet) (pk_GetPayloadLength packet) block))))))))"

text \<open>
  \<open>Recv\<close>. Its answer: the error, if LLBC_FAILED is returned; the list \<open>out\<close> of finished packets
  (null if there is none); the flag \<open>removeSession\<close>; and the protocol object.
\<close>

type_synonym recv_result = "llbc_error option \<times> packet list option \<times> bool \<times> pproto"

datatype header_step = NeedMore pproto | BadLength pproto | HeaderDone pproto "byte list" msg_block

definition mb_shift :: "nat \<Rightarrow> msg_block \<Rightarrow> msg_block" where
  "mb_shift off b = (case mb_ShiftReadPos (int off) b of Inl _ \<Rightarrow> b | Inr b' \<Rightarrow> b')"

definition pp_RecvHeader :: "nat \<Rightarrow> recv_env \<Rightarrow> msg_block \<Rightarrow> pproto \<Rightarrow> header_step" where
  "pp_RecvHeader me env block st = (let readableBuf = mb_data block in
     case pp_packet st of Some _ \<Rightarrow> HeaderDone st readableBuf block
     | None \<Rightarrow> (case ha_Assemble readableBuf (pp_headerAssembler st) of (completed, headerUsed, h) \<Rightarrow>
         if \<not> completed then NeedMore (st\<lparr>pp_headerAssembler := h\<rparr>)
         else let packet = (ha_SetToPacket me h (Packet_new (re_pool env)))
                    \<lparr>pk_sessionId := re_sessionId env, pk_acceptSessionId := re_acceptSessionId env\<rparr>;
                  packetLen = pk_length packet
           in if packetLen < headerLen \<or> packetLen > re_maxPacketLen env
              then BadLength (st\<lparr>pp_headerAssembler := ha_Reset h, pp_packet := None, pp_payloadNeedRecv := 0\<rparr>)
              else HeaderDone (st\<lparr>pp_headerAssembler := ha_Reset h, pp_packet := Some packet,
                                  pp_payloadNeedRecv := packetLen - headerLen\<rparr>)
                     (drop headerUsed readableBuf) (mb_shift headerUsed block)))"

definition add_out :: "packet \<Rightarrow> packet list option \<Rightarrow> packet list option" where
  "add_out p out = Some ((case out of None \<Rightarrow> [] | Some ps \<Rightarrow> ps) @ [p])"

fun pp_Recv_loop :: "nat \<Rightarrow> nat \<Rightarrow> recv_env \<Rightarrow> msg_block \<Rightarrow> packet list option \<Rightarrow> pproto \<Rightarrow> recv_result outcome" where
  "pp_Recv_loop 0 me env block out st = Fuel"
| "pp_Recv_loop (Suc n) me env block out st =
     (if mb_GetReadableSize block = 0 then Ok (None, out, False, st)
      else case pp_RecvHeader me env block st of
        NeedMore st' \<Rightarrow> Ok (None, out, False, st')
      | BadLength st' \<Rightarrow> Ok (Some ERROR_PACK, None, True, st')
      | HeaderDone st' readableBuf block' \<Rightarrow>
          (let contentNeedRecv = size_sub (pp_payloadNeedRecv st') (pp_payloadRecved st');
               readableSize = length readableBuf
           in case pp_packet st' of None \<Rightarrow> Fault NullDeref | Some packet \<Rightarrow>
             if readableSize < contentNeedRecv
             then obind (pk_Write_buf (Some readableBuf) readableSize packet) (\<lambda>(_, packet').
                    Ok (None, out, False, st'\<lparr>pp_packet := Some packet',
                                             pp_payloadRecved := pp_payloadRecved st' + readableSize\<rparr>))
             else obind (pk_Write_buf (Some readableBuf) contentNeedRecv packet) (\<lambda>(_, packet').
                    pp_Recv_loop n me env (mb_shift contentNeedRecv block') (add_out packet' out)
                      (st'\<lparr>pp_packet := None, pp_payloadRecved := 0, pp_payloadNeedRecv := 0\<rparr>))))"

definition pp_Recv :: "nat \<Rightarrow> recv_env \<Rightarrow> msg_block \<Rightarrow> pproto \<Rightarrow> recv_result outcome" where
  "pp_Recv me env block st = pp_Recv_loop (Suc (mb_GetReadableSize block)) me env block None st"

section \<open>The reference: cutting bytes into frames\<close>

definition wire_len :: "nat \<Rightarrow> byte list \<Rightarrow> nat" where
  "wire_len me bs = unat (LLBC_Net2Host me (of_mem me (take 4 bs) :: 32 word))"

function frames :: "nat \<Rightarrow> nat \<Rightarrow> byte list \<Rightarrow> (byte list list \<times> byte list) option" where
  "frames me mx bs =
     (if length bs < headerLen then Some ([], bs)
      else if wire_len me bs < headerLen \<or> wire_len me bs > mx then None
      else if length bs < wire_len me bs then Some ([], bs)
      else case frames me mx (drop (wire_len me bs) bs) of None \<Rightarrow> None
           | Some (fs, rest) \<Rightarrow> Some (take (wire_len me bs) bs # fs, rest))"
  by pat_completeness auto
termination by (relation "measure (\<lambda>(_, _, bs). length bs)") (auto simp: headerLen_def)

declare frames.simps [simp del]

lemma wire_len_append: "4 \<le> length xs \<Longrightarrow> wire_len me (xs @ ys) = wire_len me xs"
  by (simp add: wire_len_def)

lemma frames_short: "length bs < headerLen \<Longrightarrow> frames me mx bs = Some ([], bs)"
  by (simp add: frames.simps)

lemma frames_bad:
  "headerLen \<le> length bs \<Longrightarrow> wire_len me bs < headerLen \<or> mx < wire_len me bs \<Longrightarrow> frames me mx bs = None"
  by (auto simp: frames.simps)

lemma frames_more:
  "headerLen \<le> wire_len me bs \<Longrightarrow> wire_len me bs \<le> mx \<Longrightarrow> length bs < wire_len me bs \<Longrightarrow>
   frames me mx bs = Some ([], bs)"
  by (auto simp: frames.simps)

lemma frames_Cons:
  assumes "headerLen \<le> length f" "wire_len me f = length f" "length f \<le> mx"
  shows "frames me mx (f @ bs) = map_option (\<lambda>(fs, rest). (f # fs, rest)) (frames me mx bs)"
proof -
  have "wire_len me (f @ bs) = length f"
    using assms wire_len_append [of f me bs] by (simp add: headerLen_def)
  then show ?thesis
    using assms by (subst frames.simps) (auto split: option.splits)
qed

text \<open>Cutting can be resumed with more bytes.\<close>

lemma frames_append:
  "frames me mx bs = Some (fs, rest) \<Longrightarrow>
   frames me mx (bs @ cs) = map_option (\<lambda>(gs, r). (fs @ gs, r)) (frames me mx (rest @ cs))"
proof (induction me mx bs arbitrary: fs rest rule: frames.induct)
  case (1 me mx bs)
  let ?n = "wire_len me bs"
  show ?case
  proof (cases "headerLen \<le> length bs \<and> headerLen \<le> ?n \<and> ?n \<le> mx \<and> ?n \<le> length bs")
    case True
    obtain gs where gs: "frames me mx (drop ?n bs) = Some (gs, rest)" "fs = take ?n bs # gs"
      using 1(2) True by (subst (asm) frames.simps) (auto split: option.splits)
    have "wire_len me (take ?n bs) = ?n"
      using True wire_len_append [of "take ?n bs" me "drop ?n bs"] by (simp add: headerLen_def)
    then have "frames me mx (take ?n bs @ drop ?n bs @ cs)
        = map_option (\<lambda>(fs, r). (take ?n bs # fs, r)) (frames me mx (drop ?n bs @ cs))"
      using True by (intro frames_Cons) auto
    then show ?thesis
      using 1(1) [OF _ _ _ gs(1)] True gs(2)
      by (simp add: option.map_comp comp_def case_prod_beta flip: append_assoc)
  next
    case False
    then have "fs = [] \<and> rest = bs" using 1(2) by (subst (asm) frames.simps) (auto split: if_splits)
    then show ?thesis by (simp add: option.map_id case_prod_beta flip: id_def)
  qed
qed

section \<open>Recv refines the reference\<close>

text \<open>The packet that a header describes.\<close>

definition header_packet :: "nat \<Rightarrow> recv_env \<Rightarrow> byte list \<Rightarrow> packet" where
  "header_packet me env hdr = (ha_SetToPacket me
       \<lparr>ha_headerLen = headerLen, ha_header = hdr, ha_curRecved = headerLen\<rparr> (Packet_new (re_pool env)))
     \<lparr>pk_sessionId := re_sessionId env, pk_acceptSessionId := re_acceptSessionId env\<rparr>"

definition packet_of_frame :: "nat \<Rightarrow> recv_env \<Rightarrow> byte list \<Rightarrow> packet \<Rightarrow> bool" where
  "packet_of_frame me env f p \<longleftrightarrow>
     same_header (header_packet me env (take headerLen f)) p \<and> pk_ok p \<and> pk_data p = drop headerLen f"

text \<open>The bytes that a protocol object holds back.\<close>

definition pending :: "pproto \<Rightarrow> byte list" where
  "pending st = (case pp_packet st of
     None \<Rightarrow> take (ha_curRecved (pp_headerAssembler st)) (ha_header (pp_headerAssembler st))
   | Some p \<Rightarrow> ha_header (pp_headerAssembler st) @ pk_data p)"

definition pp_inv :: "nat \<Rightarrow> recv_env \<Rightarrow> pproto \<Rightarrow> bool" where
  "pp_inv me env st \<longleftrightarrow> ha_headerLen (pp_headerAssembler st) = headerLen
     \<and> length (ha_header (pp_headerAssembler st)) = headerLen
     \<and> ha_curRecved (pp_headerAssembler st) < headerLen
     \<and> (case pp_packet st of None \<Rightarrow> pp_payloadRecved st = 0
        | Some p \<Rightarrow> packet_of_frame me env (pending st) p
            \<and> ha_curRecved (pp_headerAssembler st) = 0
            \<and> pp_payloadRecved st = length (pk_data p)
            \<and> headerLen \<le> wire_len me (pending st) \<and> wire_len me (pending st) \<le> re_maxPacketLen env
            \<and> pp_payloadNeedRecv st = wire_len me (pending st) - headerLen
            \<and> length (pending st) < wire_len me (pending st))"

lemma pp_inv_new: "pp_inv me env PacketProtocol_new" "pending PacketProtocol_new = []"
  by (simp_all add: pp_inv_def pending_def PacketProtocol_new_def HeaderAssembler_new_def headerLen_def)

lemma pk_length_SetToPacket: "pk_length (ha_SetToPacket me h q) = wire_len me (ha_header h)"
  by (simp add: ha_SetToPacket_def wire_len_def Let_def mem_read_def)

lemma mb_shift_data:
  assumes "mb_own b" "n \<le> length (mb_data b)"
  shows "mb_own (mb_shift n b)" "mb_data (mb_shift n b) = drop n (mb_data b)"
proof -
  have "n \<le> mb_GetReadableSize b" using assms length_mb_data [of b] by (simp add: mb_own_def)
  then have rd: "mb_Read True n b = Inr (mem_read (mb_buf b) (mb_readPos b) n, b\<lparr>mb_readPos := mb_readPos b + n\<rparr>)"
    "mb_readPos b + n \<le> mb_size b"
    using assms(1) by (auto simp: mb_Read_def mb_GetReadableSize_def mb_defs split: if_splits)
  then have "mb_shift n b = b\<lparr>mb_readPos := mb_readPos b + n\<rparr>"
    by (simp add: mb_shift_def mb_ShiftReadPos_def nat_int_add)
  then show "mb_own (mb_shift n b)" "mb_data (mb_shift n b) = drop n (mb_data b)"
    using mb_Read_data [OF assms] rd(1) by auto
qed

text \<open>A protocol object with a complete header and a packet that may just have become complete.\<close>

definition pp_ready :: "nat \<Rightarrow> recv_env \<Rightarrow> pproto \<Rightarrow> packet \<Rightarrow> bool" where
  "pp_ready me env st p \<longleftrightarrow> ha_headerLen (pp_headerAssembler st) = headerLen
     \<and> length (ha_header (pp_headerAssembler st)) = headerLen
     \<and> ha_curRecved (pp_headerAssembler st) = 0 \<and> pp_packet st = Some p
     \<and> packet_of_frame me env (pending st) p \<and> pp_payloadRecved st = length (pk_data p)
     \<and> headerLen \<le> wire_len me (pending st) \<and> wire_len me (pending st) \<le> re_maxPacketLen env
     \<and> pp_payloadNeedRecv st = wire_len me (pending st) - headerLen
     \<and> length (pending st) \<le> wire_len me (pending st)"

lemma pp_inv_Some: "pp_packet st = Some p \<Longrightarrow>
    pp_inv me env st \<longleftrightarrow> pp_ready me env st p \<and> length (pending st) < wire_len me (pending st)"
  by (auto simp: pp_inv_def pp_ready_def headerLen_def)

lemma pp_inv_idle: "pp_packet st = None \<Longrightarrow> pp_inv me env st \<longleftrightarrow>
     ha_headerLen (pp_headerAssembler st) = headerLen \<and> length (ha_header (pp_headerAssembler st)) = headerLen
     \<and> ha_curRecved (pp_headerAssembler st) < headerLen \<and> pp_payloadRecved st = 0"
  by (simp add: pp_inv_def)

lemma frames_pending:
  assumes "pp_inv me env st"
  shows "frames me (re_maxPacketLen env) (pending st) = Some ([], pending st)"
proof (cases "pp_packet st")
  case None
  then show ?thesis using assms by (intro frames_short) (auto simp: pp_inv_idle pending_def)
next
  case (Some p)
  then show ?thesis using assms by (intro frames_more) (auto simp: pp_inv_Some pp_ready_def)
qed

text \<open>The three ways the header part of an iteration ends.\<close>

lemma recv_header_more:
  assumes "pp_inv me env st" "length (pending st @ mb_data block) < headerLen"
  shows "\<exists>st'. pp_RecvHeader me env block st = NeedMore st' \<and> pp_inv me env st'
     \<and> pending st' = pending st @ mb_data block"
proof -
  have "pp_packet st = None" using assms by (auto simp: pp_inv_def pending_def split: option.splits)
  then show ?thesis
    using assms take_mem_write_end [of "ha_curRecved (pp_headerAssembler st)"
        "ha_header (pp_headerAssembler st)" "mb_data block"]
    by (auto simp: pp_RecvHeader_def ha_Assemble_def pp_inv_idle pending_def mem_simps Let_def)
qed

lemma recv_header_assembled:
  assumes "pp_inv me env st" "pp_packet st = None" "headerLen \<le> length (pending st @ mb_data block)"
  shows "\<exists>used h. ha_Assemble (mb_data block) (pp_headerAssembler st) = (True, used, h)
     \<and> 0 < used \<and> used \<le> length (mb_data block) \<and> ha_headerLen h = headerLen
     \<and> ha_header h @ drop used (mb_data block) = pending st @ mb_data block \<and> length (ha_header h) = headerLen"
proof -
  let ?h = "pp_headerAssembler st" and ?d = "mb_data block"
  let ?n = "headerLen - ha_curRecved ?h"
  have h: "ha_headerLen ?h = headerLen" "length (ha_header ?h) = headerLen" "ha_curRecved ?h < headerLen"
    using assms(1,2) by (simp_all add: pp_inv_idle)
  have d: "?n \<le> length ?d" using assms(2,3) h by (simp add: pending_def)
  have "mem_write (ha_header ?h) (ha_curRecved ?h) (take ?n ?d) = take (ha_curRecved ?h) (ha_header ?h) @ take ?n ?d"
    using h d by (simp add: mem_write_def)
  then show ?thesis
    using h d assms(2) by (simp add: ha_Assemble_def pending_def Let_def)
qed

lemma recv_header_bad:
  assumes "pp_inv me env st" "pp_packet st = None" "headerLen \<le> length (pending st @ mb_data block)"
    "wire_len me (pending st @ mb_data block) < headerLen \<or> re_maxPacketLen env < wire_len me (pending st @ mb_data block)"
  shows "\<exists>st'. pp_RecvHeader me env block st = BadLength st' \<and> pp_inv me env st' \<and> pending st' = []"
proof -
  obtain used h where h: "ha_Assemble (mb_data block) (pp_headerAssembler st) = (True, used, h)"
    "ha_header h @ drop used (mb_data block) = pending st @ mb_data block" "length (ha_header h) = headerLen"
    "ha_headerLen h = headerLen"
    using recv_header_assembled [OF assms(1-3)] by blast
  have "wire_len me (pending st @ mb_data block) = wire_len me (ha_header h)"
    using wire_len_append [of "ha_header h" me] h(2,3) by (metis headerLen_def numeral_le_iff semiring_norm(68,69,71,72,75))
  then show ?thesis
    using assms h pk_length_SetToPacket [of me h]
    by (auto simp: pp_RecvHeader_def Let_def pp_inv_idle pending_def ha_Reset_def headerLen_def)
qed

lemma recv_header_done:
  assumes "pp_inv me env st" "pk_pool_ok (re_pool env)" "mb_own block"
    "headerLen \<le> length (pending st @ mb_data block)"
    "headerLen \<le> wire_len me (pending st @ mb_data block)"
    "wire_len me (pending st @ mb_data block) \<le> re_maxPacketLen env"
  shows "\<exists>st' p block'. pp_RecvHeader me env block st = HeaderDone st' (mb_data block') block'
     \<and> mb_own block' \<and> pp_ready me env st' p \<and> pending st' @ mb_data block' = pending st @ mb_data block
     \<and> (length (mb_data block') < length (mb_data block) \<or> length (pending st') < wire_len me (pending st'))
     \<and> length (mb_data block') \<le> length (mb_data block)"
proof (cases "pp_packet st")
  case (Some p)
  then show ?thesis using assms(1,3) by (auto simp: pp_RecvHeader_def pp_inv_Some)
next
  case None
  obtain used h where h: "ha_Assemble (mb_data block) (pp_headerAssembler st) = (True, used, h)"
    "0 < used" "used \<le> length (mb_data block)" "ha_headerLen h = headerLen"
    "ha_header h @ drop used (mb_data block) = pending st @ mb_data block" "length (ha_header h) = headerLen"
    using recv_header_assembled [OF assms(1) None assms(4)] by blast
  have "4 \<le> length (ha_header h)" using h(6) by (simp add: headerLen_def)
  then have w: "wire_len me (pending st @ mb_data block) = wire_len me (ha_header h)"
    using wire_len_append h(5) by metis
  define p where "p = header_packet me env (ha_header h)"
  have p: "(ha_SetToPacket me h (Packet_new (re_pool env)))
      \<lparr>pk_sessionId := re_sessionId env, pk_acceptSessionId := re_acceptSessionId env\<rparr> = p"
    by (simp add: p_def header_packet_def ha_SetToPacket_def)
  have pd: "pk_data p = []" "pk_ok p"
    using assms(2) by (auto simp: p_def header_packet_def ha_SetToPacket_def Let_def Packet_new_def pk_data_def
        pk_ok_def pk_pool_ok_def split: option.splits)
  have sl: "pk_length (ha_SetToPacket me h q) = wire_len me (ha_header h)" for q
    by (rule pk_length_SetToPacket)
  have pl: "pk_length p = wire_len me (ha_header h)" by (simp add: sl flip: p)
  define st' where "st' = st\<lparr>pp_headerAssembler := ha_Reset h, pp_packet := Some p,
                             pp_payloadNeedRecv := wire_len me (ha_header h) - headerLen\<rparr>"
  have "pp_RecvHeader me env block st
      = HeaderDone st' (mb_data (mb_shift used block)) (mb_shift used block)"
    using None h(1) p pl sl w assms(5,6) mb_shift_data [OF assms(3) h(3)]
    by (simp add: pp_RecvHeader_def Let_def st'_def)
  moreover have "pending st' = ha_header h" using pd by (simp add: st'_def pending_def ha_Reset_def)
  moreover have "pp_ready me env st' p"
    using calculation(2) assms(1,5,6) None h(4,6) w pd
    by (simp add: pp_ready_def st'_def ha_Reset_def packet_of_frame_def p_def pp_inv_idle)
  ultimately show ?thesis
    using mb_shift_data [OF assms(3) h(3)] h(2,3,5) by (intro exI [of _ st'] exI [of _ p] exI [of _ "mb_shift used block"]) auto
qed

text \<open>The payload part: wait for more, or finish the packet.\<close>

lemma content_need:
  "pp_ready me env st p \<Longrightarrow>
   size_sub (pp_payloadNeedRecv st) (pp_payloadRecved st) = wire_len me (pending st) - length (pending st)"
  by (auto simp: pp_ready_def pending_def size_sub_le)

lemma recv_content_more:
  assumes "pp_ready me env st p" "length buf < wire_len me (pending st) - length (pending st)"
    "pk_Write_buf (Some buf) (length buf) p = Ok (True, p')" "pk_ok p'" "pk_data p' = pk_data p @ buf"
    "same_header p p'"
  defines "st' \<equiv> st\<lparr>pp_packet := Some p', pp_payloadRecved := pp_payloadRecved st + length buf\<rparr>"
  shows "pp_inv me env st'" "pending st' = pending st @ buf"
proof -
  show pe: "pending st' = pending st @ buf"
    using assms(1,5) by (simp add: st'_def pending_def pp_ready_def)
  have hl: "headerLen \<le> length (pending st)" "4 \<le> length (pending st)"
    using assms(1) by (auto simp: pp_ready_def pending_def headerLen_def)
  then have "packet_of_frame me env (pending st @ buf) p'"
    using assms(1,4-6) by (auto simp: pp_ready_def packet_of_frame_def intro: same_header_trans)
  then show "pp_inv me env st'"
    using assms(1,2,5) hl wire_len_append [of "pending st" me buf] pe
    by (auto simp: pp_inv_Some pp_ready_def st'_def)
qed

lemma recv_content_done:
  assumes "pp_ready me env st p" "wire_len me (pending st) - length (pending st) \<le> length buf"
    "pk_ok p'" "pk_data p' = pk_data p @ take (wire_len me (pending st) - length (pending st)) buf"
    "same_header p p'"
  defines "f \<equiv> pending st @ take (wire_len me (pending st) - length (pending st)) buf"
    and "st' \<equiv> st\<lparr>pp_packet := None, pp_payloadRecved := 0, pp_payloadNeedRecv := 0\<rparr>"
  shows "packet_of_frame me env f p'" "headerLen \<le> length f" "wire_len me f = length f"
    "length f \<le> re_maxPacketLen env" "pp_inv me env st'" "pending st' = []"
proof -
  have hl: "headerLen \<le> length (pending st)" "4 \<le> length (pending st)"
    using assms(1) by (auto simp: pp_ready_def pending_def headerLen_def)
  then show "packet_of_frame me env f p'"
    using assms by (auto simp: pp_ready_def packet_of_frame_def intro: same_header_trans)
  show "headerLen \<le> length f" using hl by (simp add: f_def)
  show "wire_len me f = length f" "length f \<le> re_maxPacketLen env"
    using assms(1,2) wire_len_append [OF hl(2)] by (auto simp: f_def pp_ready_def)
  show "pp_inv me env st'" "pending st' = []"
    using assms(1) by (auto simp: st'_def pp_inv_idle pp_ready_def pending_def headerLen_def)
qed

definition recv_refines :: "nat \<Rightarrow> recv_env \<Rightarrow> packet list option \<Rightarrow> (byte list list \<times> byte list) option
    \<Rightarrow> recv_result outcome \<Rightarrow> bool" where
  "recv_refines me env out spec res \<longleftrightarrow> (case spec of
     None \<Rightarrow> (\<exists>st'. res = Ok (Some ERROR_PACK, None, True, st') \<and> pp_inv me env st' \<and> pending st' = [])
   | Some (fs, rest) \<Rightarrow> (\<exists>ps st'. res = Ok (None, fold add_out ps out, False, st') \<and> pp_inv me env st'
        \<and> pending st' = rest \<and> list_all2 (packet_of_frame me env) fs ps))"

lemma recv_refines_Cons:
  assumes "recv_refines me env (add_out p out) spec res" "packet_of_frame me env f p"
  shows "recv_refines me env out (map_option (\<lambda>(fs, rest). (f # fs, rest)) spec) res"
proof (cases spec)
  case (Some fr)
  obtain fs rest where fr: "fr = (fs, rest)" by (cases fr)
  obtain ps st' where "res = Ok (None, fold add_out ps (add_out p out), False, st')" "pp_inv me env st'"
    "pending st' = rest" "list_all2 (packet_of_frame me env) fs ps"
    using assms(1) Some fr by (auto simp: recv_refines_def)
  then show ?thesis
    using assms(2) Some fr by (auto simp: recv_refines_def intro!: exI [of _ "p # ps"])
qed (use assms in \<open>simp add: recv_refines_def\<close>)

text \<open>An iteration with a complete, acceptable header, given the rest of the loop.\<close>

lemma recv_step:
  assumes rest: "\<And>block out st. length (mb_data block) < n \<Longrightarrow> mb_own block \<Longrightarrow> pp_inv me env st \<Longrightarrow>
      recv_refines me env out (frames me (re_maxPacketLen env) (pending st @ mb_data block))
        (pp_Recv_loop n me env block out st)"
    and "length (mb_data block) < Suc n" "mb_own block" "pp_inv me env st" "pk_pool_ok (re_pool env)"
    and good: "mb_data block \<noteq> []" "headerLen \<le> length (pending st @ mb_data block)"
      "headerLen \<le> wire_len me (pending st @ mb_data block)"
      "wire_len me (pending st @ mb_data block) \<le> re_maxPacketLen env"
  shows "recv_refines me env out (frames me (re_maxPacketLen env) (pending st @ mb_data block))
           (pp_Recv_loop (Suc n) me env block out st)"
proof -
  obtain st' p block' where hd: "pp_RecvHeader me env block st = HeaderDone st' (mb_data block') block'"
    "mb_own block'" "pp_ready me env st' p" "pending st' @ mb_data block' = pending st @ mb_data block"
    "length (mb_data block') < length (mb_data block) \<or> length (pending st') < wire_len me (pending st')"
    "length (mb_data block') \<le> length (mb_data block)"
    using recv_header_done [OF assms(4,5,3) good(2-4)] by blast
  let ?c = "wire_len me (pending st') - length (pending st')" and ?d = "mb_data block'"
  have p: "pp_packet st' = Some p" "pk_ok p" using hd(3) by (auto simp: pp_ready_def packet_of_frame_def)
  have sz: "mb_GetReadableSize block \<noteq> 0"
    using good(1) mb_readable [OF assms(3)] by simp
  note need = content_need [OF hd(3)]
  show ?thesis
  proof (cases "length ?d < ?c")
    case True
    obtain p' where p': "pk_Write_buf (Some ?d) (length ?d) p = Ok (True, p')" "pk_ok p'"
      "pk_data p' = pk_data p @ ?d" "same_header p p'"
      using pk_Write_buf_data [OF p(2), of "length ?d" ?d] by auto
    have "wire_len me (pending st' @ ?d) = wire_len me (pending st')"
      using hd(3) by (intro wire_len_append) (auto simp: pp_ready_def pending_def headerLen_def)
    then have "frames me (re_maxPacketLen env) (pending st' @ ?d) = Some ([], pending st' @ ?d)"
      using True hd(3) by (intro frames_more) (auto simp: pp_ready_def)
    then show ?thesis
      using recv_content_more [OF hd(3) True p'] True p'(1) p(1) hd(1) sz need
      by (auto simp: recv_refines_def simp flip: hd(4))
  next
    case False
    obtain p' where p': "pk_Write_buf (Some ?d) ?c p = Ok (True, p')" "pk_ok p'"
      "pk_data p' = pk_data p @ take ?c ?d" "same_header p p'"
      using pk_Write_buf_data [OF p(2), of ?c ?d] False by auto
    have le: "?c \<le> length ?d" using False by simp
    note fin = recv_content_done [OF hd(3) le p'(2-4)]
    note shift = mb_shift_data [OF hd(2) le]
    let ?st = "st'\<lparr>pp_packet := None, pp_payloadRecved := 0, pp_payloadNeedRecv := 0\<rparr>"
    have "length (mb_data (mb_shift ?c block')) < n"
      using shift(2) hd(5,6) assms(2) le by auto
    from rest [OF this shift(1) fin(5), of "add_out p' out"]
    have "recv_refines me env (add_out p' out) (frames me (re_maxPacketLen env) (drop ?c ?d))
        (pp_Recv_loop n me env (mb_shift ?c block') (add_out p' out) ?st)"
      by (simp add: fin(6) shift(2))
    from recv_refines_Cons [OF this fin(1)] have
      "recv_refines me env out (frames me (re_maxPacketLen env) (pending st' @ ?d))
        (pp_Recv_loop n me env (mb_shift ?c block') (add_out p' out) ?st)"
      using frames_Cons [OF fin(2-4), of "drop ?c ?d"] by simp
    moreover have "pp_Recv_loop (Suc n) me env block out st
        = pp_Recv_loop n me env (mb_shift ?c block') (add_out p' out) ?st"
      using False p'(1) p(1) hd(1) sz need by simp
    ultimately show ?thesis by (simp add: hd(4))
  qed
qed

lemma recv_loop_frames:
  assumes "length (mb_data block) < n" "mb_own block" "pp_inv me env st" "pk_pool_ok (re_pool env)"
  shows "recv_refines me env out (frames me (re_maxPacketLen env) (pending st @ mb_data block))
           (pp_Recv_loop n me env block out st)"
  using assms(1-3)
proof (induction n arbitrary: block out st)
  case (Suc n)
  let ?bs = "pending st @ mb_data block" and ?mx = "re_maxPacketLen env"
  note sz = mb_readable [OF Suc.prems(2)]
  consider (empty) "mb_data block = []" | (short) "mb_data block \<noteq> []" "length ?bs < headerLen"
    | (bad) "mb_data block \<noteq> []" "headerLen \<le> length ?bs" "wire_len me ?bs < headerLen \<or> ?mx < wire_len me ?bs"
    | (good) "mb_data block \<noteq> []" "headerLen \<le> length ?bs" "headerLen \<le> wire_len me ?bs" "wire_len me ?bs \<le> ?mx"
    by linarith
  then show ?case
  proof cases
    case empty
    then show ?thesis
      using frames_pending [OF Suc.prems(3)] sz Suc.prems(3) by (simp add: recv_refines_def)
  next
    case short
    then show ?thesis
      using recv_header_more [OF Suc.prems(3) short(2)] sz
      by (auto simp: recv_refines_def frames_short)
  next
    case bad
    have "pp_packet st = None"
    proof (cases "pp_packet st")
      case (Some p)
      then show ?thesis
        using bad(3) Suc.prems(3) wire_len_append [of "pending st" me "mb_data block"]
        by (auto simp: pp_inv_Some pp_ready_def pending_def headerLen_def)
    qed
    from recv_header_bad [OF Suc.prems(3) this bad(2,3)] show ?thesis
      using sz bad by (auto simp: recv_refines_def frames_bad)
  next
    case good
    show ?thesis
      by (rule recv_step [OF _ Suc.prems assms(4) good]) (rule Suc.IH)
  qed
qed simp

lemma fold_add_out_Some: "fold add_out ps (Some qs) = Some (qs @ ps)"
  by (induction ps arbitrary: qs) (simp_all add: add_out_def)

lemma fold_add_out: "fold add_out ps None = (if ps = [] then None else Some ps)"
  by (cases ps) (simp_all add: add_out_def fold_add_out_Some)

lemma pp_Recv_frames:
  assumes "mb_own block" "pp_inv me env st" "pk_pool_ok (re_pool env)"
  shows "recv_refines me env None (frames me (re_maxPacketLen env) (pending st @ mb_data block))
           (pp_Recv me env block st)"
  unfolding pp_Recv_def by (rule recv_loop_frames [OF _ assms]) (simp add: mb_readable [OF assms(1)])

section \<open>What is sent is what is received\<close>

text \<open>The bytes of a packet on the wire.\<close>

definition wire_header :: "nat \<Rightarrow> packet \<Rightarrow> byte list" where
  "wire_header me p =
     mem_bytes me (LLBC_Host2Net me (of_nat (headerLen + length (pk_data p)) :: 32 word))
     @ mem_bytes me (LLBC_Host2Net me (pk_opcode p))
     @ mem_bytes me (LLBC_Host2Net me (ucast (pk_status p) :: 16 word))
     @ mem_bytes me (LLBC_Host2Net me (pk_senderSvcId p))
     @ mem_bytes me (LLBC_Host2Net me (pk_recverSvcId p))
     @ mem_bytes me (LLBC_Host2Net me (ucast (pk_flags p) :: 16 word))
     @ mem_bytes me (LLBC_Host2Net_64 me (pk_extData1 p))"

definition wire :: "nat \<Rightarrow> packet \<Rightarrow> byte list" where
  "wire me p = wire_header me p @ pk_data p"

lemma length_wire_header [simp]: "length (wire_header me p) = headerLen"
  by (simp add: wire_header_def headerLen_def)

lemma length_wire [simp]: "length (wire me p) = headerLen + length (pk_data p)"
  by (simp add: wire_def)

lemma mb_put_data:
  assumes "mb_own b" "n \<le> length bs"
  shows "\<exists>b'. mb_put (Some bs) n b = Ok b' \<and> mb_own b' \<and> mb_data b' = mb_data b @ take n bs"
proof -
  have n: "length (take n bs) = n" using assms(2) by simp
  have "mb_Write (Some bs) n b = mb_Write (Some (take n bs)) (length (take n bs)) b"
    unfolding n by (simp add: mb_Write_def)
  then show ?thesis using mb_Write_data [OF assms(1), of "take n bs"] by (auto simp: mb_put_def)
qed

lemma mb_put_payload:
  assumes "mb_own b" "pk_ok p"
  shows "\<exists>b'. mb_put (pk_GetPayload p) (pk_GetPayloadLength p) b = Ok b' \<and> mb_own b'
     \<and> mb_data b' = mb_data b @ pk_data p"
proof (cases "pk_payload p")
  case None
  then show ?thesis
    using assms by (simp add: pk_GetPayload_def pk_GetPayloadLength_def pk_data_def mb_put_def mb_Write_def)
next
  case (Some pb)
  let ?bs = "drop (mb_readPos pb) (mb_buf pb)"
  have own: "mb_own pb" using Some assms(2) by (simp add: pk_ok_def)
  then have "take (mb_GetReadableSize pb) ?bs = pk_data p" "mb_GetReadableSize pb \<le> length ?bs"
    using Some by (auto simp: pk_data_def mb_defs mem_read_def mb_GetReadableSize_def)
  then show ?thesis
    using mb_put_data [OF assms(1), of "mb_GetReadableSize pb" ?bs] Some
    by (simp add: pk_GetPayload_def pk_GetPayloadLength_def)
qed

lemma pk_GetPayloadLength_data: "pk_ok p \<Longrightarrow> pk_GetPayloadLength p = length (pk_data p)"
  by (auto simp: pk_GetPayloadLength_def pk_data_def pk_ok_def mb_readable split: option.splits)

text \<open>A piece of code that appends given bytes to the block it gets.\<close>

definition puts :: "(msg_block \<Rightarrow> msg_block outcome) \<Rightarrow> byte list \<Rightarrow> bool" where
  "puts f xs \<longleftrightarrow> (\<forall>b. mb_own b \<longrightarrow> (\<exists>r. f b = Ok r \<and> mb_own r \<and> mb_data r = mb_data b @ xs))"

lemma puts_field: "length bs = n \<Longrightarrow> puts (mb_put (Some bs) n) bs"
  using mb_put_data [of _ n bs] by (auto simp: puts_def)

lemma puts_bind: "puts f xs \<Longrightarrow> puts g ys \<Longrightarrow> puts (\<lambda>b. obind (f b) g) (xs @ ys)"
  by (fastforce simp: puts_def)

lemma puts_fields: "length bs = n \<Longrightarrow> puts g ys \<Longrightarrow> puts (\<lambda>b. obind (mb_put (Some bs) n b) g) (bs @ ys)"
  by (rule puts_bind [OF puts_field])

lemma puts_payload: "pk_ok p \<Longrightarrow> puts (mb_put (pk_GetPayload p) (length (pk_data p))) (pk_data p)"
  using mb_put_payload pk_GetPayloadLength_data by (auto simp: puts_def)

lemma puts_apply: "puts f xs \<Longrightarrow> \<exists>r. f (MessageBlock_new n) = Ok r \<and> mb_own r \<and> mb_data r = xs"
  unfolding puts_def by (drule spec [of _ "MessageBlock_new n"]) simp

lemma pp_Send_wire:
  assumes "pk_ok p"
  shows "\<exists>b. pp_Send me p = Ok b \<and> mb_own b \<and> mb_data b = wire me p"
  unfolding pp_Send_def wire_def wire_header_def Let_def append_assoc pk_GetPayloadLength_data [OF assms]
  by (rule puts_apply) (intro puts_fields puts_payload [OF assms]; simp)

text \<open>A frame that is a packet on the wire decodes to that packet.\<close>

definition delivered :: "packet \<Rightarrow> packet \<Rightarrow> bool" where
  "delivered p q \<longleftrightarrow> pk_opcode q = pk_opcode p \<and> pk_status q = pk_status p
     \<and> pk_senderSvcId q = pk_senderSvcId p \<and> pk_recverSvcId q = pk_recverSvcId p
     \<and> pk_flags q = pk_flags p \<and> pk_data q = pk_data p \<and> pk_ok q"

definition sendable :: "nat \<Rightarrow> packet \<Rightarrow> bool" where
  "sendable mx p \<longleftrightarrow> pk_ok p \<and> headerLen + length (pk_data p) \<le> mx
     \<and> unat (pk_status p) < 2 ^ 16 \<and> unat (pk_flags p) < 2 ^ 16"

lemma ucast_16_32: "unat w < 2 ^ 16 \<Longrightarrow> ucast (ucast w :: 16 word) = (w :: 32 word)"
  by (simp add: word_unat_eq_iff unsigned_ucast_eq unsigned_take_bit_eq take_bit_nat_eq_self)

lemma wire_len_wire:
  assumes "host_order me" "host_order me'" "headerLen + length (pk_data p) < 2 ^ 32"
  shows "wire_len me' (wire me p) = length (wire me p)"
proof -
  have "take 4 (wire me p) = mem_bytes me (LLBC_Host2Net me (of_nat (headerLen + length (pk_data p)) :: 32 word))"
    by (simp add: wire_def wire_header_def)
  then show ?thesis
    using assms(1,2) unat_of_nat_32 [OF assms(3)]
    by (simp add: wire_len_def Net2Host_wire host_order_def wire_def)
qed

lemma SetToPacket_wire:
  assumes "host_order me" "host_order me'"
  shows "ha_SetToPacket me' \<lparr>ha_headerLen = headerLen, ha_header = wire_header me p, ha_curRecved = headerLen\<rparr> q
    = q\<lparr>pk_length := wire_len me' (wire_header me p), pk_opcode := pk_opcode p,
        pk_status := ucast (ucast (pk_status p) :: 16 word),
        pk_senderSvcId := pk_senderSvcId p, pk_recverSvcId := pk_recverSvcId p,
        pk_flags := ucast (ucast (pk_flags p) :: 16 word),
        pk_extData1 := LLBC_Net2Host_64 me' (of_mem me' (mem_bytes me (LLBC_Host2Net_64 me (pk_extData1 p))))\<rparr>"
  using assms
  by (simp add: ha_SetToPacket_def wire_len_def Let_def mem_read_def wire_header_def Net2Host_wire host_order_def)


lemma frame_delivered:
  assumes "host_order me" "host_order me'" "sendable mx p" "packet_of_frame me' env (wire me p) q"
  shows "delivered p q" "pk_sessionId q = re_sessionId env" "me = me' \<Longrightarrow> pk_extData1 q = pk_extData1 p"
proof -
  have "same_header (header_packet me' env (wire_header me p)) q" "pk_ok q" "pk_data q = pk_data p"
    using assms(4) by (simp_all add: packet_of_frame_def wire_def)
  note f = same_header_fields [OF this(1), unfolded header_packet_def SetToPacket_wire [OF assms(1,2)]] this(2,3)
  show "delivered p q"
    using f assms(3) by (simp add: delivered_def sendable_def ucast_16_32)
  show "pk_sessionId q = re_sessionId env" using f by simp
  show "pk_extData1 q = pk_extData1 p" if "me = me'" using f that by (simp add: of_mem_mem_bytes byte_order)
qed

text \<open>The receiving side: the socket hands over its data block by block.\<close>

definition recv_block :: "byte list \<Rightarrow> msg_block" where
  "recv_block bs = (MessageBlock_of_buf bs False)\<lparr>mb_writePos := length bs\<rparr>"

lemma recv_block_own [simp]: "mb_own (recv_block bs)" "mb_data (recv_block bs) = bs"
  by (simp_all add: recv_block_def MessageBlock_of_buf_def mb_defs mem_read_def)

fun recv_all :: "nat \<Rightarrow> recv_env \<Rightarrow> byte list list \<Rightarrow> pproto \<Rightarrow> (bool \<times> packet list \<times> pproto) outcome" where
  "recv_all me env [] st = Ok (False, [], st)"
| "recv_all me env (c # cs) st = obind (pp_Recv me env (recv_block c) st) (\<lambda>(err, out, removeSession, st').
     if removeSession then Ok (True, [], st')
     else obind (recv_all me env cs st') (\<lambda>(rm, ps, st''). Ok (rm, (case out of None \<Rightarrow> [] | Some qs \<Rightarrow> qs) @ ps, st'')))"

lemma frames_None_append: "frames me mx bs = None \<Longrightarrow> frames me mx (bs @ cs) = None"
proof (induction me mx bs rule: frames.induct)
  case (1 me mx bs)
  let ?n = "wire_len me bs"
  have long: "headerLen \<le> length bs" using 1(2) by (subst (asm) frames.simps) (auto split: if_splits)
  then have w: "wire_len me (bs @ cs) = ?n" by (intro wire_len_append) (simp add: headerLen_def)
  show ?case
  proof (cases "?n < headerLen \<or> mx < ?n")
    case True
    then show ?thesis using long w by (intro frames_bad) auto
  next
    case False
    have le: "?n \<le> length bs" and "frames me mx (drop ?n bs) = None"
      using 1(2) False long by (subst (asm) frames.simps; auto split: if_splits option.splits)+
    then have "frames me mx (drop ?n bs @ cs) = None" using 1(1) False long by auto
    then show ?thesis using False long le w by (subst frames.simps) auto
  qed
qed

lemma recv_all_frames:
  assumes "pk_pool_ok (re_pool env)"
  shows "pp_inv me env st \<Longrightarrow> frames me (re_maxPacketLen env) (pending st @ concat cs) = Some (fs, rest) \<Longrightarrow>
   \<exists>ps st'. recv_all me env cs st = Ok (False, ps, st') \<and> pp_inv me env st' \<and> pending st' = rest
     \<and> list_all2 (packet_of_frame me env) fs ps"
proof (induction cs arbitrary: st fs)
  case Nil
  then show ?case by (simp add: frames_pending)
next
  case (Cons c cs)
  let ?mx = "re_maxPacketLen env"
  obtain gs r where g: "frames me ?mx (pending st @ c) = Some (gs, r)"
    using frames_None_append [of me ?mx "pending st @ c" "concat cs"] Cons.prems(2)
    by (cases "frames me ?mx (pending st @ c)") auto
  obtain ps st1 where s1: "pp_Recv me env (recv_block c) st = Ok (None, fold add_out ps None, False, st1)"
    "pp_inv me env st1" "pending st1 = r" "list_all2 (packet_of_frame me env) gs ps"
    using pp_Recv_frames [OF recv_block_own(1) Cons.prems(1) assms, of c] g by (auto simp: recv_refines_def)
  obtain hs where h: "frames me ?mx (pending st1 @ concat cs) = Some (hs, rest)" "fs = gs @ hs"
    using frames_append [OF g, of "concat cs"] Cons.prems(2) s1(3) by (auto split: prod.splits)
  obtain qs st2 where s2: "recv_all me env cs st1 = Ok (False, qs, st2)" "pp_inv me env st2"
    "pending st2 = rest" "list_all2 (packet_of_frame me env) hs qs"
    using Cons.IH [OF s1(2) h(1)] by blast
  have "recv_all me env (c # cs) st = Ok (False, ps @ qs, st2)"
    using s1(1) s2(1) by (simp add: fold_add_out)
  then show ?case
    using s1(4) s2(2-4) h(2) list_all2_appendI by blast
qed

lemma frames_wires:
  assumes "host_order me" "host_order me'" "mx < 2 ^ 32" "list_all (sendable mx) ps"
  shows "frames me' mx (concat (map (wire me) ps)) = Some (map (wire me) ps, [])"
  using assms(4)
proof (induction ps)
  case (Cons p ps)
  have "headerLen + length (pk_data p) \<le> mx" using Cons.prems by (simp add: sendable_def)
  then have "wire_len me' (wire me p) = length (wire me p)" "length (wire me p) \<le> mx"
    using assms(3) wire_len_wire [OF assms(1,2)] by simp_all
  then show ?case
    using Cons frames_Cons [of "wire me p" me' mx "concat (map (wire me) ps)"] by simp
qed (simp add: frames_short headerLen_def)

section \<open>Properties\<close>

text \<open>C5: \<open>LLBC_PacketProtocol::Recv\<close> implements framing. Called with any block, in any reachable
state, it returns exactly the packets whose frames are completed by the bytes held back so far
followed by the bytes of the block, and holds back exactly the rest; the loop always ends. If a
complete header announces a length below 28 or above the socket's limit, it reports the error,
asks for the session's removal, gives no packet, and is ready for a new stream.\<close>

theorem recv_implements_framing:
  assumes "mb_own block" "pp_inv me env st" "pk_pool_ok (re_pool env)"
  shows "case frames me (re_maxPacketLen env) (pending st @ mb_data block) of
      None \<Rightarrow> (\<exists>st'. pp_Recv me env block st = Ok (Some ERROR_PACK, None, True, st')
                 \<and> pp_inv me env st' \<and> pending st' = [])
    | Some (fs, rest) \<Rightarrow> (\<exists>ps st'. pp_Recv me env block st
                   = Ok (None, if ps = [] then None else Some ps, False, st')
                 \<and> list_all2 (packet_of_frame me env) fs ps \<and> pp_inv me env st' \<and> pending st' = rest)"
  using pp_Recv_frames [OF assms] unfolding recv_refines_def fold_add_out
  by (auto split: option.splits prod.splits)

definition demo_env :: recv_env where
  "demo_env = \<lparr>re_maxPacketLen = 1024, re_sessionId = 3, re_acceptSessionId = 0, re_pool = None\<rparr>"

theorem recv_implements_framing_witness:
  "\<exists>st'. pp_Recv LittleEndian demo_env (recv_block ([0, 0, 0, 9] @ replicate 24 0)) PacketProtocol_new
      = Ok (Some ERROR_PACK, None, True, st') \<and> pp_inv LittleEndian demo_env st' \<and> pending st' = []"
proof -
  have "wire_len LittleEndian ([0, 0, 0, 9] @ replicate 24 0) = 9"
    by (simp add: wire_len_def Net2Host_of_mem)
  then have "frames LittleEndian 1024 ([0, 0, 0, 9] @ replicate 24 0) = None"
    by (intro frames_bad) (simp_all add: headerLen_def)
  then show ?thesis
    using recv_implements_framing [of "recv_block ([0, 0, 0, 9] @ replicate 24 0)" LittleEndian demo_env
        PacketProtocol_new]
    by (simp add: pp_inv_new demo_env_def)
qed



end
