(* ===== verification/Rpc_Calls.thy ===== *)
theory Rpc_Calls
  imports Rpc Packet_Protocol
begin

text \<open>
  What the RPC layer does, in terms of the abstract coroutine machine: the packets that carry a
  request and a response and how they are read back, the two halves of \<open>CallMethod\<close>, the server's
  handling of a request, and the handling of a response.
\<close>

section \<open>The packets\<close>

text \<open>What is assumed of an environment and of the generated message code: the byte order is one
of the two that the library knows, the pool hands out empty blocks, and a message that is
serialized is parsed back. Lengths have to leave room in 32 bits.\<close>

definition env_ok :: "rpc_env \<Rightarrow> bool" where
  "env_ok env \<longleftrightarrow> host_order (env_me env) \<and> pk_pool_ok (env_pool env)"

definition fits_str :: "byte list \<Rightarrow> bool" where
  "fits_str bs \<longleftrightarrow> length bs + 2048 \<le> 2 ^ 32"

definition codec_fits :: "'m codec \<Rightarrow> 'm \<Rightarrow> bool" where
  "codec_fits cd m \<longleftrightarrow> cd_parse cd (cd_ser cd m) = Some m \<and> length (cd_ser cd m) < 2 ^ 31"

text \<open>To be sent, a message only has to be small enough.\<close>

definition codec_sized :: "'m codec \<Rightarrow> 'm \<Rightarrow> bool" where
  "codec_sized cd m \<longleftrightarrow> length (cd_ser cd m) < 2 ^ 31"

lemma codec_fits_sized: "codec_fits cd m \<Longrightarrow> codec_sized cd m"
  by (simp add: codec_fits_def codec_sized_def)

definition method_ok :: "'m rpc_method \<Rightarrow> bool" where
  "method_ok md \<longleftrightarrow> fits_str (md_service md) \<and> fits_str (md_name md)"

definition is_int :: "int \<Rightarrow> bool" where
  "is_int i \<longleftrightarrow> - (2 ^ 31) \<le> i \<and> i < 2 ^ 31"

definition req_data :: "'m rpc_method \<Rightarrow> int \<Rightarrow> 'm \<Rightarrow> byte list" where
  "req_data md coroId req = enc_string (md_service md) @ enc_string (md_name md) @ enc_u32 (word_of_int coroId)
     @ enc_string (cd_ser (md_req md) req)"

definition rsp_data :: "'m rpc_method \<Rightarrow> int \<Rightarrow> byte list \<Rightarrow> 'm \<Rightarrow> byte list" where
  "rsp_data md coroId errText rsp = enc_u32 (word_of_int coroId) @ enc_string errText @ enc_string (cd_ser (md_rsp md) rsp)"

lemma sint_word_of_int: "is_int i \<Longrightarrow> sint (word_of_int i :: 32 word) = i"
  by (simp add: is_int_def signed_of_int signed_take_bit_int_eq_self)

lemma pb_codec_fits:
  "host_order me \<Longrightarrow> packet_codec (pk_Write_pb (cd_ser cd) me) (pk_Read_pb (cd_parse cd) me) (\<lambda>m. enc_string (cd_ser cd m)) (codec_fits cd)"
  by (rule pb_codec) (simp_all add: codec_fits_def fits_str_def)

lemma pb_wr:
  assumes "host_order me" "pk_ok p" "codec_sized cd m"
  shows "\<exists>p'. pk_Write_pb (cd_ser cd) me m p = Ok (True, p') \<and> pk_ok p' \<and> pk_data p' = pk_data p @ enc_string (cd_ser cd m) \<and> same_header p p'"
proof -
  have "packet_codec (pk_Write_pb (cd_ser cd) me) (pk_Read_pb (\<lambda>_. Some m) me) (\<lambda>m. enc_string (cd_ser cd m)) (\<lambda>x. x = m)"
    using assms(3) by (intro pb_codec [OF _ assms(1)]) (simp add: codec_sized_def)
  from packet_codec.wr_enc [OF this assms(2) refl] show ?thesis .
qed

lemmas pb_rd = packet_codec.rd_enc [OF pb_codec_fits]

lemma req_packet_ok:
  assumes "env_ok env" "method_ok md" "codec_sized (md_req md) req"
  shows "\<exists>p. req_packet env sid md cid req = Ok p \<and> pk_ok p \<and> pk_data p = req_data md cid req
     \<and> same_header ((pk_SetHeader 0 RpcReq 0 (Packet_new (env_pool env)))\<lparr>pk_sessionId := sid\<rparr>) p"
proof -
  let ?me = "env_me env" and ?p0 = "(pk_SetHeader 0 RpcReq 0 (Packet_new (env_pool env)))\<lparr>pk_sessionId := sid\<rparr>"
  have me: "host_order ?me" and p0: "pk_ok ?p0" "pk_data ?p0 = []"
    using assms(1) by (auto simp: env_ok_def pk_ok_def pk_pool_ok_def pk_data_def Packet_new_def pk_SetHeader_def split: option.splits)
  have n: "host_order ?me \<and> length (md_service md) + 2048 \<le> 2 ^ 32" "host_order ?me \<and> length (md_name md) + 2048 \<le> 2 ^ 32"
    using assms(2) me by (simp_all add: method_ok_def fits_str_def)
  obtain p1 where p1: "pk_Write_string ?me (md_service md) ?p0 = Ok (True, p1)" "pk_ok p1" "pk_data p1 = enc_string (md_service md)"
    "same_header ?p0 p1"
    using str.wr_enc [OF p0(1) n(1)] p0(2) by auto
  obtain p2 where p2: "pk_Write_string ?me (md_name md) p1 = Ok (True, p2)" "pk_ok p2"
    "pk_data p2 = enc_string (md_service md) @ enc_string (md_name md)" "same_header p1 p2"
    using str.wr_enc [OF p1(2) n(2)] p1(3) by auto
  obtain p3 where p3: "pk_WriteRawType ?me (word_of_int cid :: 32 word) p2 = Ok (True, p3)" "pk_ok p3"
    "pk_data p3 = pk_data p2 @ enc_u32 (word_of_int cid)" "same_header p2 p3"
    using u32.wr_enc [OF p2(2) me, of "word_of_int cid"] by auto
  obtain p4 where p4: "pk_Write_pb (cd_ser (md_req md)) ?me req p3 = Ok (True, p4)" "pk_ok p4"
    "pk_data p4 = pk_data p3 @ enc_string (cd_ser (md_req md) req)" "same_header p3 p4"
    using pb_wr [OF me p3(2) assms(3)] by auto
  have "req_packet env sid md cid req = Ok p4" using p1(1) p2(1) p3(1) p4(1) by (simp add: req_packet_def Let_def)
  moreover have "pk_data p4 = req_data md cid req" using p2(3) p3(3) p4(3) by (simp add: req_data_def)
  moreover have "same_header ?p0 p4" using p1(4) p2(4) p3(4) p4(4) by (meson same_header_trans)
  ultimately show ?thesis using p4(2) by blast
qed

lemma rsp_packet_ok:
  assumes "env_ok env" "fits_str (ctl_errorText ctl)" "codec_sized (md_rsp md) rsp"
  shows "\<exists>p. rsp_packet env md ctl rsp sid cid = Ok p \<and> pk_ok p \<and> pk_data p = rsp_data md cid (ctl_errorText ctl) rsp
     \<and> same_header ((Packet_new (env_pool env))\<lparr>pk_sessionId := sid, pk_opcode := RpcRsp\<rparr>) p"
proof -
  let ?me = "env_me env" and ?p0 = "(Packet_new (env_pool env))\<lparr>pk_sessionId := sid, pk_opcode := RpcRsp\<rparr>"
  have me: "host_order ?me" and p0: "pk_ok ?p0" "pk_data ?p0 = []"
    using assms(1) by (auto simp: env_ok_def pk_ok_def pk_pool_ok_def pk_data_def Packet_new_def split: option.splits)
  have n: "host_order ?me \<and> length (ctl_errorText ctl) + 2048 \<le> 2 ^ 32" using assms(2) me by (simp add: fits_str_def)
  obtain p1 where p1: "pk_WriteRawType ?me (word_of_int cid :: 32 word) ?p0 = Ok (True, p1)" "pk_ok p1"
    "pk_data p1 = enc_u32 (word_of_int cid)" "same_header ?p0 p1"
    using u32.wr_enc [OF p0(1) me, of "word_of_int cid"] p0(2) by auto
  obtain p2 where p2: "pk_Write_string ?me (ctl_errorText ctl) p1 = Ok (True, p2)" "pk_ok p2"
    "pk_data p2 = pk_data p1 @ enc_string (ctl_errorText ctl)" "same_header p1 p2"
    using str.wr_enc [OF p1(2) n] by auto
  obtain p3 where p3: "pk_Write_pb (cd_ser (md_rsp md)) ?me rsp p2 = Ok (True, p3)" "pk_ok p3"
    "pk_data p3 = pk_data p2 @ enc_string (cd_ser (md_rsp md) rsp)" "same_header p2 p3"
    using pb_wr [OF me p2(2) assms(3)] by auto
  have "rsp_packet env md ctl rsp sid cid = Ok p3" using p1(1) p2(1) p3(1) by (simp add: rsp_packet_def Let_def)
  moreover have "same_header ?p0 p3" using p1(4) p2(4) p3(4) by (meson same_header_trans)
  ultimately show ?thesis using p1(3) p2(3) p3(2,3) by (simp add: rsp_data_def)
qed

lemma read_rsp_ok:
  assumes "env_ok env" "pk_ok p" "pk_data p = enc_string errText @ enc_string (cd_ser (md_rsp md) rsp)"
    "fits_str errText" "codec_fits (md_rsp md) rsp"
  shows "read_rsp env md p = Ok (if errText = [] then None else Some errText, Some rsp)"
proof -
  let ?me = "env_me env"
  have me: "host_order ?me" and n: "host_order ?me \<and> length errText + 2048 \<le> 2 ^ 32"
    using assms(1,4) by (simp_all add: env_ok_def fits_str_def)
  obtain p1 where p1: "pk_Read_string ?me p = Ok (Some errText, p1)" "pk_ok p1" "pk_data p1 = enc_string (cd_ser (md_rsp md) rsp) @ []"
    using str.rd_enc [OF assms(2) n assms(3)] by auto
  obtain p2 where "pk_Read_pb (cd_parse (md_rsp md)) ?me p1 = Ok (Some rsp, p2)"
    using pb_rd [OF me p1(2) assms(5) p1(3)] by auto
  then show ?thesis using p1(1) by (simp add: read_rsp_def)
qed

text \<open>The id at the front of a response.\<close>

lemma read_coro_id:
  assumes "env_ok env" "pk_ok p" "pk_data p = enc_u32 (word_of_int cid) @ rest"
  shows "\<exists>p1. pk_ReadRawType (env_me env) p = Ok (Some (word_of_int cid :: 32 word), p1) \<and> pk_ok p1 \<and> pk_data p1 = rest \<and> same_header p p1"
  using u32.rd_enc [OF assms(2) _ assms(3), of "env_me env"] assms(1) by (auto simp: env_ok_def)

text \<open>A packet in the shape of a response is read without a fault; what comes out of it is bounded
by its length.\<close>

definition result_ok :: "'m rpc_method \<Rightarrow> byte list option \<Rightarrow> 'm option \<Rightarrow> bool" where
  "result_ok md reason rsp \<longleftrightarrow> (\<forall>r. reason = Some r \<longrightarrow> length r + 8192 \<le> 2 ^ 31)
     \<and> (\<forall>m. rsp = Some m \<longrightarrow> (\<exists>body. cd_parse (md_rsp md) body = Some m \<and> length body + 8192 \<le> 2 ^ 31)
          \<or> (\<exists>p. m = cd_partial (md_rsp md) p \<and> length (pk_data p) + 8192 \<le> 2 ^ 31))"

lemma read_rsp_shaped:
  assumes "env_ok env" "rsp_shaped p"
  shows "\<exists>reason rsp. read_rsp env md p = Ok (reason, rsp) \<and> result_ok md reason rsp"
proof -
  let ?me = "env_me env"
  obtain errText body where d: "pk_ok p" "pk_data p = enc_string errText @ enc_string body" "length errText + length body + 8200 \<le> 2 ^ 31"
    using assms(2) by (auto simp: rsp_shaped_def)
  have me: "host_order ?me" and n: "host_order ?me \<and> length errText + 2048 \<le> 2 ^ 32"
    using assms(1) d(3) by (simp_all add: env_ok_def)
  obtain p1 where p1: "pk_Read_string ?me p = Ok (Some errText, p1)" "pk_ok p1" "pk_data p1 = enc_string body @ []"
    using str.rd_enc [OF d(1) n d(2)] by auto
  show ?thesis
  proof (cases "cd_parse (md_rsp md) body")
    case None
    then have "pk_Read_pb (cd_parse (md_rsp md)) ?me p1 = Ok (None, p1)"
      using pk_Read_pb_bad [OF p1(2,3) _ me] d(3) by simp
    then have "read_rsp env md p = Ok (Some (ascii ''Read recvPacket fail''), Some (cd_partial (md_rsp md) p1))"
      using p1(1) by (simp add: read_rsp_def)
    moreover have "length (pk_data p1) + 8192 \<le> 2 ^ 31" using p1(3) d(3) by simp
    ultimately show ?thesis by (auto simp: result_ok_def ascii_def)
  next
    case (Some m)
    have pc: "packet_codec (pk_Write_pb (\<lambda>_. body) ?me) (pk_Read_pb (cd_parse (md_rsp md)) ?me) (\<lambda>_. enc_string body) (\<lambda>x. x = m)"
      using Some d(3) by (intro pb_codec [OF _ me]) simp
    obtain p2 where "pk_Read_pb (cd_parse (md_rsp md)) ?me p1 = Ok (Some m, p2)"
      using packet_codec.rd_enc [OF pc p1(2) refl p1(3)] by blast
    then have "read_rsp env md p = Ok (if errText = [] then None else Some errText, Some m)"
      using p1(1) by (simp add: read_rsp_def)
    moreover have "length body + 8192 \<le> 2 ^ 31" "length errText + 8192 \<le> 2 ^ 31" using d(3) by simp_all
    ultimately show ?thesis using Some by (intro exI [of _ "if errText = [] then None else Some errText"] exI [of _ "Some m"]) (auto simp: result_ok_def)
  qed
qed

section \<open>Connections\<close>

text \<open>The session is connected, so that a packet pushed is a packet sent.\<close>

definition link_up :: "int \<Rightarrow> 'h conn_mgr \<Rightarrow> bool" where
  "link_up sid c \<longleftrightarrow> (\<exists>s. cm_svc c = Some s \<and> sv_started s \<and> sv_ready s sid = Some False)"

definition posted :: "packet \<Rightarrow> 'h conn_mgr \<Rightarrow> 'h conn_mgr" where
  "posted p c = c\<lparr>cm_svc := map_option (\<lambda>s. s\<lparr>sv_sent := sv_sent s @ [p\<lparr>pk_senderSvcId := sv_id s\<rparr>]\<rparr>) (cm_svc c)\<rparr>"

definition sent_packets :: "'h conn_mgr \<Rightarrow> packet list" where
  "sent_packets c = (case cm_svc c of None \<Rightarrow> [] | Some s \<Rightarrow> sv_sent s)"

definition service_id :: "'h conn_mgr \<Rightarrow> 32 word" where
  "service_id c = (case cm_svc c of None \<Rightarrow> 0 | Some s \<Rightarrow> sv_id s)"

lemma push_posted: "link_up (pk_sessionId p) c \<Longrightarrow> cm_PushPacket p c = Ok (None, posted p c)"
  by (auto simp: link_up_def cm_PushPacket_def sv_Send_ok posted_def)

lemma posted_simps [simp]:
  "link_up sid (posted p c) \<longleftrightarrow> link_up sid c" "cm_addr2Channel (posted p c) = cm_addr2Channel c"
  "link_up sid c \<Longrightarrow> sent_packets (posted p c) = sent_packets c @ [p\<lparr>pk_senderSvcId := service_id c\<rparr>]"
  "service_id (posted p c) = service_id c"
  by (auto simp: link_up_def posted_def sent_packets_def service_id_def split: option.splits)

section \<open>The client side\<close>

definition is_request :: "packet \<Rightarrow> int \<Rightarrow> 'm rpc_method \<Rightarrow> int \<Rightarrow> 'm \<Rightarrow> bool" where
  "is_request p sid md coroId req \<longleftrightarrow> pk_ok p \<and> pk_data p = req_data md coroId req \<and> pk_sessionId p = sid
     \<and> pk_opcode p = RpcReq \<and> pk_status p = 0 \<and> pk_flags p = 0 \<and> pk_recverSvcId p = 0"

definition is_response :: "packet \<Rightarrow> int \<Rightarrow> 'm rpc_method \<Rightarrow> int \<Rightarrow> byte list \<Rightarrow> 'm \<Rightarrow> bool" where
  "is_response p sid md coroId errText rsp \<longleftrightarrow> pk_ok p \<and> pk_data p = rsp_data md coroId errText rsp \<and> pk_sessionId p = sid
     \<and> pk_opcode p = RpcRsp \<and> pk_status p = 0 \<and> pk_flags p = 0 \<and> pk_recverSvcId p = 0"

lemma req_packet_sized:
  assumes "env_ok env" "method_ok md" "codec_sized (md_req md) req"
  shows "\<exists>p. req_packet env sid md cid req = Ok p \<and> is_request p sid md cid req"
proof -
  obtain p where p: "req_packet env sid md cid req = Ok p" "pk_ok p" "pk_data p = req_data md cid req"
    "same_header ((pk_SetHeader 0 RpcReq 0 (Packet_new (env_pool env)))\<lparr>pk_sessionId := sid\<rparr>) p"
    using req_packet_ok [OF assms] by blast
  then show ?thesis using same_header_fields [OF p(4)] by (simp add: is_request_def pk_SetHeader_def Packet_new_def)
qed

lemma rsp_packet_sized:
  assumes "env_ok env" "fits_str (ctl_errorText ctl)" "codec_sized (md_rsp md) rsp"
  shows "\<exists>p. rsp_packet env md ctl rsp sid cid = Ok p \<and> is_response p sid md cid (ctl_errorText ctl) rsp"
proof -
  obtain p where p: "rsp_packet env md ctl rsp sid cid = Ok p" "pk_ok p" "pk_data p = rsp_data md cid (ctl_errorText ctl) rsp"
    "same_header ((Packet_new (env_pool env))\<lparr>pk_sessionId := sid, pk_opcode := RpcRsp\<rparr>) p"
    using rsp_packet_ok [OF assms] by blast
  then show ?thesis using same_header_fields [OF p(4)] by (simp add: is_response_def Packet_new_def)
qed

lemmas req_packet_is_request = req_packet_sized [OF _ _ codec_fits_sized]
lemmas rsp_packet_is_response = rsp_packet_sized [OF _ _ codec_fits_sized]

text \<open>\<open>CallMethod\<close> up to its yield sends one request, and waits with the default timeout.\<close>

lemma exec_CallMethod:
  assumes "env_ok env" "method_ok md" "codec_sized (md_req md) req" "link_up sid (v_conn v)"
  shows "\<exists>p. is_request p sid md (co_id o1) req
     \<and> exec (CallMethod env sid md req k) c o1 v = (Some (0, await_rsp env md c k), v\<lparr>v_conn := posted p (v_conn v)\<rparr>)"
proof -
  obtain p where p: "req_packet env sid md (co_id o1) req = Ok p" "is_request p sid md (co_id o1) req"
    using req_packet_sized [OF assms(1-3)] by blast
  then have "cm_PushPacket p (v_conn v) = Ok (None, posted p (v_conn v))"
    using assms(4) by (intro push_posted) (simp add: is_request_def)
  then show ?thesis using p by (intro exI [of _ p]) (simp add: CallMethod_def lift_outcome_def)
qed

text \<open>\<open>CallMethod\<close> behaves, if what follows it behaves.\<close>

lemma good_await:
  assumes "env_ok env" "\<And>reason rsp. result_ok md reason rsp \<Longrightarrow> good (k reason rsp) True c"
  shows "good (await_rsp env md c k r) True c"
proof -
  have "good (lift_outcome (read_rsp env md p) (\<lambda>(reason, rsp). k reason rsp)) True c" if "rsp_shaped p" for p
    using read_rsp_shaped [OF assms(1) that, of md] assms(2) by (auto simp: lift_outcome_def)
  then show ?thesis
    using assms(2) by (auto simp: await_rsp_def woken_def result_ok_def ascii_def split: packet_ptr.splits)
qed

lemma good_CallMethod:
  assumes "env_ok env" "method_ok md" "codec_sized (md_req md) req"
    "\<And>reason rsp. result_ok md reason rsp \<Longrightarrow> good (k reason rsp) True c"
  shows "good (CallMethod env sid md req k) aw c"
proof -
  have "good (lift_outcome (req_packet env sid md cid req) (\<lambda>p. Push p (YieldOn c 0 (await_rsp env md c k)))) aw c" for cid
    using req_packet_sized [OF assms(1-3), of sid cid] good_await [OF assms(1,4)]
    by (auto simp: lift_outcome_def good_time_def)
  then show ?thesis by (simp add: CallMethod_def)
qed

text \<open>A coroutine that waits inside \<open>CallMethod\<close>.\<close>

definition awaiting :: "'g view \<Rightarrow> nat \<Rightarrow> int \<Rightarrow> rpc_env \<Rightarrow> 'm rpc_method \<Rightarrow> (byte list option \<Rightarrow> 'm option \<Rightarrow> 'g prog) \<Rightarrow> int \<Rightarrow> bool" where
  "awaiting v c coroId env md k dl \<longleftrightarrow> (\<exists>o1. v_coro v c = Some o1 \<and> co_id o1 = coroId) \<and> v_live v coroId = Some c
     \<and> v_cont v c = Some (await_rsp env md c k) \<and> v_dl v c = Some dl"

text \<open>A new coroutine that, after some log messages and perhaps the opening of a channel, calls a method.\<close>

lemma spawned_call_starts:
  fixes w :: "'g world"
  assumes w: "winv w" "w_maxCoroId w < 2 ^ 31 - 1" and fits: "env_ok env" "method_ok md" "codec_sized (md_req md) req"
    and link: "link_up sid conn1" and good: "\<And>c. good (entry args) False c"
    and pre: "\<forall>c o1 v. v_conn v = w_conn w \<longrightarrow>
      exec (entry args) c o1 v = exec (CallMethod env sid md req k) c o1 (v\<lparr>v_conn := conn1, v_info := v_info v @ ls\<rparr>)"
  shows "\<exists>c w1 w2 p. CreateCoro entry args w = Ok (c, w1) \<and> Coro_Resume (Suc n) VNil c w1 = Ok (None, w2)
     \<and> winv w2 \<and> is_request p sid md (w_maxCoroId w + 1) req \<and> w_conn w2 = posted p conn1 \<and> w_globals w2 = w_globals w
     \<and> w_info w2 = w_info w @ ls \<and> w_coro w c = None \<and> awaiting (view w2) c (w_maxCoroId w + 1) env md k (ts_now w + CoroTimeoutTime)
     \<and> ts_now w2 = ts_now w \<and> (\<forall>s. s \<noteq> c \<longrightarrow> w_coro w2 s = w_coro w s \<and> deadline w2 s = deadline w s)"
proof -
  let ?id = "w_maxCoroId w + 1"
  obtain c p w1 w2 where w2: "CreateCoro entry args w = Ok (c, w1)" "Coro_Resume (Suc n) VNil c w1 = Ok (None, w2)" "winv w2"
    "w_coro w c = None" "view w1 = v_Create c p entry args (view w)"
    "view w2 = v_exec c (awake_coro VNil (created ?id p entry args)) (entry args) (view w1)"
    using spawn_ok [OF w, of entry args n] good by blast
  let ?o1 = "awake_coro VNil (created ?id p entry args)"
  let ?v = "(view w1)\<lparr>v_coro := (v_coro (view w1))(c \<mapsto> ?o1), v_dl := (v_dl (view w1))(c := None)\<rparr>"
  let ?v1 = "?v\<lparr>v_conn := conn1, v_info := v_info ?v @ ls\<rparr>"
  have id: "co_id (coro.truncate ?o1) = ?id" by (simp add: coro.truncate_def)
  have "v_conn ?v = w_conn w" unfolding w2(5) by (simp add: v_Create_def Let_def)
  then have pre1: "exec (entry args) c (coro.truncate ?o1) ?v = exec (CallMethod env sid md req k) c (coro.truncate ?o1) ?v1" using pre by blast
  have "link_up sid (v_conn ?v1)" using link by simp
  then obtain q where q: "is_request q sid md ?id req"
    "exec (CallMethod env sid md req k) c (coro.truncate ?o1) ?v1 = (Some (0, await_rsp env md c k), ?v1\<lparr>v_conn := posted q (v_conn ?v1)\<rparr>)"
    using exec_CallMethod [OF fits, of sid ?v1 "coro.truncate ?o1" k c] id by auto
  have v2: "view w2 = ?v1\<lparr>v_conn := posted q conn1, v_coro := (v_coro ?v)(c \<mapsto> yielded_coro ?o1),
      v_cont := (v_cont ?v)(c \<mapsto> await_rsp env md c k), v_dl := (v_dl ?v)(c \<mapsto> v_now ?v + yield_millis 0)\<rparr>"
    unfolding w2(6) v_exec_def pre1 q(2) settle_def by simp
  have sel: "v_conn (view w2) = posted q conn1" "v_globals (view w2) = w_globals w" "v_info (view w2) = w_info w @ ls"
    "v_coro (view w2) c = Some (yielded_coro ?o1)" "v_cont (view w2) c = Some (await_rsp env md c k)"
    "v_dl (view w2) c = Some (ts_now w + CoroTimeoutTime)" "v_live (view w2) ?id = Some c"
    unfolding v2 w2(5) by (simp_all add: v_Create_def Let_def yield_millis_def)
  have "awaiting (view w2) c ?id env md k (ts_now w + CoroTimeoutTime)"
    unfolding awaiting_def using sel(4-7) by (simp add: yielded_coro_def)
  moreover have "v_now (view w2) = ts_now w" "\<forall>s. s \<noteq> c \<longrightarrow> v_coro (view w2) s = w_coro w s \<and> v_dl (view w2) s = deadline w s"
    unfolding v2 w2(5) by (simp_all add: v_Create_def Let_def)
  ultimately show ?thesis using w2(1-4) q(1) sel(1-3) by (intro exI [of _ c] exI [of _ w1] exI [of _ w2] exI [of _ q]) simp
qed

lemma call_starts:
  fixes w :: "'g world"
  assumes w: "winv w" "w_maxCoroId w < 2 ^ 31 - 1" and fits: "env_ok env" "method_ok md" "codec_fits (md_req md) req"
    and link: "link_up sid (w_conn w)" and k: "\<And>c reason rsp. result_ok md reason rsp \<Longrightarrow> good (k reason rsp) True c"
  shows "\<exists>c w1 w2 p. CreateCoro (\<lambda>_. CallMethod env sid md req k) args w = Ok (c, w1) \<and> Coro_Resume (Suc n) VNil c w1 = Ok (None, w2)
     \<and> winv w2 \<and> is_request p sid md (w_maxCoroId w + 1) req \<and> w_conn w2 = posted p (w_conn w) \<and> w_globals w2 = w_globals w
     \<and> w_info w2 = w_info w \<and> w_coro w c = None \<and> awaiting (view w2) c (w_maxCoroId w + 1) env md k (ts_now w + CoroTimeoutTime)
     \<and> ts_now w2 = ts_now w \<and> (\<forall>s. s \<noteq> c \<longrightarrow> w_coro w2 s = w_coro w s \<and> deadline w2 s = deadline w s)"
proof -
  have sized: "codec_sized (md_req md) req" by (rule codec_fits_sized [OF fits(3)])
  have good: "good (CallMethod env sid md req k) False c" for c by (rule good_CallMethod [OF fits(1,2) sized]) (rule k)
  have pre: "\<forall>c o1 v. v_conn v = w_conn w \<longrightarrow> exec (CallMethod env sid md req k) c o1 v
      = exec (CallMethod env sid md req k) c o1 (v\<lparr>v_conn := w_conn w, v_info := v_info v @ []\<rparr>)"
  proof (intro allI impI)
    fix c o1 and v :: "'g view"
    assume "v_conn v = w_conn w"
    then have "v\<lparr>v_conn := w_conn w, v_info := v_info v @ []\<rparr> = v" by (cases v) simp
    then show "exec (CallMethod env sid md req k) c o1 v
      = exec (CallMethod env sid md req k) c o1 (v\<lparr>v_conn := w_conn w, v_info := v_info v @ []\<rparr>)" by simp
  qed
  show ?thesis
    using spawned_call_starts [OF w fits(1,2) sized link, where entry = "\<lambda>_. CallMethod env sid md req k" and args = args and ls = "[]" and n = n, OF good pre]
    by simp
qed

text \<open>The end of the wait. What the coroutine does then is what follows the call, with the reason of the
failure and the response.\<close>

lemma awaiting_coro:
  assumes "winv w" "awaiting (view w) c coroId env md k dl"
  obtains o1 p i where "w_coro w c = Some o1" "co_id o1 = coroId" "map_of (w_coros w) coroId = Some c" "co_inner o1 = Some p"
    "w_inner w p = Some i" "in_cStart i" "co_yielded o1" "\<not> co_timeouted o1" "\<not> co_cancelled o1"
proof -
  obtain o1 where o1: "w_coro w c = Some o1" "co_id o1 = coroId" "map_of (w_coros w) coroId = Some c" "deadline w c = Some dl"
    using assms(2) by (auto simp: awaiting_def)
  have "cinv None w" using assms(1) by (simp add: winv_def)
  then obtain p i where "co_inner o1 = Some p" "w_inner w p = Some i" "suspended w c o1 i"
    using suspended_coro [of w c o1] o1 by metis
  then show thesis using that [OF o1(1-3)] o1(4) by (auto simp: suspended_def split: if_splits)
qed

lemma v_exec_override: "v_exec c o2 prog (v\<lparr>v_coro := (v_coro v)(c \<mapsto> o1)\<rparr>) = v_exec c o2 prog v"
  by (simp add: v_exec_def)

lemma set_ptr_ok:
  assumes "winv w" "w_coro w c = Some o1"
  shows "winv (set_coro c (o1\<lparr>co_ptrParam1 := q\<rparr>) w)"
    "view (set_coro c (o1\<lparr>co_ptrParam1 := q\<rparr>) w) = (view w)\<lparr>v_coro := (w_coro w)(c \<mapsto> o1\<lparr>co_ptrParam1 := q\<rparr>)\<rparr>"
proof -
  let ?F = "\<lambda>s o2. if s = c then o2\<lparr>co_ptrParam1 := q\<rparr> else o2"
  have life: "same_life o2 (?F s o2)" for s o2 by (simp add: same_life_def)
  have eq: "(\<lambda>s. map_option (?F s) (w_coro w s)) = (w_coro w)(c \<mapsto> o1\<lparr>co_ptrParam1 := q\<rparr>)"
    using assms(2) by (auto simp: fun_eq_iff option.map_ident)
  show "winv (set_coro c (o1\<lparr>co_ptrParam1 := q\<rparr>) w)"
    "view (set_coro c (o1\<lparr>co_ptrParam1 := q\<rparr>) w) = (view w)\<lparr>v_coro := (w_coro w)(c \<mapsto> o1\<lparr>co_ptrParam1 := q\<rparr>)\<rparr>"
    using map_coros_ok(1) [of ?F w, OF life assms(1)] map_coros_ok(2) [of ?F w, OF life] unfolding eq set_coro_def by simp_all
qed

lemma rsp_arrives:
  fixes w :: "'g world"
  assumes w: "winv w" and aw: "awaiting (view w) c coroId env md k dl" and env: "env_ok env" and id: "is_int coroId"
    and q: "pk_ok q" "pk_data q = rsp_data md coroId errText rsp" "length (pk_data q) + 8192 \<le> 2 ^ 31" "codec_fits (md_rsp md) rsp"
  shows "\<exists>w' o2. HandleRpcRsp (Suc n) env q w = Ok w' \<and> winv w' \<and> co_id o2 = coroId \<and> w_maxCoroId w' = w_maxCoroId w
     \<and> view w' = v_exec c o2 (k (if errText = [] then None else Some errText) (Some rsp)) (view w)"
proof -
  obtain o1 p i where o1: "w_coro w c = Some o1" "co_id o1 = coroId" "map_of (w_coros w) coroId = Some c" "co_inner o1 = Some p"
    "w_inner w p = Some i" "in_cStart i" "co_yielded o1" "\<not> co_timeouted o1" "\<not> co_cancelled o1"
    using awaiting_coro [OF w aw] .
  obtain q1 where q1: "pk_ReadRawType (env_me env) q = Ok (Some (word_of_int coroId :: 32 word), q1)" "pk_ok q1"
    "pk_data q1 = enc_string errText @ enc_string (cd_ser (md_rsp md) rsp)"
    using read_coro_id [OF env q(1)] q(2) by (auto simp: rsp_data_def)
  have len: "length errText + length (cd_ser (md_rsp md) rsp) + 8204 \<le> 2 ^ 31" using q(2,3) by (simp add: rsp_data_def)
  then have shape: "rsp_shaped q1" using q1(2,3) by (auto simp: rsp_shaped_def)
  let ?o = "o1\<lparr>co_ptrParam1 := PPacket q1\<rparr>" and ?w = "set_coro c (o1\<lparr>co_ptrParam1 := PPacket q1\<rparr>) w"
  note ptr = set_ptr_ok [OF w o1(1), of "PPacket q1"]
  have inv: "cinv None ?w" "ts_inv None ?w" "0 \<le> w_maxCoroId ?w" "ts_enabled ?w" using ptr(1) by (simp_all add: winv_def)
  have oc: "w_coro ?w c = Some ?o" "map_of (w_coros ?w) (co_id ?o) = Some c" "co_inner ?o = Some p" "w_inner ?w p = Some i"
    "in_cStart i \<longrightarrow> (\<exists>q. co_ptrParam1 ?o = PPacket q \<and> rsp_shaped q)"
    using o1 shape by simp_all
  obtain w' where w': "Coro_Resume (Suc n) VNil c ?w = Ok (None, w')" "cinv None w'" "ts_inv None w'" "ts_enabled w'"
    "w_maxCoroId w' = w_maxCoroId ?w" "view w' = v_Resume VNil c (view ?w)"
    using Coro_Resume_ok [OF inv(1,2) oc, of n VNil] inv(4) by blast
  let ?o2 = "awake_coro VNil ?o" and ?prog = "k (if errText = [] then None else Some errText) (Some rsp)"
  have "fits_str errText" using len by (simp add: fits_str_def)
  then have rd: "read_rsp env md q1 = Ok (if errText = [] then None else Some errText, Some rsp)"
    by (rule read_rsp_ok [OF env q1(2,3) _ q(4)])
  have cont: "v_cont (view ?w) c = Some (await_rsp env md c k)" using aw unfolding ptr(2) awaiting_def by simp
  have rp: "resume_prog c ?o2 (view ?w) = await_rsp env md c k None"
    unfolding resume_prog_def cont option.case using o1(8,9) by simp
  have tr: "co_timeouted (coro.truncate ?o2) = False" "co_cancelled (coro.truncate ?o2) = False"
    "co_ptrParam1 (coro.truncate ?o2) = PPacket q1"
    using o1(8,9) by (simp_all add: coro.truncate_def)
  have "view w' = v_run c ?o2 (view ?w)" using w'(6) oc(1) by (simp add: v_Resume_def)
  also have "\<dots> = v_exec c ?o2 ?prog (view ?w)"
    by (rule v_run_exec) (simp only: rp await_rsp_def exec.simps tr if_False packet_ptr.case rd lift_outcome_def outcome.case prod.case)
  also have "\<dots> = v_exec c ?o2 ?prog (view w)" unfolding ptr(2) using v_exec_override [of c ?o2 ?prog "view w" ?o] by simp
  finally have "view w' = v_exec c ?o2 ?prog (view w)" .
  moreover have "HandleRpcRsp (Suc n) env q w = Ok w'"
    using q1(1) sint_word_of_int [OF id] o1(1,3) w'(1) by (simp add: HandleRpcRsp_def GetCoro_def)
  moreover have "winv w'" using w'(2-5) inv(3) by (simp add: winv_def)
  ultimately show ?thesis using o1(2) w'(5) by (intro exI [of _ w'] exI [of _ ?o2]) simp
qed

lemma v_Timeout_await:
  assumes "awaiting v c coroId env md k dl"
  shows "\<exists>o2. co_id o2 = coroId \<and> v_Timeout c v = v_exec c o2 (k (Some (ascii ''Coro timeouted'')) None) v"
proof -
  obtain o1 where o1: "v_coro v c = Some o1" "co_id o1 = coroId" and cont: "v_cont v c = Some (await_rsp env md c k)"
    using assms by (auto simp: awaiting_def)
  let ?o2 = "awake_coro VNil (o1\<lparr>co_timeouted := True\<rparr>)"
  have "v_run c ?o2 v = v_exec c ?o2 (k (Some (ascii ''Coro timeouted'')) None) v"
    by (rule v_run_exec) (simp add: resume_prog_def cont await_rsp_def coro.truncate_def)
  then show ?thesis using o1 by (intro exI [of _ ?o2]) (simp add: v_Timeout_def)
qed

lemma v_Cancel_await:
  assumes "awaiting v c coroId env md k dl" "\<And>o1. v_coro v c = Some o1 \<Longrightarrow> \<not> co_timeouted o1"
  shows "\<exists>o2. co_id o2 = coroId \<and> v_Cancel c v = v_exec c o2 (k (Some (ascii ''Coro cancelled'')) None) v"
proof -
  obtain o1 where o1: "v_coro v c = Some o1" "co_id o1 = coroId" "v_dl v c \<noteq> None" and cont: "v_cont v c = Some (await_rsp env md c k)"
    using assms(1) by (auto simp: awaiting_def)
  let ?o2 = "awake_coro VNil (o1\<lparr>co_cancelled := True\<rparr>)"
  have "\<not> co_timeouted ?o2" using assms(2) [OF o1(1)] by simp
  then have "v_run c ?o2 v = v_exec c ?o2 (k (Some (ascii ''Coro cancelled'')) None) v"
    by (intro v_run_exec) (simp add: resume_prog_def cont await_rsp_def coro.truncate_def)
  then show ?thesis using o1 by (intro exI [of _ ?o2]) (auto simp: v_Cancel_def)
qed

lemma cancel_ends_call:
  assumes w: "winv w" and aw: "awaiting (view w) c coroId env md k dl"
  shows "\<exists>w' o2. mgr_Cancel (Suc n) coroId w = Ok (None, w') \<and> winv w' \<and> co_id o2 = coroId
     \<and> view w' = v_exec c o2 (k (Some (ascii ''Coro cancelled'')) None) (view w)"
proof -
  have inv: "cinv None w" "ts_inv None w" "ts_enabled w" "0 \<le> w_maxCoroId w" using w by (simp_all add: winv_def)
  have d: "deadline w c = Some dl" "map_of (w_coros w) coroId = Some c" using aw by (simp_all add: awaiting_def)
  obtain w' where w': "Coro_Cancel (Suc n) c w = Ok (None, w')" "cinv None w'" "ts_inv None w'" "ts_enabled w' = ts_enabled w"
    "w_maxCoroId w' = w_maxCoroId w" "view w' = v_Cancel c (view w)"
    using Coro_Cancel_ok [OF inv(1,2) d(1), of n] by blast
  have "\<not> co_timeouted o1" if "v_coro (view w) c = Some o1" for o1
    using awaiting_coro [OF w aw] that by (metis option.inject view_sel(2))
  then obtain o2 where "co_id o2 = coroId" "v_Cancel c (view w) = v_exec c o2 (k (Some (ascii ''Coro cancelled'')) None) (view w)"
    using v_Cancel_await [OF aw] by blast
  moreover have "mgr_Cancel (Suc n) coroId w = Ok (None, w')" using w'(1) d(2) by (simp add: mgr_Cancel_def GetCoro_def)
  moreover have "winv w'" using w'(2-5) inv(3,4) by (simp add: winv_def)
  ultimately show ?thesis using w'(6) by (intro exI [of _ w'] exI [of _ o2]) simp
qed

text \<open>A call goes on waiting while other coroutines run.\<close>

lemma awaiting_other:
  assumes "s \<noteq> c" "co_id o2 \<noteq> coroId"
  shows "awaiting (v_exec s o2 prog v) c coroId env md k dl \<longleftrightarrow> awaiting v c coroId env md k dl"
  using assms by (simp add: awaiting_def v_exec_other)

definition only_id :: "'g view \<Rightarrow> nat \<Rightarrow> int \<Rightarrow> bool" where
  "only_id v c coroId \<longleftrightarrow> (\<forall>s os. v_coro v s = Some os \<longrightarrow> co_id os = coroId \<longrightarrow> s = c)"

lemma live_only_id:
  assumes "winv w" "map_of (w_coros w) coroId = Some c"
  shows "only_id (view w) c coroId"
  unfolding only_id_def
proof (intro allI impI)
  fix s os
  assume os: "v_coro (view w) s = Some os" "co_id os = coroId"
  have cinv: "cinv None w" using assms(1) by (simp add: winv_def)
  then have "coro_ok None w s os" using os by (simp add: cinv_coro)
  then show "s = c"
    using os assms(2) tables_okD(3) [of w coroId c] cinv by (auto simp: coro_ok_def ended_def cinv_def split: if_splits)
qed

lemma v_exec_coro: "\<exists>o2. v_coro (v_exec c o1 prog v) c = Some o2 \<and> co_id o2 = co_id o1"
  using exec_frame(2) [of prog c "coro.truncate o1" "v\<lparr>v_coro := (v_coro v)(c \<mapsto> o1), v_dl := (v_dl v)(c := None)\<rparr>"]
  by (auto simp: v_exec_def settle_def yielded_coro_def split: prod.splits option.splits)

lemma v_Timeout_other:
  assumes "s \<noteq> c" "v_coro v s \<noteq> None" "only_id v c coroId"
  shows "awaiting (v_Timeout s v) c coroId env md k dl \<longleftrightarrow> awaiting v c coroId env md k dl" "only_id (v_Timeout s v) c coroId"
    "v_coro v t \<noteq> None \<Longrightarrow> v_coro (v_Timeout s v) t \<noteq> None"
proof -
  obtain os where os: "v_coro v s = Some os" using assms(2) by auto
  then have id: "co_id os \<noteq> coroId" using assms(1,3) by (auto simp: only_id_def)
  define o2 where "o2 = awake_coro VNil (os\<lparr>co_timeouted := True\<rparr>)"
  have o2: "co_id o2 = co_id os" by (simp add: o2_def)
  have eq: "v_Timeout s v = v_exec s o2 (resume_prog s o2 v) v" by (simp add: v_Timeout_def v_run_def os o2_def)
  show "awaiting (v_Timeout s v) c coroId env md k dl \<longleftrightarrow> awaiting v c coroId env md k dl"
    unfolding eq using assms(1) id o2 by (simp add: awaiting_other)
  obtain o3 where o3: "v_coro (v_Timeout s v) s = Some o3" "co_id o3 = co_id os"
    unfolding eq using v_exec_coro [of s o2] o2 by metis
  have other: "v_coro (v_Timeout s v) t = v_coro v t" if "t \<noteq> s" for t unfolding eq using that by (simp add: v_exec_other)
  show "only_id (v_Timeout s v) c coroId"
    unfolding only_id_def
  proof (intro allI impI)
    fix t ot
    assume "v_coro (v_Timeout s v) t = Some ot" "co_id ot = coroId"
    then show "t = c" using other [of t] o3 id assms(3) by (cases "t = s") (auto simp: only_id_def)
  qed
  show "v_coro (v_Timeout s v) t \<noteq> None" if "v_coro v t \<noteq> None" using that other [of t] o3 by (cases "t = s") auto
qed

lemma fold_Timeout_other:
  "c \<notin> set ts \<Longrightarrow> (\<And>s. s \<in> set ts \<Longrightarrow> v_coro v s \<noteq> None) \<Longrightarrow> only_id v c coroId \<Longrightarrow>
   (awaiting (fold v_Timeout ts v) c coroId env md k dl \<longleftrightarrow> awaiting v c coroId env md k dl) \<and> only_id (fold v_Timeout ts v) c coroId"
proof (induction ts arbitrary: v)
  case (Cons s ts)
  have s: "s \<noteq> c" "v_coro v s \<noteq> None" using Cons.prems(1,2) by auto
  note step = v_Timeout_other [OF s Cons.prems(3)]
  have "v_coro (v_Timeout s v) t \<noteq> None" if "t \<in> set ts" for t using that step(3) Cons.prems(2) by auto
  then show ?case using Cons.IH [OF _ _ step(2)] Cons.prems(1) step(1) by simp
qed simp

lemma update_ends_call:
  assumes w: "winv w" and aw: "awaiting (view w) c coroId env md k dl" and due: "dl \<le> ts_now w" and fuel: "bh_size (ts_heap w) < fuel"
  shows "\<exists>w' ts1 ts2 o2. mgr_Update fuel (Suc n) w = Ok w' \<and> winv w' \<and> co_id o2 = coroId \<and> set (ts1 @ c # ts2) = {t. is_due w t}
     \<and> distinct (ts1 @ c # ts2) \<and> sorted (map (\<lambda>t. the (deadline w t)) (ts1 @ c # ts2))
     \<and> view w' = v_Recycle (fold v_Timeout ts2
         (v_exec c o2 (k (Some (ascii ''Coro timeouted'')) None) (fold v_Timeout ts1 (view w))))"
proof -
  obtain w' ts where w': "mgr_Update fuel (Suc n) w = Ok w'" "winv w'" "distinct ts" "set ts = {t. is_due w t}"
    "sorted (map (\<lambda>t. the (deadline w t)) ts)" "view w' = v_Recycle (fold v_Timeout ts (view w))"
    using mgr_Update_ok [OF w fuel, of n] by blast
  have live: "map_of (w_coros w) coroId = Some c" "deadline w c = Some dl" using aw by (simp_all add: awaiting_def)
  then have "c \<in> set ts" using w'(4) due by (simp add: is_due_def)
  then obtain ts1 ts2 where ts: "ts = ts1 @ c # ts2" by (meson split_list)
  have coro: "v_coro (view w) s \<noteq> None" if "s \<in> set ts1" for s
  proof -
    have "is_due w s" using that ts w'(4) by auto
    then have "ts_timers w s \<noteq> None" by (auto simp: is_due_def deadline_def split: option.splits)
    then show ?thesis using w by (simp add: winv_def cinv_def)
  qed
  have "c \<notin> set ts1" using w'(3) ts by simp
  from fold_Timeout_other [OF this coro live_only_id [OF w live(1)]] aw
  have "awaiting (fold v_Timeout ts1 (view w)) c coroId env md k dl" by blast
  from v_Timeout_await [OF this] obtain o2 where "co_id o2 = coroId"
    "v_Timeout c (fold v_Timeout ts1 (view w)) = v_exec c o2 (k (Some (ascii ''Coro timeouted'')) None) (fold v_Timeout ts1 (view w))"
    by blast
  then show ?thesis using w' ts by (intro exI [of _ w'] exI [of _ ts1] exI [of _ ts2] exI [of _ o2]) simp
qed

lemma update_keeps_call:
  assumes w: "winv w" and aw: "awaiting (view w) c coroId env md k dl" and wait: "ts_now w < dl" and fuel: "bh_size (ts_heap w) < fuel"
  shows "\<exists>w'. mgr_Update fuel (Suc n) w = Ok w' \<and> winv w' \<and> awaiting (view w') c coroId env md k dl"
proof -
  obtain w' ts where w': "mgr_Update fuel (Suc n) w = Ok w'" "winv w'" "set ts = {t. is_due w t}"
    "view w' = v_Recycle (fold v_Timeout ts (view w))"
    using mgr_Update_ok [OF w fuel, of n] by blast
  have live: "map_of (w_coros w) coroId = Some c" "deadline w c = Some dl" using aw by (simp_all add: awaiting_def)
  then have c: "c \<notin> set ts" using w'(3) wait by (simp add: is_due_def)
  have coro: "v_coro (view w) s \<noteq> None" if "s \<in> set ts" for s
  proof -
    have "ts_timers w s \<noteq> None" using that w'(3) by (auto simp: is_due_def deadline_def split: option.splits)
    then show ?thesis using w by (simp add: winv_def cinv_def)
  qed
  let ?v = "fold v_Timeout ts (view w)"
  have v: "awaiting ?v c coroId env md k dl" using fold_Timeout_other [OF c coro live_only_id [OF w live(1)]] aw by blast
  have "v_live (view w') coroId = Some c" using v unfolding w'(4) by (simp add: v_Recycle_def awaiting_def)
  moreover have cinv: "cinv None w'" using w'(2) by (simp add: winv_def)
  ultimately obtain o1 where o1: "w_coro w' c = Some o1" using tables_okD(4) [of w' coroId c] by (auto simp: cinv_def)
  then have "c \<notin> ran (v_dead ?v)" using w'(4) [THEN arg_cong [of _ _ v_coro]] by (auto simp: v_Recycle_def restrict_map_def)
  then have "awaiting (v_Recycle ?v) c coroId env md k dl" using v by (simp add: v_Recycle_def awaiting_def)
  then show ?thesis using w'(1,2) unfolding w'(4) [symmetric] by blast
qed

section \<open>Events\<close>

definition v_Forget :: "'g view \<Rightarrow> 'g view" where
  "v_Forget v = v\<lparr>v_coro := (\<lambda>c. map_option forget_packet (v_coro v c))\<rparr>"

lemma recycle_packet_ok: "winv w \<Longrightarrow> winv (recycle_packet w)" "view (recycle_packet w) = v_Forget (view w)"
proof -
  have life: "same_life o1 (forget_packet o1)" for o1 :: "'a coroutine" by (simp add: same_life_def forget_packet_def split: packet_ptr.splits)
  show "winv w \<Longrightarrow> winv (recycle_packet w)" "view (recycle_packet w) = v_Forget (view w)"
    using map_coros_ok [of "\<lambda>_. forget_packet" w, OF life] by (simp_all add: recycle_packet_def v_Forget_def)
qed

lemma forget_id [simp]: "co_id (forget_packet o1) = co_id o1"
  by (simp add: forget_packet_def split: packet_ptr.splits)

lemma awaiting_Forget [simp]: "awaiting (v_Forget v) c coroId env md k dl \<longleftrightarrow> awaiting v c coroId env md k dl"
  by (auto simp: awaiting_def v_Forget_def)

text \<open>Both handlers are subscribed, as the constructor of \<open>RpcMgr\<close> does.\<close>

definition subscribed :: "rpc_handler conn_mgr \<Rightarrow> bool" where
  "subscribed c \<longleftrightarrow> (\<exists>s. cm_svc c = Some s \<and> sv_handlers s RpcReq = Some OnRpcReq \<and> sv_handlers s RpcRsp = Some OnRpcRsp)"

lemma RpcMgr_new_subscribed:
  assumes "cm_svc c = Some s" "\<not> sv_started s" "sv_handlers s = Map.empty"
  shows "\<exists>c'. RpcMgr_new c = Ok c' \<and> subscribed c'"
  using assms by (simp add: RpcMgr_new_def cm_Subscribe_def sv_Subscribe_def subscribed_def RpcReq_def RpcRsp_def)

lemma posted_subscribed [simp]: "subscribed (posted p c) \<longleftrightarrow> subscribed c"
  by (auto simp: subscribed_def posted_def)

lemma event_dispatch:
  assumes "subscribed (w_conn w)" "link_up (pk_sessionId p) (w_conn w)" "pk_recverSvcId p = 0"
  shows "pk_opcode p = RpcReq \<Longrightarrow> HandleEvent n env svcs (DataArrival p) w
      = obind (HandleRpcReq n env svcs (p\<lparr>pk_recverSvcId := service_id (w_conn w)\<rparr>) w) (\<lambda>w1. Ok (recycle_packet w1))"
    "pk_opcode p = RpcRsp \<Longrightarrow> HandleEvent n env svcs (DataArrival p) w
      = obind (HandleRpcRsp n env (p\<lparr>pk_recverSvcId := service_id (w_conn w)\<rparr>) w) (\<lambda>w1. Ok (recycle_packet w1))"
  using assms by (auto simp: subscribed_def link_up_def HandleEvent_def HandleEv_DataArrival_def HandlePacket_def service_id_def Let_def)

lemma pk_update_recver [simp]: "pk_ok (p\<lparr>pk_recverSvcId := i\<rparr>) = pk_ok p" "pk_data (p\<lparr>pk_recverSvcId := i\<rparr>) = pk_data p"
  "pk_ok (p\<lparr>pk_senderSvcId := i\<rparr>) = pk_ok p" "pk_data (p\<lparr>pk_senderSvcId := i\<rparr>) = pk_data p"
  by (simp_all add: pk_ok_def pk_data_def split: option.splits)

section \<open>The server side\<close>

text \<open>Code that neither yields nor asks for its coroutine can run on the main routine.\<close>

primrec plain :: "'g prog \<Rightarrow> bool" where
  "plain Finish = True"
| "plain (Crash e) = False"
| "plain NoFuel = False"
| "plain (Get k) = (\<forall>g. plain (k g))"
| "plain (Put g p) = plain p"
| "plain (Info fmt args p) = plain p"
| "plain (Push packet p) = plain p"
| "plain (Channel ip port k) = (\<forall>r. plain (k r))"
| "plain (CurCoro k) = False"
| "plain (Deref a k) = False"
| "plain (IsMain a k) = False"
| "plain (YieldOn a t k) = False"

lemma plain_good: "plain prog \<Longrightarrow> good prog aw c"
  by (induction prog) auto

lemma run_plain:
  "plain prog \<Longrightarrow> cm_svc (w_conn w) \<noteq> None \<Longrightarrow>
   \<exists>w1. same_coros w w1 \<and> run prog yld w = Ok (None, w1) \<and> exec prog c o1 (view w) = (None, view w1)"
proof (induction prog arbitrary: w)
  case (Get k)
  then show ?case by simp
next
  case (Put g prog)
  have s: "same_coros w (w\<lparr>w_globals := g\<rparr>)"
    unfolding same_coros_def by (rule exI [of _ g], rule exI [of _ "w_info w"], rule exI [of _ "w_conn w"]) simp
  then show ?case using Put.IH [of "w\<lparr>w_globals := g\<rparr>"] Put.prems same_coros_trans [OF s] by (auto simp: same_coros_view)
next
  case (Info fmt args prog)
  let ?w = "w\<lparr>w_info := w_info w @ [(fmt, args)]\<rparr>"
  have s: "same_coros w ?w"
    unfolding same_coros_def by (rule exI [of _ "w_globals w"], rule exI [of _ "w_info w @ [(fmt, args)]"], rule exI [of _ "w_conn w"]) simp
  then show ?case using Info.IH [of ?w] Info.prems same_coros_trans [OF s] by (auto simp: same_coros_view)
next
  case (Push packet prog)
  obtain ret cc where cc: "cm_PushPacket packet (w_conn w) = Ok (ret, cc)" "cm_svc cc \<noteq> None"
    using cm_ops_ok(1) [OF Push.prems(2)] by blast
  have s: "same_coros w (w\<lparr>w_conn := cc\<rparr>)"
    unfolding same_coros_def using cc(2) by (intro exI [of _ "w_globals w"] exI [of _ "w_info w"] exI [of _ cc]) simp
  show ?case using Push.IH [of "w\<lparr>w_conn := cc\<rparr>"] Push.prems(1) cc same_coros_trans [OF s] by (auto simp: same_coros_view)
next
  case (Channel ip port k)
  obtain ch cc where cc: "cm_GetRpcChannel ip port (w_conn w) = Ok (ch, cc)" "cm_svc cc \<noteq> None"
    using cm_ops_ok(2) [OF Channel.prems(2)] by blast
  have s: "same_coros w (w\<lparr>w_conn := cc\<rparr>)"
    unfolding same_coros_def using cc(2) by (intro exI [of _ "w_globals w"] exI [of _ "w_info w"] exI [of _ cc]) simp
  show ?case using Channel.IH [of "k ch" "w\<lparr>w_conn := cc\<rparr>"] Channel.prems(1) cc same_coros_trans [OF s] by (auto simp: same_coros_view)
qed (auto simp: same_coros_refl)

lemma same_coros_winv: "same_coros w w1 \<Longrightarrow> winv w \<Longrightarrow> winv w1"
  using same_coros_cinv same_coros_ts(3) same_coros_fields by (metis winv_def)

lemma run_main_plain:
  assumes "plain prog" "winv w"
  shows "\<exists>w1. run_main n prog w = Ok w1 \<and> winv w1 \<and> view w1 = snd (exec prog c o1 (view w))"
proof -
  have "cm_svc (w_conn w) \<noteq> None" using assms(2) by (simp add: winv_def cinv_def)
  then obtain w1 where "same_coros w w1" "run prog (Coro_Yield (resume_nil n)) w = Ok (None, w1)" "exec prog c o1 (view w) = (None, view w1)"
    using run_plain [OF assms(1)] by blast
  then show ?thesis using same_coros_winv assms(2) by (auto simp: run_main_def)
qed

definition registered :: "('m, 'g) services \<Rightarrow> 'm rpc_method \<Rightarrow> ('m, 'g) impl \<Rightarrow> bool" where
  "registered svcs md f \<longleftrightarrow> (\<exists>mds. svcs (md_service md) = Some mds \<and> mds (md_name md) = Some (md, f))"

lemma AddService_registered:
  assumes "(md, f) \<in> set methods" "distinct (map (\<lambda>m. md_name (fst m)) methods)"
  shows "registered (AddService (md_service md) methods svcs) md f"
proof -
  have "fold (\<lambda>m mds. mds(md_name (fst m) \<mapsto> m)) methods t (md_name md) = Some (md, f)" for t
    using assms
  proof (induction methods arbitrary: t)
    case (Cons m methods)
    have keep: "md_name md \<notin> (\<lambda>m. md_name (fst m)) ` set ms \<Longrightarrow> fold (\<lambda>m mds. mds(md_name (fst m) \<mapsto> m)) ms t (md_name md) = t (md_name md)"
      for ms and t :: "byte list \<rightharpoonup> 'a rpc_method \<times> ('a, 'b) impl"
      by (induction ms arbitrary: t) auto
    show ?case
    proof (cases "m = (md, f)")
      case True
      have "fold (\<lambda>m mds. mds(md_name (fst m) \<mapsto> m)) methods (t(md_name md \<mapsto> m)) (md_name md) = Some m"
        using Cons.prems(2) True by (subst keep) (auto simp del: fun_upd_apply, simp)
      then show ?thesis using True by (simp del: fun_upd_apply)
    qed (use Cons in auto)
  qed simp
  then show ?thesis by (simp add: registered_def AddService_def)
qed

lemma HandleRpcReq_dispatch:
  assumes env: "env_ok env" and p: "pk_ok p" "pk_data p = req_data md coroId req" and md: "method_ok md" "codec_fits (md_req md) req"
    and id: "is_int coroId" and svc: "registered svcs md f"
  shows "HandleRpcReq n env svcs p w = (let func = serve env md f req (pk_sessionId p) coroId in
     if \<not> md_isCoroRequired md then run_main n func w
     else obind (CreateCoro (\<lambda>_. func) 0 w) (\<lambda>(coro, w1). obind (Coro_Resume n VNil coro w1) (\<lambda>(_, w2). Ok w2)))"
proof -
  let ?me = "env_me env"
  have me: "host_order ?me" and n: "host_order ?me \<and> length (md_service md) + 2048 \<le> 2 ^ 32" "host_order ?me \<and> length (md_name md) + 2048 \<le> 2 ^ 32"
    using env md(1) by (simp_all add: env_ok_def method_ok_def fits_str_def)
  obtain p1 where p1: "pk_Read_string ?me p = Ok (Some (md_service md), p1)" "pk_ok p1"
    "pk_data p1 = enc_string (md_name md) @ enc_u32 (word_of_int coroId) @ enc_string (cd_ser (md_req md) req)"
    using str.rd_enc [OF p(1) n(1)] p(2) unfolding req_data_def by auto
  obtain p2 where p2: "pk_Read_string ?me p1 = Ok (Some (md_name md), p2)" "pk_ok p2"
    "pk_data p2 = enc_u32 (word_of_int coroId) @ enc_string (cd_ser (md_req md) req)"
    using str.rd_enc [OF p1(2) n(2) p1(3)] by auto
  obtain p3 where p3: "pk_ReadRawType ?me p2 = Ok (Some (word_of_int coroId :: 32 word), p3)" "pk_ok p3"
    "pk_data p3 = enc_string (cd_ser (md_req md) req) @ []"
    using read_coro_id [OF env p2(2,3)] by auto
  obtain p4 where p4: "pk_Read_pb (cd_parse (md_req md)) ?me p3 = Ok (Some req, p4)"
    using pb_rd [OF me p3(2) md(2) p3(3)] by auto
  show ?thesis
    using p1(1) p2(1) p3(1) p4 svc [unfolded registered_def] sint_word_of_int [OF id] by (auto simp: HandleRpcReq_def Let_def)
qed

text \<open>A method that answers at once, perhaps after some log messages.\<close>

definition logs :: "(string \<times> byte list list) list \<Rightarrow> 'g prog \<Rightarrow> 'g prog" where
  "logs ls p = foldr (\<lambda>(fmt, args) q. Info fmt args q) ls p"

definition answers :: "'m rpc_method \<Rightarrow> ('m, 'g) impl \<Rightarrow> 'm \<Rightarrow> controller \<Rightarrow> 'm \<Rightarrow> (string \<times> byte list list) list \<Rightarrow> bool" where
  "answers md f req ctl rsp ls \<longleftrightarrow> (\<forall>k. f RpcController_new req (md_new md) k = logs ls (k ctl rsp))"

lemma plain_logs [simp]: "plain (logs ls p) \<longleftrightarrow> plain p"
  by (induction ls) (auto simp: logs_def)

lemma exec_logs: "exec (logs ls p) c o1 v = exec p c o1 (v\<lparr>v_info := v_info v @ ls\<rparr>)"
  by (induction ls arbitrary: v) (auto simp: logs_def)

lemma serve_answers:
  assumes "env_ok env" "answers md f req ctl rsp ls" "fits_str (ctl_errorText ctl)" "codec_fits (md_rsp md) rsp" "link_up sid (v_conn v)"
  shows "\<exists>q. is_response q sid md coroId (ctl_errorText ctl) rsp \<and> plain (serve env md f req sid coroId)
     \<and> exec (serve env md f req sid coroId) c o1 v = (None, v\<lparr>v_info := v_info v @ ls, v_conn := posted q (v_conn v)\<rparr>)"
proof -
  obtain q where q: "rsp_packet env md ctl rsp sid coroId = Ok q" "is_response q sid md coroId (ctl_errorText ctl) rsp"
    using rsp_packet_is_response [OF assms(1,3,4)] by blast
  have eq: "serve env md f req sid coroId = logs ls (Push q Finish)"
    using assms(2) q(1) by (simp add: serve_def answers_def OnRpcDone_def lift_outcome_def)
  have "cm_PushPacket q (v_conn v) = Ok (None, posted q (v_conn v))" using q(2) assms(5) by (intro push_posted) (simp add: is_response_def)
  then show ?thesis unfolding eq using q(2) by (intro exI [of _ q]) (simp add: exec_logs)
qed

lemma request_served:
  assumes env: "env_ok env" and p: "pk_ok p" "pk_data p = req_data md coroId req" and md: "method_ok md" "codec_fits (md_req md) req"
    and id: "is_int coroId" and svc: "registered svcs md f" "\<not> md_isCoroRequired md"
    and ans: "answers md f req ctl rsp ls" "fits_str (ctl_errorText ctl)" "codec_fits (md_rsp md) rsp"
    and w: "winv w" "link_up (pk_sessionId p) (w_conn w)"
  shows "\<exists>w' q. HandleRpcReq n env svcs p w = Ok w' \<and> winv w' \<and> is_response q (pk_sessionId p) md coroId (ctl_errorText ctl) rsp
     \<and> view w' = (view w)\<lparr>v_info := w_info w @ ls, v_conn := posted q (w_conn w)\<rparr>"
proof -
  have link: "link_up (pk_sessionId p) (v_conn (view w))" using w(2) by simp
  obtain q where q: "is_response q (pk_sessionId p) md coroId (ctl_errorText ctl) rsp" "plain (serve env md f req (pk_sessionId p) coroId)"
    "exec (serve env md f req (pk_sessionId p) coroId) undefined undefined (view w) = (None, (view w)\<lparr>v_info := w_info w @ ls, v_conn := posted q (w_conn w)\<rparr>)"
    using serve_answers [OF env ans link, of coroId undefined undefined] by auto
  obtain w' where "run_main n (serve env md f req (pk_sessionId p) coroId) w = Ok w'" "winv w'"
    "view w' = snd (exec (serve env md f req (pk_sessionId p) coroId) undefined undefined (view w))"
    using run_main_plain [OF q(2) w(1)] by blast
  then show ?thesis
    using q(1,3) svc(2) HandleRpcReq_dispatch [OF env p md id svc(1), of n w] by (intro exI [of _ w'] exI [of _ q]) simp
qed

section \<open>Events\<close>

lemma response_event:
  assumes "winv w" "awaiting (view w) c coroId env md k dl" "env_ok env" "is_int coroId" "subscribed (w_conn w)" "link_up sid (w_conn w)"
    "is_response q sid md coroId errText rsp" "codec_fits (md_rsp md) rsp" "length (pk_data q) + 8192 \<le> 2 ^ 31"
  shows "\<exists>w' o2. HandleEvent (Suc n) env svcs (DataArrival q) w = Ok w' \<and> winv w' \<and> co_id o2 = coroId
     \<and> view w' = v_Forget (v_exec c o2 (k (if errText = [] then None else Some errText) (Some rsp)) (view w))"
proof -
  let ?q = "q\<lparr>pk_recverSvcId := service_id (w_conn w)\<rparr>"
  have "pk_ok ?q" "pk_data ?q = rsp_data md coroId errText rsp" "length (pk_data ?q) + 8192 \<le> 2 ^ 31"
    using assms(7,9) by (auto simp: is_response_def)
  from rsp_arrives [OF assms(1-4) this assms(8), of n] obtain w1 o2 where w1: "HandleRpcRsp (Suc n) env ?q w = Ok w1" "winv w1" "co_id o2 = coroId"
    "view w1 = v_exec c o2 (k (if errText = [] then None else Some errText) (Some rsp)) (view w)"
    by blast
  have "HandleEvent (Suc n) env svcs (DataArrival q) w = Ok (recycle_packet w1)"
    using event_dispatch(2) [of w q "Suc n" env svcs] assms(5-7) w1(1) by (simp add: is_response_def)
  then show ?thesis
    using w1(3,4) recycle_packet_ok(1) [OF w1(2)] recycle_packet_ok(2) [of w1] by (intro exI [of _ "recycle_packet w1"] exI [of _ o2]) simp
qed

lemma request_posted:
  assumes "winv w" "env_ok env" "subscribed (w_conn w)" "link_up sid (w_conn w)" "is_request p sid md coroId req"
    "method_ok md" "codec_fits (md_req md) req" "is_int coroId" "registered svcs md f" "\<not> md_isCoroRequired md"
    "answers md f req ctl rsp ls" "fits_str (ctl_errorText ctl)" "codec_fits (md_rsp md) rsp"
  shows "\<exists>w' q. HandleEvent n env svcs (DataArrival p) w = Ok w' \<and> winv w' \<and> is_response q sid md coroId (ctl_errorText ctl) rsp
     \<and> w_conn w' = posted q (w_conn w) \<and> w_info w' = w_info w @ ls
     \<and> view w' = v_Forget ((view w)\<lparr>v_info := w_info w', v_conn := w_conn w'\<rparr>)"
proof -
  let ?p = "p\<lparr>pk_recverSvcId := service_id (w_conn w)\<rparr>"
  have p: "pk_ok ?p" "pk_data ?p = req_data md coroId req" "pk_sessionId ?p = sid" using assms(5) by (simp_all add: is_request_def)
  have link: "link_up (pk_sessionId ?p) (w_conn w)" using assms(4) p(3) by simp
  obtain w1 q where w1: "HandleRpcReq n env svcs ?p w = Ok w1" "winv w1" "is_response q (pk_sessionId ?p) md coroId (ctl_errorText ctl) rsp"
    "view w1 = (view w)\<lparr>v_info := w_info w @ ls, v_conn := posted q (w_conn w)\<rparr>"
    using request_served [OF assms(2) p(1,2) assms(6-13,1) link, of n] by (elim exE conjE)
  let ?w = "recycle_packet w1"
  have "HandleEvent n env svcs (DataArrival p) w = Ok ?w"
    using event_dispatch(1) [of w p n env svcs] assms(3-5) w1(1) by (simp add: is_request_def)
  moreover have "is_response q sid md coroId (ctl_errorText ctl) rsp" using w1(3) p(3) by simp
  moreover have f: "w_conn ?w = posted q (w_conn w)" "w_info ?w = w_info w @ ls"
    using arg_cong [OF w1(4), of v_conn] arg_cong [OF w1(4), of v_info] by (simp_all add: recycle_packet_def)
  moreover have "view ?w = v_Forget ((view w)\<lparr>v_info := w_info ?w, v_conn := w_conn ?w\<rparr>)"
    unfolding f recycle_packet_ok(2) w1(4) ..
  ultimately show ?thesis
    using recycle_packet_ok(1) [OF w1(2)] by (intro exI [of _ ?w] exI [of _ q]) simp
qed

lemma request_event:
  assumes "winv w" "env_ok env" "subscribed (w_conn w)" "link_up sid (w_conn w)" "is_request p sid md coroId req"
    "method_ok md" "codec_fits (md_req md) req" "is_int coroId" "registered svcs md f" "\<not> md_isCoroRequired md"
    "answers md f req ctl rsp ls" "fits_str (ctl_errorText ctl)" "codec_fits (md_rsp md) rsp"
  shows "\<exists>w' q. HandleEvent n env svcs (DataArrival p) w = Ok w' \<and> winv w' \<and> is_response q sid md coroId (ctl_errorText ctl) rsp
     \<and> sent_packets (w_conn w') = sent_packets (w_conn w) @ [q] \<and> w_info w' = w_info w @ ls
     \<and> view w' = v_Forget ((view w)\<lparr>v_info := w_info w', v_conn := w_conn w'\<rparr>)"
proof -
  obtain w' q where w': "HandleEvent n env svcs (DataArrival p) w = Ok w'" "winv w'" "is_response q sid md coroId (ctl_errorText ctl) rsp"
    "w_conn w' = posted q (w_conn w)" "w_info w' = w_info w @ ls" "view w' = v_Forget ((view w)\<lparr>v_info := w_info w', v_conn := w_conn w'\<rparr>)"
    using request_posted [OF assms, of n] by (elim exE conjE)
  have "is_response (q\<lparr>pk_senderSvcId := service_id (w_conn w)\<rparr>) sid md coroId (ctl_errorText ctl) rsp" using w'(3) by (simp add: is_response_def)
  moreover have "sent_packets (w_conn w') = sent_packets (w_conn w) @ [q\<lparr>pk_senderSvcId := service_id (w_conn w)\<rparr>]" using w'(4) assms(4) by simp
  ultimately show ?thesis using w'(1,2,5,6) by blast
qed

end
