(* ===== verification/Rpc_Properties.thy ===== *)
theory Rpc_Properties
  imports Rpc_Calls
begin

text \<open>
  The properties of the RPC layer: how a call ends, how a request is served, what goes wrong with
  late responses, unknown methods and calls from the main routine.
\<close>

section \<open>A process to start from\<close>

lemma winv_init: "cm_svc conn \<noteq> None \<Longrightarrow> winv (world_init now g conn)"
proof -
  assume svc: "cm_svc conn \<noteq> None"
  let ?w = "world_init now g conn"
  have f: "ts_heap ?w = ts_heap (ts_init now)" "ts_data ?w = ts_data (ts_init now)" "ts_timers ?w = ts_timers (ts_init now)"
    "ts_next ?w = ts_next (ts_init now)" "ts_destroyed ?w = ts_destroyed (ts_init now)" "ts_enabled ?w = ts_enabled (ts_init now)"
    by (simp_all add: world_init_def tstate.defs)
  have "ts_inv None ?w" using ts_cong(4) [OF f(1-5)] ts_inv_init by blast
  moreover have "deadline ?w c = None" for c by (simp add: deadline_def f(3)) (simp add: ts_init_def)
  moreover have "ts_timers ?w c = None" "ts_enabled ?w" for c by (simp_all add: f ts_init_def)
  ultimately show ?thesis
    using svc by (simp add: winv_def cinv_def stack_ok_def tables_ok_def) (simp add: world_init_def tstate.defs)
qed

definition demo_svc :: "rpc_handler service" where
  "demo_svc = \<lparr>sv_id = 7, sv_started = True, sv_ready = [1 \<mapsto> False], sv_handlers = [RpcReq \<mapsto> OnRpcReq, RpcRsp \<mapsto> OnRpcRsp],
     sv_events = [], sv_connect = [], sv_sent = [], sv_closed = []\<rparr>"

definition demo_world :: "'g \<Rightarrow> 'g world" where
  "demo_world g = world_init 0 g (ConnMgr_new\<lparr>cm_svc := Some demo_svc\<rparr>)"

definition demo_rpc_env :: rpc_env where
  "demo_rpc_env = \<lparr>env_me = LittleEndian, env_pool = None\<rparr>"

definition demo_codec :: "byte list codec" where
  "demo_codec = \<lparr>cd_ser = (\<lambda>m. m), cd_parse = Some, cd_partial = pk_data\<rparr>"

definition demo_method :: "byte list rpc_method" where
  "demo_method = \<lparr>md_service = [69], md_name = [101], md_req = demo_codec, md_rsp = demo_codec, md_new = [], md_isCoroRequired = False\<rparr>"

lemma demo_ok:
  "env_ok demo_rpc_env" "method_ok demo_method" "length m < 2 ^ 31 \<Longrightarrow> codec_fits (md_req demo_method) m"
  "length m < 2 ^ 31 \<Longrightarrow> codec_fits (md_rsp demo_method) m" "winv (demo_world g)" "w_maxCoroId (demo_world g) = 0"
  "w_conn (demo_world g) = ConnMgr_new\<lparr>cm_svc := Some demo_svc\<rparr>" "ts_now (demo_world g) = 0" "w_globals (demo_world g) = g"
  "link_up 1 (ConnMgr_new\<lparr>cm_svc := Some demo_svc\<rparr>)" "subscribed (ConnMgr_new\<lparr>cm_svc := Some demo_svc\<rparr>)"
proof -
  show "winv (demo_world g)" unfolding demo_world_def by (rule winv_init) simp
qed (simp_all add: env_ok_def demo_rpc_env_def host_order_def method_ok_def demo_method_def fits_str_def codec_fits_def demo_codec_def
    demo_world_def world_init_def tstate.defs ts_init_def link_up_def demo_svc_def subscribed_def RpcReq_def RpcRsp_def)

definition demo_impl :: "(byte list, 'g) impl" where
  "demo_impl ctl req rsp k = Info ''received, msg:%s'' [req] (k ctl ([62] @ req))"

definition demo_services :: "(byte list, 'g) services" where
  "demo_services = AddService [69] [(demo_method, demo_impl)] Map.empty"

text \<open>A call whose continuation records how it ended.\<close>

definition record_end :: "byte list option \<Rightarrow> byte list option \<Rightarrow> (byte list option \<times> byte list option) prog" where
  "record_end reason rsp = Put (reason, rsp) Finish"

lemma good_record_end: "good (record_end reason rsp) aw c"
  by (simp add: record_end_def)

lemma demo_call:
  "\<exists>w c. winv w \<and> awaiting (view w) c 1 demo_rpc_env demo_method record_end 5000 \<and> subscribed (w_conn w) \<and> link_up 1 (w_conn w)"
proof -
  let ?w = "demo_world (None, None)"
  have "w_maxCoroId ?w < 2 ^ 31 - 1" "link_up 1 (w_conn ?w)" by (simp_all add: demo_ok)
  from call_starts [OF demo_ok(5) this(1) demo_ok(1,2) demo_ok(3) [of "[104, 105]"] this(2), of record_end] good_record_end
  show ?thesis by (fastforce simp: demo_ok CoroTimeoutTime_def)
qed

section \<open>Properties\<close>

text \<open>C3: how a call ends. A coroutine that waits inside \<open>CallMethod\<close> goes on in exactly one of three
ways, with the code that follows the call. If the response to its id arrives, it goes on with the
error text of the response, if that is not empty, and with the response's message. If it is
cancelled, with the failure "Coro cancelled" and no message. If \<open>Update\<close> is called when the deadline has
passed, with the failure "Coro timeouted" and no message, in the order of the deadlines among all
coroutines that are due; \<open>Update\<close> before the deadline leaves it waiting. No other coroutine is touched, and
none of this faults.\<close>

theorem rpc_call_outcomes:
  assumes "winv w" "awaiting (view w) c coroId env md k dl" "env_ok env" "is_int coroId" "bh_size (ts_heap w) < fuel"
  shows "(\<forall>q errText rsp. subscribed (w_conn w) \<and> link_up (pk_sessionId q) (w_conn w) \<and> is_response q (pk_sessionId q) md coroId errText rsp
        \<and> codec_fits (md_rsp md) rsp \<and> length (pk_data q) + 8192 \<le> 2 ^ 31 \<longrightarrow>
      (\<exists>w' o2. HandleEvent (Suc n) env svcs (DataArrival q) w = Ok w' \<and> winv w' \<and> co_id o2 = coroId
        \<and> view w' = v_Forget (v_exec c o2 (k (if errText = [] then None else Some errText) (Some rsp)) (view w))))
    \<and> (\<exists>w' o2. mgr_Cancel (Suc n) coroId w = Ok (None, w') \<and> winv w' \<and> co_id o2 = coroId
        \<and> view w' = v_exec c o2 (k (Some (ascii ''Coro cancelled'')) None) (view w))
    \<and> (if dl \<le> ts_now w
       then \<exists>w' ts1 ts2 o2. mgr_Update fuel (Suc n) w = Ok w' \<and> winv w' \<and> co_id o2 = coroId \<and> set (ts1 @ c # ts2) = {t. is_due w t}
         \<and> distinct (ts1 @ c # ts2) \<and> sorted (map (\<lambda>t. the (deadline w t)) (ts1 @ c # ts2))
         \<and> view w' = v_Recycle (fold v_Timeout ts2
             (v_exec c o2 (k (Some (ascii ''Coro timeouted'')) None) (fold v_Timeout ts1 (view w))))
       else \<exists>w'. mgr_Update fuel (Suc n) w = Ok w' \<and> winv w' \<and> awaiting (view w') c coroId env md k dl)"
proof (intro conjI allI impI)
  fix q errText rsp
  assume q: "subscribed (w_conn w) \<and> link_up (pk_sessionId q) (w_conn w) \<and> is_response q (pk_sessionId q) md coroId errText rsp
        \<and> codec_fits (md_rsp md) rsp \<and> length (pk_data q) + 8192 \<le> 2 ^ 31"
  show "\<exists>w' o2. HandleEvent (Suc n) env svcs (DataArrival q) w = Ok w' \<and> winv w' \<and> co_id o2 = coroId
        \<and> view w' = v_Forget (v_exec c o2 (k (if errText = [] then None else Some errText) (Some rsp)) (view w))"
    using response_event [OF assms(1-4), of "pk_sessionId q" q errText rsp n svcs] q by blast
qed (use cancel_ends_call [OF assms(1,2)] update_ends_call [OF assms(1,2) _ assms(5)] update_keeps_call [OF assms(1,2) _ assms(5)] in auto)

lemma v_exec_record [simp]:
  "v_globals (v_exec c o1 (record_end reason rsp) v) = (reason, rsp)" "v_live (v_exec c o1 (record_end reason rsp) v) (co_id o1) = None"
  by (simp_all add: v_exec_def record_end_def settle_def)

theorem rpc_call_outcomes_witness:
  "\<exists>w c q w1 w2. winv w \<and> awaiting (view w) c 1 demo_rpc_env demo_method record_end 5000
     \<and> HandleEvent 1 demo_rpc_env demo_services (DataArrival q) w = Ok w1 \<and> w_globals w1 = (None, Some [104, 105])
     \<and> mgr_Cancel 1 1 w = Ok (None, w2) \<and> w_globals w2 = (Some (ascii ''Coro cancelled''), None)"
proof -
  obtain w c where w: "winv w" "awaiting (view w) c 1 demo_rpc_env demo_method record_end 5000" "subscribed (w_conn w)" "link_up 1 (w_conn w)"
    using demo_call by blast
  have "fits_str (ctl_errorText RpcController_new)" by (simp add: fits_str_def RpcController_new_def)
  then obtain q where q: "is_response q 1 demo_method 1 [] [104, 105]"
    using rsp_packet_is_response [OF demo_ok(1) _ demo_ok(4) [of "[104, 105]"]] by (fastforce simp: RpcController_new_def)
  have len: "length (pk_data q) + 8192 \<le> 2 ^ 31" using q by (simp add: is_response_def rsp_data_def demo_method_def demo_codec_def)
  have sid: "pk_sessionId q = 1" using q by (simp add: is_response_def)
  note ends = rpc_call_outcomes [OF w(1,2) demo_ok(1), where n = 0 and svcs = demo_services and fuel = "Suc (bh_size (ts_heap w))"]
  have id: "is_int 1" by (simp add: is_int_def)
  obtain w1 o1 where w1: "HandleEvent 1 demo_rpc_env demo_services (DataArrival q) w = Ok w1"
    "view w1 = v_Forget (v_exec c o1 (record_end None (Some [104, 105])) (view w))"
    using spec [OF spec [OF spec [OF conjunct1 [OF ends [OF id]], of q], of "[]"], of "[104, 105]"] q len w(3,4) sid
      demo_ok(4) [of "[104, 105]"] by auto
  obtain w2 o2 where w2: "mgr_Cancel 1 1 w = Ok (None, w2)" "view w2 = v_exec c o2 (record_end (Some (ascii ''Coro cancelled'')) None) (view w)"
    using conjunct1 [OF conjunct2 [OF ends [OF id]]] by auto
  have "w_globals w1 = (None, Some [104, 105])" "w_globals w2 = (Some (ascii ''Coro cancelled''), None)"
    using arg_cong [OF w1(2), of v_globals] arg_cong [OF w2(2), of v_globals] by (simp_all add: v_Forget_def)
  then show ?thesis using w w1(1) w2(1) by blast
qed


lemma demo_answers:
  "registered demo_services demo_method demo_impl" "answers demo_method demo_impl m RpcController_new ([62] @ m) [(''received, msg:%s'', [m])]"
  by (simp_all add: registered_def demo_services_def AddService_def demo_method_def answers_def demo_impl_def logs_def)


text \<open>C36: responses are matched by the coroutine id alone. A coroutine whose first call has timed out and
which then makes a second call takes a late response to the first call as the answer to the second:
\<open>Update\<close> ends the first wait and sends the second request; the response to the first call, when it arrives
after that, makes the second call return without a failure, with the message of the first answer.\<close>

theorem rpc_late_response_misdelivered:
  assumes "winv w" "awaiting (view w) c coroId env md (\<lambda>_ _. CallMethod env sid md req2 k2) dl" "dl \<le> ts_now w" "{t. is_due w t} = {c}"
    "bh_size (ts_heap w) < fuel" "env_ok env" "method_ok md" "codec_fits (md_req md) req2" "is_int coroId" "link_up sid (w_conn w)"
    "subscribed (w_conn w)" "is_response late sid md coroId [] rsp1" "codec_fits (md_rsp md) rsp1" "length (pk_data late) + 8192 \<le> 2 ^ 31"
  shows "\<exists>w1 p2. mgr_Update fuel (Suc n) w = Ok w1 \<and> is_request p2 sid md coroId req2 \<and> sent_packets (w_conn w1) = sent_packets (w_conn w) @ [p2]
     \<and> awaiting (view w1) c coroId env md k2 (ts_now w + CoroTimeoutTime)
     \<and> (\<exists>w2 o2. HandleEvent (Suc n) env svcs (DataArrival late) w1 = Ok w2 \<and> winv w2 \<and> co_id o2 = coroId
          \<and> view w2 = v_Forget (v_exec c o2 (k2 None (Some rsp1)) (view w1)))"
proof -
  let ?k = "\<lambda>_ _. CallMethod env sid md req2 k2"
  obtain w1 ts1 ts2 o2 where u: "mgr_Update fuel (Suc n) w = Ok w1" "winv w1" "co_id o2 = coroId" "set (ts1 @ c # ts2) = {t. is_due w t}"
    "distinct (ts1 @ c # ts2)"
    "view w1 = v_Recycle (fold v_Timeout ts2 (v_exec c o2 (CallMethod env sid md req2 k2) (fold v_Timeout ts1 (view w))))"
    using update_ends_call [OF assms(1,2,3,5), of n] by (elim exE conjE)
  have "set ts1 \<subseteq> {c}" "set ts2 \<subseteq> {c}" "c \<notin> set ts1" "c \<notin> set ts2" using u(4,5) unfolding assms(4) by auto
  then have "ts1 = []" "ts2 = []" by (cases ts1; cases ts2; simp)+
  then have v1: "view w1 = v_Recycle (v_exec c o2 (CallMethod env sid md req2 k2) (view w))" using u(6) by simp
  let ?v = "(view w)\<lparr>v_coro := (v_coro (view w))(c \<mapsto> o2), v_dl := (v_dl (view w))(c := None)\<rparr>"
  have "link_up sid (v_conn ?v)" "co_id (coro.truncate o2) = coroId" using assms(10) u(3) by (simp_all add: coro.truncate_def)
  then obtain p where p: "is_request p sid md coroId req2"
    "exec (CallMethod env sid md req2 k2) c (coro.truncate o2) ?v = (Some (0, await_rsp env md c k2), ?v\<lparr>v_conn := posted p (v_conn ?v)\<rparr>)"
    using exec_CallMethod [OF assms(6,7) codec_fits_sized [OF assms(8)], of sid ?v "coro.truncate o2" k2 c] by auto
  have dead: "c \<notin> ran (map_of (w_recycle w))"
  proof
    assume "c \<in> ran (map_of (w_recycle w))"
    then obtain i where i: "map_of (w_recycle w) i = Some c" by (auto simp: ran_def)
    have tab: "tables_ok w" using assms(1) by (simp add: winv_def cinv_def)
    have live: "map_of (w_coros w) coroId = Some c" using assms(2) by (simp add: awaiting_def)
    then have "i = coroId" using tables_okD(4) [OF tab live] tables_okD(5) [OF tab i] by auto
    then show False using tables_okD(3) [OF tab live] i by simp
  qed
  have v1': "view w1 = v_Recycle (settle c o2 (Some (0, await_rsp env md c k2), ?v\<lparr>v_conn := posted p (v_conn ?v)\<rparr>))"
    unfolding v1 v_exec_def p(2) ..
  have aw: "awaiting (view w1) c coroId env md k2 (ts_now w + CoroTimeoutTime)"
    unfolding v1' awaiting_def using assms(2) dead u(3) by (simp add: v_Recycle_def settle_def yielded_coro_def yield_millis_def awaiting_def)
  have conn: "w_conn w1 = posted p (w_conn w)" using arg_cong [OF v1', of v_conn] by (simp add: v_Recycle_def settle_def)
  have "subscribed (w_conn w1)" "link_up sid (w_conn w1)" using assms(10,11) conn by simp_all
  from response_event [OF u(2) aw assms(6,9) this assms(12-14), of n svcs]
  have "\<exists>w2 o2. HandleEvent (Suc n) env svcs (DataArrival late) w1 = Ok w2 \<and> winv w2 \<and> co_id o2 = coroId
      \<and> view w2 = v_Forget (v_exec c o2 (k2 None (Some rsp1)) (view w1))" by simp
  moreover have "is_request (p\<lparr>pk_senderSvcId := service_id (w_conn w)\<rparr>) sid md coroId req2" using p(1) by (simp add: is_request_def)
  ultimately show ?thesis using u(1) aw conn assms(10)
    by (intro exI [of _ w1] exI [of _ "p\<lparr>pk_senderSvcId := service_id (w_conn w)\<rparr>"]) simp
qed

text \<open>A coroutine of the demonstration process whose first call has timed out.\<close>

definition demo_retry :: "byte list option \<Rightarrow> byte list option \<Rightarrow> (byte list option \<times> byte list option) prog" where
  "demo_retry reason rsp = CallMethod demo_rpc_env 1 demo_method [105] record_end"

lemma demo_overdue:
  "\<exists>w c. winv w \<and> awaiting (view w) c 1 demo_rpc_env demo_method demo_retry 5000 \<and> ts_now w = 6000 \<and> {t. is_due w t} = {c}
     \<and> subscribed (w_conn w) \<and> link_up 1 (w_conn w)"
proof -
  let ?w = "demo_world (None, None) :: (byte list option \<times> byte list option) world"
  have m: "w_maxCoroId ?w < 2 ^ 31 - 1" "link_up 1 (w_conn ?w)" "codec_fits (md_req demo_method) [104]" "codec_fits (md_req demo_method) [105]"
    by (simp_all add: demo_ok)
  have k: "good (demo_retry reason rsp) True c" for c reason rsp
    unfolding demo_retry_def by (rule good_CallMethod [OF demo_ok(1,2) codec_fits_sized [OF m(4)]]) (rule good_record_end)
  obtain c w2 p where w2: "winv w2" "w_conn w2 = posted p (w_conn ?w)" "ts_now w2 = ts_now ?w"
    "awaiting (view w2) c (w_maxCoroId ?w + 1) demo_rpc_env demo_method demo_retry (ts_now ?w + CoroTimeoutTime)"
    "\<forall>s. s \<noteq> c \<longrightarrow> w_coro w2 s = w_coro ?w s \<and> deadline w2 s = deadline ?w s"
    using call_starts [where k = demo_retry and n = 0 and args = 0, OF demo_ok(5) m(1) demo_ok(1,2) m(3,2) k] by (elim exE conjE)
  let ?w2 = "w2\<lparr>ts_now := 6000\<rparr>"
  have t: "ts_now w2 \<le> 6000" using w2(3) by (simp add: demo_ok)
  have aw: "awaiting (view ?w2) c 1 demo_rpc_env demo_method demo_retry 5000"
    using w2(4) unfolding winv_clock(2) [OF w2(1) t] by (simp add: awaiting_def demo_ok CoroTimeoutTime_def)
  have dl: "deadline ?w2 = deadline w2" by (rule ts_cong(1)) simp_all
  have no: "deadline ?w s = None" for s by (simp add: deadline_def demo_world_def world_init_def tstate.defs ts_init_def)
  have due: "{t. is_due ?w2 t} = {c}"
  proof -
    have "is_due ?w2 s \<longleftrightarrow> s = c" for s
      using w2(5) aw no by (cases "s = c") (auto simp: is_due_def dl awaiting_def)
    then show ?thesis by simp
  qed
  show ?thesis using winv_clock(1) [OF w2(1) t] aw due w2(2) by (intro exI [of _ ?w2] exI [of _ c]) (simp add: demo_ok)
qed

theorem rpc_late_response_misdelivered_witness:
  "\<exists>w c late w1 w2. awaiting (view w) c 1 demo_rpc_env demo_method demo_retry 5000 \<and> mgr_Update (Suc (bh_size (ts_heap w))) 1 w = Ok w1
     \<and> awaiting (view w1) c 1 demo_rpc_env demo_method record_end 11000
     \<and> HandleEvent 1 demo_rpc_env demo_services (DataArrival late) w1 = Ok w2 \<and> w_globals w2 = (None, Some [62, 104])"
proof -
  obtain w c where w: "winv w" "awaiting (view w) c 1 demo_rpc_env demo_method demo_retry 5000" "ts_now w = 6000" "{t. is_due w t} = {c}"
    "subscribed (w_conn w)" "link_up 1 (w_conn w)"
    using demo_overdue by blast
  have m: "codec_fits (md_req demo_method) [105]" "codec_fits (md_rsp demo_method) [62, 104]" "is_int 1" by (simp_all add: demo_ok is_int_def)
  have "fits_str (ctl_errorText RpcController_new)" by (simp add: fits_str_def RpcController_new_def)
  then obtain q where q: "is_response q 1 demo_method 1 [] [62, 104]"
    using rsp_packet_is_response [OF demo_ok(1) _ m(2)] by (fastforce simp: RpcController_new_def)
  have len: "length (pk_data q) + 8192 \<le> 2 ^ 31" using q by (simp add: is_response_def rsp_data_def demo_method_def demo_codec_def)
  have k: "demo_retry = (\<lambda>_ _. CallMethod demo_rpc_env 1 demo_method [105] record_end)" by (simp add: demo_retry_def fun_eq_iff)
  have due: "(5000 :: int) \<le> ts_now w" "bh_size (ts_heap w) < Suc (bh_size (ts_heap w))" using w(3) by simp_all
  obtain w1 w2 o2 where u: "mgr_Update (Suc (bh_size (ts_heap w))) (Suc 0) w = Ok w1"
    "awaiting (view w1) c 1 demo_rpc_env demo_method record_end (ts_now w + CoroTimeoutTime)"
    "HandleEvent (Suc 0) demo_rpc_env demo_services (DataArrival q) w1 = Ok w2"
    "view w2 = v_Forget (v_exec c o2 (record_end None (Some [62, 104])) (view w1))"
    using rpc_late_response_misdelivered [OF w(1) w(2) [unfolded k] due(1) w(4) due(2) demo_ok(1,2) m(1,3) w(6,5) q m(2) len, of 0 demo_services]
    by (elim exE conjE)
  have "w_globals w2 = (None, Some [62, 104])" using arg_cong [OF u(4), of v_globals] by (simp add: v_Forget_def)
  then show ?thesis using w(2,3) u(1-3) by (intro exI [of _ w] exI [of _ c] exI [of _ q] exI [of _ w1] exI [of _ w2]) (simp add: CoroTimeoutTime_def)
qed

text \<open>C37: an unknown service or method crashes the server. A request whose service is not registered,
or whose method is not one of the service's, makes \<open>HandleRpcReq\<close> follow a null pointer: \<open>_services[name]\<close>
and \<open>mds[name]\<close> create an empty entry for a name that is not there.\<close>

theorem rpc_unknown_method_crashes:
  assumes "env_ok env" "subscribed (w_conn w)" "link_up sid (w_conn w)" "is_request p sid md coroId req" "method_ok md"
    "svcs (md_service md) = None \<or> (\<exists>mds. svcs (md_service md) = Some mds \<and> mds (md_name md) = None)"
  shows "HandleEvent n env svcs (DataArrival p) w = Fault NullDeref"
proof -
  let ?p = "p\<lparr>pk_recverSvcId := service_id (w_conn w)\<rparr>" and ?me = "env_me env"
  have p: "pk_ok ?p" "pk_data ?p = req_data md coroId req" using assms(4) by (simp_all add: is_request_def)
  have n: "host_order ?me \<and> length (md_service md) + 2048 \<le> 2 ^ 32" "host_order ?me \<and> length (md_name md) + 2048 \<le> 2 ^ 32"
    using assms(1,5) by (simp_all add: env_ok_def method_ok_def fits_str_def)
  obtain p1 where p1: "pk_Read_string ?me ?p = Ok (Some (md_service md), p1)" "pk_ok p1"
    "pk_data p1 = enc_string (md_name md) @ enc_u32 (word_of_int coroId) @ enc_string (cd_ser (md_req md) req)"
    using str.rd_enc [OF p(1) n(1)] p(2) unfolding req_data_def by auto
  obtain p2 where p2: "pk_Read_string ?me p1 = Ok (Some (md_name md), p2)" "pk_ok p2"
    "pk_data p2 = enc_u32 (word_of_int coroId) @ enc_string (cd_ser (md_req md) req)"
    using str.rd_enc [OF p1(2) n(2) p1(3)] by auto
  obtain p3 where p3: "pk_ReadRawType ?me p2 = Ok (Some (word_of_int coroId :: 32 word), p3)"
    using read_coro_id [OF assms(1) p2(2,3)] by auto
  have "HandleRpcReq n env svcs ?p w = Fault NullDeref"
    using p1(1) p2(1) p3 assms(6) by (auto simp: HandleRpcReq_def Let_def)
  then show ?thesis using event_dispatch(1) [of w p n env svcs] assms(2-4) by (simp add: is_request_def)
qed

theorem rpc_unknown_method_crashes_witness:
  "\<exists>p. is_request p 1 demo_method 1 [104] \<and> HandleEvent 1 demo_rpc_env (Map.empty :: (byte list, unit) services) (DataArrival p) (demo_world ()) = Fault NullDeref"
proof -
  obtain p where p: "is_request p 1 demo_method 1 [104]"
    using req_packet_is_request [OF demo_ok(1,2) demo_ok(3) [of "[104]"]] by fastforce
  have l: "subscribed (w_conn (demo_world ()))" "link_up 1 (w_conn (demo_world ()))" by (simp_all add: demo_ok)
  show ?thesis
    using rpc_unknown_method_crashes [OF demo_ok(1) l p demo_ok(2), of "Map.empty :: (byte list, unit) services" 1] p by auto
qed

text \<open>C38: a call must be made from a coroutine. On the main routine \<open>GetCurCoro\<close> returns null, since \<open>Start\<close>,
which would create the \<open>Coro\<close> of the main routine, is not called; so \<open>CallMethod\<close> crashes there, before its
own check for the main coroutine can reject the call.\<close>

theorem rpc_call_needs_coroutine:
  assumes "winv w"
  shows "run_main n (CallMethod env sid md req k) w = Fault NullDeref"
proof -
  have cinv: "cinv None w" using assms by (simp add: winv_def)
  have none: "map_of (w_coros w) 0 = None"
  proof (rule ccontr)
    assume "map_of (w_coros w) 0 \<noteq> None"
    then obtain c o1 where o1: "w_coro w c = Some o1" "co_id o1 = 0" using cinv tables_okD(4) [of w 0] by (auto simp: cinv_def)
    then show False using cinv_coro [OF cinv o1(1)] by (simp add: coro_ok_def)
  qed
  have "stack_ok None w" using cinv by (simp add: cinv_def)
  then consider "w_stack w = []" | m im where "w_stack w = [m]" "w_inner w m = Some im" "in_spec0 im = 0" by (auto simp: stack_ok_def)
  then have "GetCurCoro w = Fault NullDeref \<or> GetCurCoro w = Ok None"
    by cases (simp_all add: GetCurCoro_def co_self_def GetCoro_def none)
  then show ?thesis by (auto simp: run_main_def CallMethod_def)
qed

theorem rpc_call_needs_coroutine_witness:
  "run_main 1 (CallMethod demo_rpc_env 1 demo_method [104] record_end) (demo_world (None, None)) = Fault NullDeref"
  by (rule rpc_call_needs_coroutine [OF demo_ok(5)])

end
