(* ===== verification/Rpc_Process.thy ===== *)
theory Rpc_Process
  imports Rpc_Properties
begin

text \<open>
  An RPC process as a step relation: the main loop of the client and of the server (rpc/src/client,
  rpc/src/server) lets time pass, calls \<open>Update\<close>, handles the events of the service, starts and cancels
  coroutines, in any order. No step of it faults, as long as the packets are well formed, the
  methods that they call behave, and the coroutine ids have not wrapped around.
\<close>

text \<open>A method behaves if its code, the sending of the response included, runs without a fault for requests
up to 8 KB below 2 GB: on a coroutine of its own, or on the main routine without waiting.\<close>

definition behaves :: "rpc_env \<Rightarrow> 'm rpc_method \<Rightarrow> ('m, 'g) impl \<Rightarrow> bool" where
  "behaves env md f \<longleftrightarrow> method_ok md \<and> (\<forall>req sid coroId. codec_fits (md_req md) req \<and> length (cd_ser (md_req md) req) + 8192 \<le> 2 ^ 31 \<longrightarrow>
     (if md_isCoroRequired md then \<forall>c. good (serve env md f req sid coroId) False c else plain (serve env md f req sid coroId)))"

definition fine_request :: "rpc_env \<Rightarrow> ('m, 'g) services \<Rightarrow> packet \<Rightarrow> bool" where
  "fine_request env svcs p \<longleftrightarrow> (\<exists>md f coroId req. registered svcs md f \<and> behaves env md f \<and> pk_ok p \<and> pk_data p = req_data md coroId req
     \<and> is_int coroId \<and> codec_fits (md_req md) req \<and> length (pk_data p) + 8192 \<le> 2 ^ 31)"

definition fine_response :: "packet \<Rightarrow> bool" where
  "fine_response p \<longleftrightarrow> pk_ok p \<and> (\<exists>coroId errText body. pk_data p = enc_u32 (word_of_int coroId) @ enc_string errText @ enc_string body)
     \<and> length (pk_data p) + 8192 \<le> 2 ^ 31"

text \<open>A packet that is handed to a handler is what the handler expects.\<close>

definition fine_event :: "rpc_env \<Rightarrow> ('m, 'g) services \<Rightarrow> rpc_handler conn_mgr \<Rightarrow> svc_event \<Rightarrow> bool" where
  "fine_event env svcs c ev \<longleftrightarrow> (\<forall>p s h. ev = DataArrival p \<and> cm_svc c = Some s \<and> sv_handlers s (pk_opcode p) = Some h \<longrightarrow>
     (case h of OnRpcReq \<Rightarrow> fine_request env svcs p | OnRpcRsp \<Rightarrow> fine_response p))"

section \<open>What a step changes\<close>

text \<open>The parts of the service that only \<open>Subscribe\<close>, \<open>Start\<close> and the network change.\<close>

definition wiring :: "rpc_handler conn_mgr \<Rightarrow> ((32 word \<rightharpoonup> rpc_handler) \<times> svc_event list \<times> bool) option" where
  "wiring c = map_option (\<lambda>s. (sv_handlers s, sv_events s, sv_started s)) (cm_svc c)"

lemma wiring_ops:
  "cm_PushPacket p c = Ok (r, c1) \<Longrightarrow> wiring c1 = wiring c" "cm_GetRpcChannel ip port c = Ok (ch, c1) \<Longrightarrow> wiring c1 = wiring c"
  "OnSessionDestroy sid c = Ok c1 \<Longrightarrow> wiring c1 = wiring c"
  "cm_svc c = Some s \<Longrightarrow> wiring (c\<lparr>cm_svc := Some (AddReadySession sid l s)\<rparr>) = wiring c"
  "cm_svc c = Some s \<Longrightarrow> wiring (c\<lparr>cm_svc := Some (RemoveReadySession sid s)\<rparr>) = wiring c"
  by (auto simp: wiring_def cm_PushPacket_def sv_Send_def LockableSend_def cm_GetRpcChannel_def sv_Connect_def poller_result_def AddReadySession_def
      RemoveReadySession_def OnSessionDestroy_def cm_CloseSession_def sv_RemoveSession_def Let_def
      split: option.splits if_splits bool.splits list.splits prod.splits)

text \<open>A coroutine that is woken creates no other one.\<close>

definition calm :: "'g view \<Rightarrow> 'g view \<Rightarrow> bool" where
  "calm v v' \<longleftrightarrow> wiring (v_conn v') = wiring (v_conn v) \<and> dom (v_live v') \<subseteq> dom (v_live v) \<and> v_maxCoroId v' = v_maxCoroId v"

lemma calm_trans: "calm v v1 \<Longrightarrow> calm v1 v2 \<Longrightarrow> calm v v2"
  unfolding calm_def by (metis subset_trans)

lemma exec_wiring: "wiring (v_conn (snd (exec prog c o1 v))) = wiring (v_conn v)"
  by (induction prog arbitrary: v) (auto split: outcome.splits dest: wiring_ops)

lemma calm_exec: "calm v (snd (exec prog c o1 v))"
  by (simp add: calm_def exec_wiring exec_frame)

lemma calm_v_exec: "calm v (v_exec c o1 prog v)"
proof -
  let ?v = "v\<lparr>v_coro := (v_coro v)(c \<mapsto> o1), v_dl := (v_dl v)(c := None)\<rparr>"
  obtain r v1 where e: "exec prog c (coro.truncate o1) ?v = (r, v1)" by fastforce
  then have "calm v v1" using calm_exec [of ?v prog c "coro.truncate o1"] by (simp add: calm_def)
  then show ?thesis using e by (auto simp: v_exec_def settle_def calm_def split: option.splits)
qed

lemma calm_ops: "calm v (v_Resume d c v)" "calm v (v_Timeout c v)" "calm v (v_Recycle v)" "calm v (v_Forget v)"
  by (simp_all add: v_Resume_def v_Timeout_def v_run_def calm_v_exec) (simp_all add: calm_def v_Recycle_def v_Forget_def)

lemma calm_timeouts: "calm v (fold v_Timeout ts v)"
proof (induction ts arbitrary: v)
  case (Cons t ts)
  then show ?case using calm_trans [OF calm_ops(2) Cons.IH] by simp
qed (simp add: calm_def)

text \<open>A step that adds at most \<open>k\<close> coroutines to the table.\<close>

definition evolves :: "nat \<Rightarrow> 'g world \<Rightarrow> 'g world \<Rightarrow> bool" where
  "evolves k w w' \<longleftrightarrow> winv w' \<and> wiring (w_conn w') = wiring (w_conn w) \<and> length (w_coros w') \<le> length (w_coros w) + k
     \<and> w_maxCoroId w' \<le> w_maxCoroId w + int k"

lemma evolves_refl: "winv w \<Longrightarrow> evolves k w w"
  by (simp add: evolves_def)

lemma evolves_trans: "evolves j w w1 \<Longrightarrow> evolves k w1 w2 \<Longrightarrow> evolves (j + k) w w2"
  by (auto simp: evolves_def)

lemma table_size: "winv w \<Longrightarrow> length (w_coros w) = card (dom (map_of (w_coros w)))"
  using distinct_card [of "map fst (w_coros w)"] by (simp add: winv_def cinv_def tables_ok_def dom_map_of_conv_image_fst)

lemma calm_evolves:
  assumes "winv w" "winv w'" "calm (view w) (view w')"
  shows "evolves 0 w w'"
  using assms card_mono [of "dom (map_of (w_coros w))" "dom (map_of (w_coros w'))"]
  by (simp add: evolves_def calm_def table_size finite_dom_map_of)

lemma spawn_evolves:
  assumes "winv w" "winv w1" "winv w2" "view w1 = v_Create c p entry args (view w)" "calm (view w1) (view w2)"
  shows "evolves 1 w w2"
proof -
  have live: "map_of (w_coros w1) = (map_of (w_coros w))(w_maxCoroId w + 1 \<mapsto> c)" and f: "w_conn w1 = w_conn w" "w_maxCoroId w1 = w_maxCoroId w + 1"
    using arg_cong [OF assms(4), of v_live] arg_cong [OF assms(4), of v_conn] arg_cong [OF assms(4), of v_maxCoroId] by (simp_all add: v_Create_def Let_def)
  have "length (w_coros w1) \<le> length (w_coros w) + 1"
    using card_insert_le_m1 [of "Suc (card (dom (map_of (w_coros w))))"]
    by (simp add: table_size [OF assms(1)] table_size [OF assms(2)] live card_insert_if finite_dom_map_of)
  then have "evolves 1 w w1" using f assms(2) by (simp add: evolves_def)
  from evolves_trans [OF this calm_evolves [OF assms(2,3,5)]] show ?thesis by simp
qed

lemma spawn_evolves_ok:
  assumes "winv w" "w_maxCoroId w < 2 ^ 31 - 1" "\<And>c. good (entry args) False c"
  shows "\<exists>c w1 w2. CreateCoro entry args w = Ok (c, w1) \<and> Coro_Resume (Suc n) VNil c w1 = Ok (None, w2) \<and> evolves 1 w w2"
proof -
  obtain c p w1 w2 where w: "CreateCoro entry args w = Ok (c, w1)" "Coro_Resume (Suc n) VNil c w1 = Ok (None, w2)" "winv w1" "winv w2"
    "view w1 = v_Create c p entry args (view w)" "view w2 = v_exec c (awake_coro VNil (created (w_maxCoroId w + 1) p entry args)) (entry args) (view w1)"
    using spawn_ok [OF assms(1,2), of entry args n] assms(3) by blast
  have "calm (view w1) (view w2)" unfolding w(6) by (rule calm_v_exec)
  from spawn_evolves [OF assms(1) w(3,4,5) this] show ?thesis using w(1,2) by blast
qed

section \<open>Steps\<close>

text \<open>One round of the main loop is a sequence of these steps. \<open>entries\<close> are the coroutines that the process may
start, with their argument.\<close>

inductive proc_step :: "rpc_env \<Rightarrow> ('m, 'g) services \<Rightarrow> ((nat \<Rightarrow> 'g prog) \<times> nat) set \<Rightarrow> 'g world \<Rightarrow> 'g world \<Rightarrow> bool"
  for env :: rpc_env and svcs :: "('m, 'g) services" and entries :: "((nat \<Rightarrow> 'g prog) \<times> nat) set" where
  time: "ts_now w \<le> t \<Longrightarrow> proc_step env svcs entries w (w\<lparr>ts_now := t\<rparr>)"
| update: "mgr_Update (Suc (bh_size (ts_heap w))) 1 w = Ok w' \<Longrightarrow> proc_step env svcs entries w w'"
| event: "w_maxCoroId w < 2 ^ 31 - 1 \<Longrightarrow> fine_event env svcs (w_conn w) ev \<Longrightarrow> HandleEvent 1 env svcs ev w = Ok w' \<Longrightarrow> proc_step env svcs entries w w'"
| spawn: "w_maxCoroId w < 2 ^ 31 - 1 \<Longrightarrow> (entry, args) \<in> entries \<Longrightarrow> CreateCoro entry args w = Ok (c, w1) \<Longrightarrow>
    Coro_Resume 1 VNil c w1 = Ok (ret, w') \<Longrightarrow> proc_step env svcs entries w w'"
| cancel: "mgr_Cancel 1 coroId w = Ok (ret, w') \<Longrightarrow> proc_step env svcs entries w w'"

lemma cm_svc_kept:
  assumes "cm_svc c \<noteq> None"
  shows "\<exists>c'. OnSessionDestroy sid c = Ok c' \<and> cm_svc c' \<noteq> None"
  using assms by (auto simp: OnSessionDestroy_def cm_CloseSession_def Let_def split: option.splits prod.splits)

lemma winv_conn:
  assumes "winv w" "cm_svc c \<noteq> None"
  shows "winv (w\<lparr>w_conn := c\<rparr>)"
proof (rule same_coros_winv [OF _ assms(1)])
  show "same_coros w (w\<lparr>w_conn := c\<rparr>)"
    unfolding same_coros_def using assms(2) by (intro exI [of _ "w_globals w"] exI [of _ "w_info w"] exI [of _ c]) simp
qed

lemma request_step:
  assumes w: "winv w" "w_maxCoroId w < 2 ^ 31 - 1" and env: "env_ok env" and p: "fine_request env svcs p"
  shows "\<exists>w'. HandleRpcReq (Suc n) env svcs p w = Ok w' \<and> evolves 1 w w'"
proof -
  obtain md f coroId req where md: "registered svcs md f" "behaves env md f" "pk_ok p" "pk_data p = req_data md coroId req" "is_int coroId"
    "codec_fits (md_req md) req" "length (pk_data p) + 8192 \<le> 2 ^ 31"
    using p unfolding fine_request_def by (elim exE conjE)
  let ?func = "serve env md f req (pk_sessionId p) coroId"
  have "length (cd_ser (md_req md) req) + 8192 \<le> 2 ^ 31" using md(4,7) by (simp add: req_data_def)
  then have ok: "method_ok md" "if md_isCoroRequired md then \<forall>c. good ?func False c else plain ?func"
    using md(2,6) unfolding behaves_def by blast+
  note d = HandleRpcReq_dispatch [OF env md(3,4) ok(1) md(6,5,1), of "Suc n" w]
  show ?thesis
  proof (cases "md_isCoroRequired md")
    case True
    then have "\<exists>c w1 w2. CreateCoro (\<lambda>_. ?func) 0 w = Ok (c, w1) \<and> Coro_Resume (Suc n) VNil c w1 = Ok (None, w2) \<and> evolves 1 w w2"
      using spawn_evolves_ok [OF w, of "\<lambda>_. ?func" 0 n] ok(2) by simp
    then show ?thesis using True d by (auto simp: Let_def simp del: Coro_Resume.simps)
  next
    case False
    then obtain w1 where "run_main (Suc n) ?func w = Ok w1" "winv w1" "view w1 = snd (exec ?func c o1 (view w))"
      using run_main_plain [OF _ w(1), of ?func "Suc n"] ok(2) by fastforce
    moreover have "evolves (0 + 1) w w1"
      using calculation by (intro evolves_trans [OF calm_evolves [OF w(1)] evolves_refl]) (simp_all add: calm_exec)
    ultimately show ?thesis using False d by (simp add: Let_def)
  qed
qed

lemma response_step:
  assumes w: "winv w" and env: "env_ok env" and p: "fine_response p"
  shows "\<exists>w'. HandleRpcRsp (Suc n) env p w = Ok w' \<and> evolves 0 w w'"
proof -
  obtain coroId errText body where d: "pk_ok p" "pk_data p = enc_u32 (word_of_int coroId) @ enc_string errText @ enc_string body"
    "length (pk_data p) + 8192 \<le> 2 ^ 31"
    using p unfolding fine_response_def by (elim exE conjE)
  obtain q where q: "pk_ReadRawType (env_me env) p = Ok (Some (word_of_int coroId :: 32 word), q)" "pk_ok q"
    "pk_data q = enc_string errText @ enc_string body"
    using read_coro_id [OF env d(1,2)] by blast
  have shape: "rsp_shaped q" using q(2,3) d(2,3) by (auto simp: rsp_shaped_def)
  let ?id = "sint (word_of_int coroId :: 32 word)"
  show ?thesis
  proof (cases "map_of (w_coros w) ?id")
    case None
    then show ?thesis using evolves_refl [OF w] q(1) by (simp add: HandleRpcRsp_def GetCoro_def)
  next
    case (Some c)
    have inv: "cinv None w" "tables_ok w" using w by (simp_all add: winv_def cinv_def)
    obtain o1 where o1: "w_coro w c = Some o1" "co_id o1 = ?id" using tables_okD(4) [OF inv(2) Some] by blast
    obtain r i where r: "co_inner o1 = Some r" "w_inner w r = Some i" using suspended_coro [OF inv(1) o1(1)] o1(2) Some by metis
    let ?o = "o1\<lparr>co_ptrParam1 := PPacket q\<rparr>" and ?w = "set_coro c (o1\<lparr>co_ptrParam1 := PPacket q\<rparr>) w"
    have w1: "winv ?w" by (rule set_ptr_ok(1) [OF w o1(1)])
    then have i1: "cinv None ?w" "ts_inv None ?w" "0 \<le> w_maxCoroId ?w" "ts_enabled ?w" by (simp_all add: winv_def)
    have "w_coro ?w c = Some ?o" "map_of (w_coros ?w) (co_id ?o) = Some c" "co_inner ?o = Some r" "w_inner ?w r = Some i"
      "in_cStart i \<longrightarrow> (\<exists>q. co_ptrParam1 ?o = PPacket q \<and> rsp_shaped q)"
      using o1 r Some shape by simp_all
    from Coro_Resume_ok [OF i1(1,2) this, of n VNil] obtain w' where "Coro_Resume (Suc n) VNil c ?w = Ok (None, w')" "cinv None w'" "ts_inv None w'"
      "ts_enabled w' = ts_enabled ?w" "w_maxCoroId w' = w_maxCoroId ?w" "view w' = v_Resume VNil c (view ?w)"
      by blast
    moreover have "winv w'" using calculation i1(3,4) by (simp add: winv_def)
    moreover have "calm (view ?w) (view w')" unfolding calculation(6) by (rule calm_ops)
    then have "calm (view w) (view w')" by (simp add: calm_def)
    ultimately have "HandleRpcRsp (Suc n) env p w = Ok w'" "evolves 0 w w'"
      using q(1) Some o1(1) calm_evolves [OF w] by (simp_all add: HandleRpcRsp_def GetCoro_def)
    then show ?thesis by blast
  qed
qed

lemma fine_recver [simp]:
  "fine_request env svcs (p\<lparr>pk_recverSvcId := i\<rparr>) \<longleftrightarrow> fine_request env svcs p" "fine_response (p\<lparr>pk_recverSvcId := i\<rparr>) \<longleftrightarrow> fine_response p"
  by (simp_all add: fine_request_def fine_response_def)

lemma recycle_evolves: "evolves k w w' \<Longrightarrow> evolves k w (recycle_packet w')"
  using recycle_packet_ok(1) by (auto simp: evolves_def recycle_packet_def)

text \<open>An event that \<open>HandleRpcReq\<close> handles.\<close>

definition is_call :: "rpc_handler conn_mgr \<Rightarrow> svc_event \<Rightarrow> bool" where
  "is_call c ev \<longleftrightarrow> (\<exists>p s. ev = DataArrival p \<and> cm_svc c = Some s \<and> sv_handlers s (pk_opcode p) = Some OnRpcReq)"

lemma event_step:
  assumes w: "winv w" "w_maxCoroId w < 2 ^ 31 - 1" and env: "env_ok env" and ev: "fine_event env svcs (w_conn w) ev"
  shows "\<exists>w'. HandleEvent (Suc n) env svcs ev w = Ok w' \<and> evolves (if is_call (w_conn w) ev then 1 else 0) w w'"
proof -
  obtain s where s: "cm_svc (w_conn w) = Some s" using w(1) by (auto simp: winv_def cinv_def)
  show ?thesis
  proof (cases ev)
    case (SessionCreate sid isListen)
    then show ?thesis using s winv_conn [OF w(1)] wiring_ops(4) [OF s] by (simp add: HandleEvent_def evolves_def)
  next
    case (SessionDestroy sid)
    obtain c where "OnSessionDestroy sid ((w_conn w)\<lparr>cm_svc := Some (RemoveReadySession sid s)\<rparr>) = Ok c" "cm_svc c \<noteq> None"
      using cm_svc_kept [of "(w_conn w)\<lparr>cm_svc := Some (RemoveReadySession sid s)\<rparr>" sid] by auto
    then show ?thesis
      using s SessionDestroy winv_conn [OF w(1)] wiring_ops(3,5) s by (simp add: HandleEvent_def evolves_def)
  next
    case (DataArrival p)
    have "\<exists>w'. HandlePacket (Suc n) env svcs h (p\<lparr>pk_recverSvcId := sv_id s\<rparr>) w = Ok w' \<and> evolves (if h = OnRpcReq then 1 else 0) w w'"
      if "sv_handlers s (pk_opcode p) = Some h" for h
      using ev s that DataArrival request_step [OF w env, of svcs "p\<lparr>pk_recverSvcId := sv_id s\<rparr>" n]
        response_step [OF w(1) env, of "p\<lparr>pk_recverSvcId := sv_id s\<rparr>" n]
      by (cases h) (auto simp: HandlePacket_def fine_event_def intro: recycle_evolves)
    then show ?thesis
      using DataArrival s evolves_refl [OF w(1)]
      by (auto simp: HandleEvent_def HandleEv_DataArrival_def is_call_def Let_def split: option.splits)
  qed
qed

lemma cancel_step:
  assumes w: "winv w"
  shows "\<exists>ret w'. mgr_Cancel (Suc n) coroId w = Ok (ret, w') \<and> winv w'"
proof (cases "map_of (w_coros w) coroId")
  case None
  then show ?thesis using w by (simp add: mgr_Cancel_def GetCoro_def)
next
  case (Some c)
  have inv: "cinv None w" "ts_inv None w" "tables_ok w" using w by (simp_all add: winv_def cinv_def)
  obtain o1 where o1: "w_coro w c = Some o1" "co_id o1 = coroId" using tables_okD(4) [OF inv(3) Some] by blast
  have y: "co_yielded o1" using suspended_coro [OF inv(1) o1(1)] o1(2) Some by (metis suspended_def)
  show ?thesis
  proof (cases "deadline w c")
    case None
    then show ?thesis using Coro_Cancel_fresh [OF inv(1,2) o1(1) y None] Some w by (simp add: mgr_Cancel_def GetCoro_def)
  next
    case (Some dl)
    then show ?thesis
      using Coro_Cancel_ok [OF inv(1,2) Some, of n] \<open>map_of (w_coros w) coroId = Some c\<close> w by (auto simp: mgr_Cancel_def GetCoro_def winv_def)
  qed
qed

definition entries_ok :: "((nat \<Rightarrow> 'g prog) \<times> nat) set \<Rightarrow> bool" where
  "entries_ok entries \<longleftrightarrow> (\<forall>(entry, args) \<in> entries. \<forall>c. good (entry args) False c)"

lemma spawn_step:
  assumes "winv w" "w_maxCoroId w < 2 ^ 31 - 1" "entries_ok entries" "(entry, args) \<in> entries"
  shows "\<exists>c w1 w2. CreateCoro entry args w = Ok (c, w1) \<and> Coro_Resume (Suc n) VNil c w1 = Ok (None, w2) \<and> winv w2"
  using spawn_ok [OF assms(1,2), of entry args n] assms(3,4) unfolding entries_ok_def by blast

lemma proc_step_winv:
  assumes "proc_step env svcs entries w w'" "winv w" "env_ok env" "entries_ok entries"
  shows "winv w'"
  using assms(1)
proof cases
  case (time t)
  then show ?thesis using winv_clock(1) [OF assms(2)] by simp
next
  case update
  then show ?thesis using mgr_Update_ok [OF assms(2), of "Suc (bh_size (ts_heap w))" 0] by auto
next
  case (event ev)
  then show ?thesis using event_step [OF assms(2) _ assms(3), of svcs ev 0] by (auto simp: evolves_def)
next
  case (spawn entry args c w1 ret)
  then show ?thesis using spawn_step [OF assms(2) _ assms(4), of entry args 0] by (auto simp del: Coro_Resume.simps)
next
  case (cancel coroId ret)
  then show ?thesis using cancel_step [OF assms(2), of 0 coroId] by auto
qed

lemma reachable_winv:
  assumes "(proc_step env svcs entries)\<^sup>*\<^sup>* w w'" "winv w" "env_ok env" "entries_ok entries"
  shows "winv w'"
  using assms by (induction rule: rtranclp_induct) (blast intro: proc_step_winv)+

section \<open>Safety\<close>

text \<open>C2: an RPC process does not crash. From its start, after any sequence of steps of the main loop (time
passing, \<open>Update\<close>, the handling of events, the start and the cancellation of coroutines), the invariant
of coroutines and timers holds, and every next step runs to its end: \<open>Update\<close> terminates, with as many rounds
as there are timers; every event whose packet is well formed for its handler, and calls a
method that behaves, is handled; every
coroutine id can be cancelled; and every allowed coroutine can be started. This includes all interleavings
of suspended calls with responses, timeouts and cancellations, and the deletion of ended
coroutines. It needs that coroutine ids have not yet wrapped around.\<close>

theorem rpc_process_safe:
  assumes "cm_svc conn \<noteq> None" "env_ok env" "entries_ok entries"
    and "(proc_step env svcs entries)\<^sup>*\<^sup>* (world_init now g conn) w"
  shows "winv w \<and> (\<exists>w'. mgr_Update (Suc (bh_size (ts_heap w))) 1 w = Ok w') \<and> (\<forall>coroId. \<exists>ret w'. mgr_Cancel 1 coroId w = Ok (ret, w'))
    \<and> (w_maxCoroId w < 2 ^ 31 - 1 \<longrightarrow>
         (\<forall>ev. fine_event env svcs (w_conn w) ev \<longrightarrow> (\<exists>w'. HandleEvent 1 env svcs ev w = Ok w'))
       \<and> (\<forall>(entry, args) \<in> entries. \<exists>c w1 w2. CreateCoro entry args w = Ok (c, w1) \<and> Coro_Resume 1 VNil c w1 = Ok (None, w2)))"
proof -
  have w: "winv w" by (rule reachable_winv [OF assms(4) winv_init [OF assms(1)] assms(2,3)])
  have "\<exists>w'. mgr_Update (Suc (bh_size (ts_heap w))) 1 w = Ok w'"
    using mgr_Update_ok [OF w lessI, of 0] by auto
  moreover have "\<exists>ret w'. mgr_Cancel 1 coroId w = Ok (ret, w')" for coroId
    using cancel_step [OF w, of 0 coroId] by auto
  moreover have "\<exists>w'. HandleEvent 1 env svcs ev w = Ok w'" if "w_maxCoroId w < 2 ^ 31 - 1" "fine_event env svcs (w_conn w) ev" for ev
    using event_step [OF w that(1) assms(2) that(2), of 0] by auto
  moreover have "\<exists>c w1 w2. CreateCoro entry args w = Ok (c, w1) \<and> Coro_Resume 1 VNil c w1 = Ok (None, w2)"
    if "w_maxCoroId w < 2 ^ 31 - 1" "(entry, args) \<in> entries" for entry args
    using spawn_step [OF w that(1) assms(3) that(2), of 0] by auto
  ultimately show ?thesis using w by blast
qed

lemma demo_entry: "good (CallMethod demo_rpc_env 1 demo_method [104] record_end) False c"
  by (rule good_CallMethod [OF demo_ok(1,2) codec_fits_sized [OF demo_ok(3)]]) (simp_all add: good_record_end)

theorem rpc_process_safe_witness:
  "\<exists>w :: (byte list option \<times> byte list option) world. w_maxCoroId w = 1 \<and> winv w \<and> (\<exists>w'. mgr_Update (Suc (bh_size (ts_heap w))) 1 w = Ok w') \<and> (\<forall>coroId. \<exists>ret w'. mgr_Cancel 1 coroId w = Ok (ret, w'))
    \<and> (\<forall>ev. fine_event demo_rpc_env (demo_services :: (byte list, byte list option \<times> byte list option) services) (w_conn w) ev
         \<longrightarrow> (\<exists>w'. HandleEvent 1 demo_rpc_env (demo_services :: (byte list, byte list option \<times> byte list option) services) ev w = Ok w'))"
proof -
  let ?g = "(None, None) :: byte list option \<times> byte list option" and ?conn = "ConnMgr_new\<lparr>cm_svc := Some demo_svc\<rparr>"
  let ?entry = "\<lambda>_ :: nat. CallMethod demo_rpc_env 1 demo_method [104] record_end" and ?w = "demo_world ?g"
  have max: "w_maxCoroId ?w < 2 ^ 31 - 1" by (simp add: demo_ok)
  have "\<exists>c p w1 w2. CreateCoro ?entry 0 ?w = Ok (c, w1) \<and> Coro_Resume (Suc 0) VNil c w1 = Ok (None, w2) \<and> winv w1 \<and> winv w2 \<and> w_coro ?w c = None
    \<and> view w1 = v_Create c p ?entry 0 (view ?w) \<and> view w2 = v_exec c (awake_coro VNil (created (w_maxCoroId ?w + 1) p ?entry 0)) (?entry 0) (view w1)"
    by (rule spawn_ok [OF demo_ok(5) max demo_entry])
  then obtain c p w1 w2 where w2: "CreateCoro ?entry 0 ?w = Ok (c, w1)" "Coro_Resume (Suc 0) VNil c w1 = Ok (None, w2)"
    "view w1 = v_Create c p ?entry 0 (view ?w)"
    "view w2 = v_exec c (awake_coro VNil (created (w_maxCoroId ?w + 1) p ?entry 0)) (?entry 0) (view w1)"
    by (elim exE conjE)
  have "v_maxCoroId (view w2) = 1" unfolding w2(4) using v_exec_frame [of c _ "?entry 0" "view w1"] by (simp add: w2(3) v_Create_def Let_def demo_ok)
  then have m: "w_maxCoroId w2 = 1" by simp
  have "(proc_step demo_rpc_env (demo_services :: (byte list, byte list option \<times> byte list option) services) {(?entry, 0)})\<^sup>*\<^sup>* (world_init 0 ?g ?conn) w2"
    by (rule r_into_rtranclp, rule proc_step.spawn) (use max w2(1,2) in \<open>simp_all add: demo_world_def\<close>)
  moreover have "entries_ok {(?entry, 0)}" using demo_entry by (auto simp: entries_ok_def)
  ultimately show ?thesis
    using rpc_process_safe [OF _ demo_ok(1), of ?conn "{(?entry, 0)}" demo_services 0 ?g w2] m by (intro exI [of _ w2]) simp
qed

end
