(* ===== verification/Echo.thy ===== *)
theory Echo
  imports Rpc_Process
begin

text \<open>
  The service of the examples, \<open>MyEchoService\<close> (rpc/src/echo_service_impl.cpp), with the messages and methods of
  rpc/pb/echo.proto, and the coroutine of the example client (rpc/src/client/client.cpp).

  All four messages have one optional string. The code that the protobuf compiler generates for them is not
  in the repository: their codecs are parameters, of which only the sizes are assumed. Trace messages
  are left out. Strings are logged with a percent-s conversion, so up to their first zero byte.
\<close>

type_synonym echo_msg = "byte list option"

definition msg :: "echo_msg \<Rightarrow> byte list" where
  "msg m = (case m of None \<Rightarrow> [] | Some s \<Rightarrow> s)"

definition c_str :: "byte list \<Rightarrow> byte list" where
  "c_str s = takeWhile (\<lambda>b. b \<noteq> 0) s"

section \<open>The methods\<close>

definition EchoService :: "byte list" where
  "EchoService = ascii ''EchoService''"

definition md_Echo :: "echo_msg codec \<Rightarrow> echo_msg codec \<Rightarrow> echo_msg rpc_method" where
  "md_Echo reqs rsps = \<lparr>md_service = EchoService, md_name = ascii ''Echo'', md_req = reqs, md_rsp = rsps, md_new = None, md_isCoroRequired = False\<rparr>"

definition md_RelayEcho :: "echo_msg codec \<Rightarrow> echo_msg codec \<Rightarrow> echo_msg rpc_method" where
  "md_RelayEcho reqs rsps = \<lparr>md_service = EchoService, md_name = ascii ''RelayEcho'', md_req = reqs, md_rsp = rsps, md_new = None, md_isCoroRequired = True\<rparr>"

definition md_GetData :: "echo_msg codec \<Rightarrow> echo_msg codec \<Rightarrow> echo_msg rpc_method" where
  "md_GetData reqs rsps = \<lparr>md_service = EchoService, md_name = ascii ''GetData'', md_req = reqs, md_rsp = rsps, md_new = None, md_isCoroRequired = False\<rparr>"

definition Echo :: "(echo_msg, 'g) impl" where
  "Echo controller request response k =
     Info ''received, msg:%s'' [c_str (msg request)] (k controller (Some (ascii '' Echo >>>>>>> '' @ msg request)))"

text \<open>The status that is logged after a call.\<close>

definition status_text :: "controller \<Rightarrow> byte list" where
  "status_text cntl = (if ctl_isFailed cntl then c_str (ctl_errorText cntl) else ascii ''success'')"

text \<open>\<open>RelayEcho\<close> calls \<open>Echo\<close> of the next server; \<open>relay_rest\<close> is what follows the inner call.\<close>

definition relay_rest :: "controller \<Rightarrow> (controller \<Rightarrow> echo_msg \<Rightarrow> 'g prog) \<Rightarrow> byte list option \<Rightarrow> echo_msg option \<Rightarrow> 'g prog" where
  "relay_rest controller k reason rsp =
     (let cntl = fail_with reason RpcController_new; innerRsp = (case rsp of None \<Rightarrow> None | Some m \<Rightarrow> m) in
      Info ''Recv rsp, status:%s, rsp:%s'' [status_text cntl, c_str (msg innerRsp)]
        (k (if ctl_isFailed cntl then SetFailed (ctl_errorText cntl) controller else controller) (Some (msg innerRsp))))"

definition RelayEcho :: "rpc_env \<Rightarrow> echo_msg rpc_method \<Rightarrow> (echo_msg, 'g) impl" where
  "RelayEcho env echo controller req rsp k =
     (let innerReq = Some (ascii ''Relay Call >>>>>>'' @ msg req) in
      Channel (ascii ''127.0.0.1'') 6699 (\<lambda>channel. case channel of
          None \<Rightarrow> Info ''GetRpcChannel Fail'' []
            (k (SetFailed (ascii ''GetRpcChannel Fail'') controller) (Some (msg req @ ascii '' ---- inner rpc call server not exist'')))
        | Some sid \<Rightarrow> Info ''call, msg:%s'' [c_str (msg innerReq)]
            (CallMethod env sid echo innerReq (relay_rest controller k))))"

text \<open>\<open>GetData\<close> ends with \<open>done->Run()\<close>, but \<open>HandleRpcReq\<close> passes a null closure.\<close>

definition GetData :: "(echo_msg, 'g) impl" where
  "GetData controller request response k = Crash NullDeref"

definition echo_methods :: "rpc_env \<Rightarrow> echo_msg codec \<Rightarrow> echo_msg codec \<Rightarrow> echo_msg codec \<Rightarrow> echo_msg codec \<Rightarrow> (echo_msg rpc_method \<times> (echo_msg, 'g) impl) list" where
  "echo_methods env reqs rsps dreqs drsps =
     [(md_Echo reqs rsps, Echo), (md_RelayEcho reqs rsps, RelayEcho env (md_Echo reqs rsps)), (md_GetData dreqs drsps, GetData)]"

section \<open>The client\<close>

text \<open>The coroutine of client.cpp captures the controller and the two messages of \<open>main\<close> by reference: all
coroutines share them.\<close>

record client_vars =
  cl_cntl :: controller
  cl_req :: echo_msg
  cl_rsp :: echo_msg

definition client_init :: client_vars where
  "client_init = \<lparr>cl_cntl = RpcController_new, cl_req = None, cl_rsp = None\<rparr>"

text \<open>Set the request, log it, call the method, log the outcome. \<open>CallMethod\<close> clears the response first; a call
that fails before it has read a message leaves the response as it then is.\<close>

definition client_call :: "rpc_env \<Rightarrow> int \<Rightarrow> echo_msg rpc_method \<Rightarrow> string \<Rightarrow> string \<Rightarrow> string \<Rightarrow> client_vars prog \<Rightarrow> client_vars prog" where
  "client_call env sid md text before after k =
     Get (\<lambda>g. Put (g\<lparr>cl_req := Some (ascii text)\<rparr>)
     (Info before [c_str (ascii text)]
     (Get (\<lambda>g0. Put (g0\<lparr>cl_rsp := None\<rparr>)
     (CallMethod env sid md (Some (ascii text)) (\<lambda>reason rsp.
       Get (\<lambda>g1. let g2 = g1\<lparr>cl_cntl := fail_with reason (cl_cntl g1), cl_rsp := (case rsp of None \<Rightarrow> cl_rsp g1 | Some m \<Rightarrow> m)\<rparr> in
         Put g2 (Info after [status_text (cl_cntl g2), c_str (msg (cl_rsp g2))] k))))))))"

definition client_func :: "rpc_env \<Rightarrow> int \<Rightarrow> echo_msg rpc_method \<Rightarrow> echo_msg rpc_method \<Rightarrow> nat \<Rightarrow> client_vars prog" where
  "client_func env sid echo relay args =
     client_call env sid echo ''Hello, Echo.'' ''Rpc Echo Call, msg:%s'' ''Recv Echo Rsp, status:%s, rsp:%s''
    (client_call env sid relay ''Hello, RelayEcho.'' ''Rpc RelayEcho Call, msg:%s'' ''Recv RelayEcho Rsp, status:%s, rsp:%s'' Finish)"

section \<open>Sizes\<close>

text \<open>What is assumed of the generated code: a serialized message is at most a tag and a length longer than its
string, and a parsed string is no longer than the bytes it was parsed from.\<close>

definition small_codec :: "echo_msg codec \<Rightarrow> bool" where
  "small_codec cd \<longleftrightarrow> (\<forall>m. length (cd_ser cd m) \<le> length (msg m) + 11) \<and> (\<forall>bs m. cd_parse cd bs = Some m \<longrightarrow> length (msg m) \<le> length bs)
     \<and> (\<forall>p. length (msg (cd_partial cd p)) \<le> length (pk_data p))"

lemma small_sized: "small_codec cd \<Longrightarrow> length (msg m) + 12 \<le> 2 ^ 31 \<Longrightarrow> codec_sized cd m"
proof -
  assume "small_codec cd" and m: "length (msg m) + 12 \<le> 2 ^ 31"
  then have "length (cd_ser cd m) \<le> length (msg m) + 11" by (simp add: small_codec_def)
  then show ?thesis using m by (simp add: codec_sized_def)
qed

lemma small_req: "small_codec cd \<Longrightarrow> codec_fits cd m \<Longrightarrow> length (msg m) \<le> length (cd_ser cd m)"
  by (auto simp: small_codec_def codec_fits_def)

lemma result_msg: "small_codec (md_rsp md) \<Longrightarrow> result_ok md reason (Some m) \<Longrightarrow> length (msg m) + 8192 \<le> 2 ^ 31"
proof -
  assume s: "small_codec (md_rsp md)" and r: "result_ok md reason (Some m)"
  consider body where "cd_parse (md_rsp md) body = Some m" "length body + 8192 \<le> 2 ^ 31"
    | p where "m = cd_partial (md_rsp md) p" "length (pk_data p) + 8192 \<le> 2 ^ 31"
    using r by (auto simp: result_ok_def)
  then show ?thesis
  proof cases
    case 1
    then have "length (msg m) \<le> length body" using s by (simp add: small_codec_def)
    then show ?thesis using 1 by simp
  next
    case 2
    then have "length (msg m) \<le> length (pk_data p)" using s by (simp add: small_codec_def)
    then show ?thesis using 2 by simp
  qed
qed

lemma msg_simps [simp]: "msg (Some s) = s" "msg None = []"
  by (simp_all add: msg_def)

lemma echo_method_simps [simp]:
  "md_req (md_Echo reqs rsps) = reqs" "md_rsp (md_Echo reqs rsps) = rsps" "md_new (md_Echo reqs rsps) = None" "\<not> md_isCoroRequired (md_Echo reqs rsps)"
  "md_req (md_RelayEcho reqs rsps) = reqs" "md_rsp (md_RelayEcho reqs rsps) = rsps" "md_new (md_RelayEcho reqs rsps) = None"
  "md_isCoroRequired (md_RelayEcho reqs rsps)"
  by (simp_all add: md_Echo_def md_RelayEcho_def)

lemma echo_methods_ok: "method_ok (md_Echo reqs rsps)" "method_ok (md_RelayEcho reqs rsps)" "method_ok (md_GetData reqs rsps)"
  by (simp_all add: method_ok_def fits_str_def md_Echo_def md_RelayEcho_def md_GetData_def EchoService_def ascii_def)

lemma echo_registered:
  fixes svcs :: "(echo_msg, 'g) services"
  assumes all: "all = AddService EchoService (echo_methods env reqs rsps dreqs drsps) svcs"
  shows "registered all (md_Echo reqs rsps) Echo" "registered all (md_RelayEcho reqs rsps) (RelayEcho env (md_Echo reqs rsps))"
    "registered all (md_GetData dreqs drsps) GetData"
proof -
  let ?ms = "echo_methods env reqs rsps dreqs drsps :: (echo_msg rpc_method \<times> (echo_msg, 'g) impl) list"
  have d: "distinct (map (\<lambda>m. md_name (fst m)) ?ms)"
    by (simp add: echo_methods_def md_Echo_def md_RelayEcho_def md_GetData_def ascii_def)
  have s: "md_service (md_Echo reqs rsps) = EchoService" "md_service (md_RelayEcho reqs rsps) = EchoService"
    "md_service (md_GetData dreqs drsps) = EchoService"
    by (simp_all add: md_Echo_def md_RelayEcho_def md_GetData_def)
  have m: "(md_Echo reqs rsps, Echo) \<in> set ?ms" "(md_RelayEcho reqs rsps, RelayEcho env (md_Echo reqs rsps)) \<in> set ?ms"
    "(md_GetData dreqs drsps, GetData) \<in> set ?ms"
    by (simp_all add: echo_methods_def)
  show "registered all (md_Echo reqs rsps) Echo" "registered all (md_RelayEcho reqs rsps) (RelayEcho env (md_Echo reqs rsps))"
    "registered all (md_GetData dreqs drsps) GetData"
    unfolding all using AddService_registered [OF m(1) d, of svcs] AddService_registered [OF m(2) d, of svcs]
      AddService_registered [OF m(3) d, of svcs] s by simp_all
qed

section \<open>The methods behave\<close>

lemma plain_OnRpcDone:
  assumes "env_ok env" "fits_str (ctl_errorText ctl)" "codec_sized (md_rsp md) rsp"
  shows "plain (OnRpcDone env md ctl rsp sid coroId Finish)" "good (OnRpcDone env md ctl rsp sid coroId Finish) aw c"
proof -
  show "plain (OnRpcDone env md ctl rsp sid coroId Finish)"
    using rsp_packet_sized [OF assms, of sid coroId] by (auto simp: OnRpcDone_def lift_outcome_def)
  then show "good (OnRpcDone env md ctl rsp sid coroId Finish) aw c" by (rule plain_good)
qed

lemma new_ctl_simps [simp]: "fits_str []" "ctl_errorText RpcController_new = []" "\<not> ctl_isFailed RpcController_new"
  by (simp_all add: RpcController_new_def fits_str_def)

lemma Echo_behaves:
  assumes "env_ok env" "small_codec reqs" "small_codec rsps"
  shows "behaves env (md_Echo reqs rsps) Echo"
proof -
  have "plain (serve env (md_Echo reqs rsps) Echo req sid coroId)"
    if "codec_fits reqs req" "length (cd_ser reqs req) + 8192 \<le> 2 ^ 31" for req sid coroId
  proof -
    have "codec_sized (md_rsp (md_Echo reqs rsps)) (Some (ascii '' Echo >>>>>>> '' @ msg req))"
      using small_req [OF assms(2) that(1)] that(2) by (simp, intro small_sized [OF assms(3)]) (simp add: ascii_def)
    from plain_OnRpcDone(1) [OF assms(1) _ this, of RpcController_new sid coroId] show ?thesis by (simp add: serve_def Echo_def)
  qed
  then show ?thesis unfolding behaves_def using echo_methods_ok by auto
qed

lemma fail_with_simps [simp]:
  "fail_with None ctl = ctl" "ctl_isFailed (fail_with (Some r) ctl)" "ctl_errorText (fail_with (Some r) ctl) = r"
  "ctl_errorText (SetFailed r ctl) = r"
  by (simp_all add: fail_with_def SetFailed_def)

lemma relay_rest_good:
  assumes "small_codec (md_rsp echo)" "result_ok echo reason rsp"
    and k: "\<And>ctl m. fits_str (ctl_errorText ctl) \<Longrightarrow> length m + 8192 \<le> 2 ^ 31 \<Longrightarrow> good (k ctl (Some m)) aw c"
  shows "good (relay_rest RpcController_new k reason rsp) aw c"
proof -
  have "length (msg (case rsp of None \<Rightarrow> None | Some m \<Rightarrow> m)) + 8192 \<le> 2 ^ 31"
    using result_msg [OF assms(1), of reason] assms(2) by (cases rsp) simp_all
  moreover have "fits_str r" if "reason = Some r" for r using assms(2) that by (simp add: result_ok_def fits_str_def)
  ultimately show ?thesis by (cases reason) (simp_all add: relay_rest_def Let_def k)
qed

lemma RelayEcho_behaves:
  assumes "env_ok env" "small_codec reqs" "small_codec rsps"
  shows "behaves env (md_RelayEcho reqs rsps) (RelayEcho env (md_Echo reqs rsps))"
proof -
  let ?md = "md_RelayEcho reqs rsps"
  have "good (serve env ?md (RelayEcho env (md_Echo reqs rsps)) req sid coroId) False c"
    if "codec_fits reqs req" "length (cd_ser reqs req) + 8192 \<le> 2 ^ 31" for req sid coroId c
  proof -
    let ?k = "\<lambda>ctl rsp. OnRpcDone env ?md ctl rsp sid coroId Finish"
    have len: "length (msg req) + 8192 \<le> 2 ^ 31" using small_req [OF assms(2) that(1)] that(2) by simp
    have k: "good (?k ctl (Some m)) aw c" if "fits_str (ctl_errorText ctl)" "length m + 12 \<le> 2 ^ 31" for ctl m aw
      using that by (intro plain_OnRpcDone(2) [OF assms(1)]) (simp_all add: small_sized [OF assms(3)])
    have inner: "codec_sized (md_req (md_Echo reqs rsps)) (Some (ascii ''Relay Call >>>>>>'' @ msg req))"
      using len by (simp, intro small_sized [OF assms(2)]) (simp add: ascii_def)
    have "good (CallMethod env ch (md_Echo reqs rsps) (Some (ascii ''Relay Call >>>>>>'' @ msg req)) (relay_rest RpcController_new ?k)) False c" for ch
      by (rule good_CallMethod [OF assms(1) echo_methods_ok(1) inner], rule relay_rest_good) (use assms(3) in \<open>auto intro!: k\<close>)
    moreover have "good (?k (SetFailed (ascii ''GetRpcChannel Fail'') RpcController_new) (Some (msg req @ ascii '' ---- inner rpc call server not exist''))) False c"
      using len by (intro k) (simp_all add: fits_str_def ascii_def)
    ultimately show ?thesis by (auto simp: serve_def RelayEcho_def Let_def split: option.splits)
  qed
  then show ?thesis unfolding behaves_def using echo_methods_ok by auto
qed

lemma client_call_good:
  assumes "env_ok env" "method_ok md" "small_codec (md_req md)" "length text < 1000" "good k True c"
  shows "good (client_call env sid md text before after k) aw c"
proof -
  have "codec_sized (md_req md) (Some (ascii text))" using assms(4) by (intro small_sized [OF assms(3)]) (simp add: ascii_def)
  then show ?thesis unfolding client_call_def using assms(5) by (simp add: good_CallMethod [OF assms(1,2)] Let_def)
qed

lemma client_func_good:
  assumes "env_ok env" "small_codec reqs"
  shows "good (client_func env sid (md_Echo reqs rsps) (md_RelayEcho reqs rsps) args) False c"
  unfolding client_func_def
  by (intro client_call_good [OF assms(1)]) (simp_all add: echo_methods_ok assms)

section \<open>Properties\<close>


text \<open>A codec of the assumed kind: a tag, then the string.\<close>

definition demo_string_codec :: "byte \<Rightarrow> echo_msg codec" where
  "demo_string_codec tag = \<lparr>cd_ser = (\<lambda>m. case m of None \<Rightarrow> [] | Some s \<Rightarrow> tag # s),
     cd_parse = (\<lambda>bs. case bs of [] \<Rightarrow> Some None | b # s \<Rightarrow> if b = tag then Some (Some s) else None), cd_partial = (\<lambda>p. None)\<rparr>"

lemma demo_string_codec:
  "small_codec (demo_string_codec tag)" "length (msg m) + 1 < 2 ^ 31 \<Longrightarrow> codec_fits (demo_string_codec tag) m"
  by (auto simp: small_codec_def demo_string_codec_def codec_fits_def split: option.splits list.splits if_splits)


end
