(* ===== verification/Relay.thy ===== *)
theory Relay
  imports Echo
begin

text \<open>
  The relayed call: a server that gets a \<open>RelayEcho\<close> request calls \<open>Echo\<close> of the next server from the coroutine it
  serves the request in, and answers when that call has ended. So the same process is server and client at once.
\<close>

definition relay_done :: "rpc_env \<Rightarrow> echo_msg codec \<Rightarrow> echo_msg codec \<Rightarrow> int \<Rightarrow> int \<Rightarrow> byte list option \<Rightarrow> echo_msg option \<Rightarrow> 'g prog" where
  "relay_done env reqs rsps src srcId =
     relay_rest RpcController_new (\<lambda>ctl rsp. OnRpcDone env (md_RelayEcho reqs rsps) ctl rsp src srcId Finish)"

lemma serve_relay:
  "serve env (md_RelayEcho reqs rsps) (RelayEcho env (md_Echo reqs rsps)) req src srcId =
     Channel (ascii ''127.0.0.1'') 6699 (\<lambda>channel. case channel of
         None \<Rightarrow> Info ''GetRpcChannel Fail'' [] (OnRpcDone env (md_RelayEcho reqs rsps) (SetFailed (ascii ''GetRpcChannel Fail'') RpcController_new)
           (Some (msg req @ ascii '' ---- inner rpc call server not exist'')) src srcId Finish)
       | Some sid \<Rightarrow> Info ''call, msg:%s'' [c_str (ascii ''Relay Call >>>>>>'' @ msg req)]
           (CallMethod env sid (md_Echo reqs rsps) (Some (ascii ''Relay Call >>>>>>'' @ msg req)) (relay_done env reqs rsps src srcId)))"
  by (simp add: serve_def RelayEcho_def relay_done_def Let_def cong: option.case_cong)

text \<open>The answer, at the end of the serving code.\<close>

lemma exec_OnRpcDone:
  assumes "env_ok env" "fits_str (ctl_errorText ctl)" "codec_sized (md_rsp md) rsp" "link_up src (v_conn v)"
  shows "\<exists>q. is_response q src md srcId (ctl_errorText ctl) rsp
     \<and> exec (OnRpcDone env md ctl rsp src srcId Finish) c o1 v = (None, v\<lparr>v_conn := posted q (v_conn v)\<rparr>)"
proof -
  obtain q where q: "rsp_packet env md ctl rsp src srcId = Ok q" "is_response q src md srcId (ctl_errorText ctl) rsp"
    using rsp_packet_sized [OF assms(1-3)] by blast
  have "cm_PushPacket q (v_conn v) = Ok (None, posted q (v_conn v))" using q(2) assms(4) by (intro push_posted) (simp add: is_response_def)
  then show ?thesis using q by (intro exI [of _ q]) (simp add: OnRpcDone_def lift_outcome_def)
qed

text \<open>The status of the inner call becomes the status of the outer one.\<close>

lemma v_exec_relay_done:
  assumes "env_ok env" "small_codec rsps" "result_ok (md_Echo reqs rsps) reason rsp" "link_up src (v_conn v)"
  shows "\<exists>q. is_response q src (md_RelayEcho reqs rsps) srcId (case reason of None \<Rightarrow> [] | Some r \<Rightarrow> r)
       (Some (case rsp of None \<Rightarrow> [] | Some m \<Rightarrow> msg m))
     \<and> v_conn (v_exec c o1 (relay_done env reqs rsps src srcId reason rsp) v) = posted q (v_conn v)
     \<and> v_live (v_exec c o1 (relay_done env reqs rsps src srcId reason rsp) v) (co_id o1) = None"
proof -
  let ?m = "case rsp of None \<Rightarrow> None | Some m \<Rightarrow> m" and ?cntl = "fail_with reason RpcController_new"
  let ?ctl = "if ctl_isFailed ?cntl then SetFailed (ctl_errorText ?cntl) RpcController_new else RpcController_new"
  have len: "length (msg ?m) + 8192 \<le> 2 ^ 31" using result_msg [of "md_Echo reqs rsps" reason] assms(2,3) by (cases rsp) simp_all
  have err: "ctl_errorText ?ctl = (case reason of None \<Rightarrow> [] | Some r \<Rightarrow> r)" "fits_str (ctl_errorText ?ctl)"
    using assms(3) by (cases reason; simp add: result_ok_def fits_str_def)+
  have sized: "codec_sized (md_rsp (md_RelayEcho reqs rsps)) (Some (msg ?m))" using len by (simp add: small_sized [OF assms(2)])
  let ?v = "v\<lparr>v_coro := (v_coro v)(c \<mapsto> o1), v_dl := (v_dl v)(c := None),
    v_info := v_info v @ [(''Recv rsp, status:%s, rsp:%s'', [status_text ?cntl, c_str (msg ?m)])]\<rparr>"
  have "link_up src (v_conn ?v)" using assms(4) by simp
  from exec_OnRpcDone [OF assms(1) err(2) sized this, of srcId c "coro.truncate o1"]
  obtain q where q: "is_response q src (md_RelayEcho reqs rsps) srcId (ctl_errorText ?ctl) (Some (msg ?m))"
    "exec (OnRpcDone env (md_RelayEcho reqs rsps) ?ctl (Some (msg ?m)) src srcId Finish) c (coro.truncate o1) ?v = (None, ?v\<lparr>v_conn := posted q (v_conn ?v)\<rparr>)"
    by blast
  have "exec (relay_done env reqs rsps src srcId reason rsp) c (coro.truncate o1) (v\<lparr>v_coro := (v_coro v)(c \<mapsto> o1), v_dl := (v_dl v)(c := None)\<rparr>)
      = (None, ?v\<lparr>v_conn := posted q (v_conn ?v)\<rparr>)"
    using q(2) by (simp add: relay_done_def relay_rest_def Let_def)
  then show ?thesis using q(1) err(1)
    by (intro exI [of _ q]) (simp add: v_exec_def settle_def msg_def split: option.splits)
qed

section \<open>A relayed request\<close>

text \<open>A relayed request starts a coroutine for \<open>RelayEcho\<close>.\<close>

lemma relay_starts:
  fixes w :: "'g world" and svcs :: "(echo_msg, 'g) services"
  assumes w: "winv w" "w_maxCoroId w < 2 ^ 31 - 1" "subscribed (w_conn w)" "link_up src (w_conn w)"
    and env: "env_ok env" "small_codec reqs" "small_codec rsps"
    and p: "is_request p src (md_RelayEcho reqs rsps) srcId req" "codec_fits reqs req" "is_int srcId" "length (pk_data p) + 8192 \<le> 2 ^ 31"
    and svc: "registered svcs (md_RelayEcho reqs rsps) (RelayEcho env (md_Echo reqs rsps))"
  defines "func \<equiv> serve env (md_RelayEcho reqs rsps) (RelayEcho env (md_Echo reqs rsps)) req src srcId :: 'g prog"
  shows "length (msg req) + 8192 \<le> 2 ^ 31" "good func False c"
    "CreateCoro (\<lambda>_. func) 0 w = Ok (c', w1) \<Longrightarrow> Coro_Resume (Suc 0) VNil c' w1 = Ok (None, w2) \<Longrightarrow>
      HandleEvent 1 env svcs (DataArrival p) w = Ok (recycle_packet w2)"
proof -
  let ?md = "md_RelayEcho reqs rsps" and ?p = "p\<lparr>pk_recverSvcId := service_id (w_conn w)\<rparr>"
  have pk: "pk_opcode p = RpcReq" "pk_recverSvcId p = 0" "pk_sessionId p = src" "pk_ok ?p" "pk_data ?p = req_data ?md srcId req"
    using p(1) by (simp_all add: is_request_def)
  have len: "length (cd_ser reqs req) + 8192 \<le> 2 ^ 31" "length (msg req) + 8192 \<le> 2 ^ 31"
    using p(4) pk(5) small_req [OF env(2) p(2)] by (simp_all add: req_data_def)
  show "length (msg req) + 8192 \<le> 2 ^ 31" by (rule len(2))
  show "good func False c"
    using RelayEcho_behaves [OF env] p(2) len(1) unfolding behaves_def func_def by auto
  show "HandleEvent 1 env svcs (DataArrival p) w = Ok (recycle_packet w2)"
    if "CreateCoro (\<lambda>_. func) 0 w = Ok (c', w1)" "Coro_Resume (Suc 0) VNil c' w1 = Ok (None, w2)"
    using event_dispatch(1) [OF w(3) _ pk(2,1), of 1 env svcs] w(4) pk(3) p(2) that
      HandleRpcReq_dispatch [OF env(1) pk(4,5) echo_methods_ok(2) _ p(3) svc, of 1 w]
    by (simp add: func_def del: Coro_Resume.simps)
qed

text \<open>With a channel, it calls the next server.\<close>

lemma relay_forwards:
  fixes w :: "'g world" and svcs :: "(echo_msg, 'g) services"
  assumes w: "winv w" "w_maxCoroId w < 2 ^ 31 - 1" "subscribed (w_conn w)" "link_up src (w_conn w)"
    and env: "env_ok env" "small_codec reqs" "small_codec rsps"
    and p: "is_request p src (md_RelayEcho reqs rsps) srcId req" "codec_fits reqs req" "is_int srcId" "length (pk_data p) + 8192 \<le> 2 ^ 31"
    and svc: "registered svcs (md_RelayEcho reqs rsps) (RelayEcho env (md_Echo reqs rsps))"
    and ch: "cm_GetRpcChannel (ascii ''127.0.0.1'') 6699 (w_conn w) = Ok (Some sid, conn1)" "link_up sid conn1"
  shows "\<exists>w' q c. HandleEvent 1 env svcs (DataArrival p) w = Ok w' \<and> winv w'
        \<and> is_request q sid (md_Echo reqs rsps) (w_maxCoroId w + 1) (Some (ascii ''Relay Call >>>>>>'' @ msg req)) \<and> w_conn w' = posted q conn1
        \<and> awaiting (view w') c (w_maxCoroId w + 1) env (md_Echo reqs rsps) (relay_done env reqs rsps src srcId) (ts_now w + CoroTimeoutTime)"
proof -
  let ?func = "serve env (md_RelayEcho reqs rsps) (RelayEcho env (md_Echo reqs rsps)) req src srcId :: 'g prog"
  note start = relay_starts [OF w env p svc]
  let ?inner = "Some (ascii ''Relay Call >>>>>>'' @ msg req)" and ?ls = "[(''call, msg:%s'', [c_str (ascii ''Relay Call >>>>>>'' @ msg req)])]"
  have sized: "codec_sized (md_req (md_Echo reqs rsps)) ?inner" using start(1) by (simp, intro small_sized [OF env(2)]) (simp add: ascii_def)
  have pre: "\<forall>c o1 v. v_conn v = w_conn w \<longrightarrow> exec ((\<lambda>_. ?func) (0 :: nat)) c o1 v = exec (CallMethod env sid (md_Echo reqs rsps) ?inner (relay_done env reqs rsps src srcId)) c o1
      (v\<lparr>v_conn := conn1, v_info := v_info v @ ?ls\<rparr>)"
    using ch(1) by (simp add: serve_relay)
  from spawned_call_starts [OF w(1,2) env(1) echo_methods_ok(1) sized ch(2), where entry = "\<lambda>_. ?func" and args = 0 and n = 0, OF start(2) pre]
  obtain c w1 w2 q where w2: "CreateCoro (\<lambda>_. ?func) 0 w = Ok (c, w1)" "Coro_Resume (Suc 0) VNil c w1 = Ok (None, w2)" "winv w2"
    "is_request q sid (md_Echo reqs rsps) (w_maxCoroId w + 1) ?inner" "w_conn w2 = posted q conn1"
    "awaiting (view w2) c (w_maxCoroId w + 1) env (md_Echo reqs rsps) (relay_done env reqs rsps src srcId) (ts_now w + CoroTimeoutTime)"
    by (elim exE conjE)
  show ?thesis
    using start(3) [OF w2(1,2)] recycle_packet_ok(1) [OF w2(3)] recycle_packet_ok(2) [of w2] w2(4-6)
    by (intro exI [of _ "recycle_packet w2"] exI [of _ q] exI [of _ c]) (simp add: recycle_packet_def)
qed

text \<open>Without a channel, it answers with an error.\<close>

lemma relay_refused:
  fixes w :: "'g world" and svcs :: "(echo_msg, 'g) services"
  assumes w: "winv w" "w_maxCoroId w < 2 ^ 31 - 1" "subscribed (w_conn w)" "link_up src (w_conn w)"
    and env: "env_ok env" "small_codec reqs" "small_codec rsps"
    and p: "is_request p src (md_RelayEcho reqs rsps) srcId req" "codec_fits reqs req" "is_int srcId" "length (pk_data p) + 8192 \<le> 2 ^ 31"
    and svc: "registered svcs (md_RelayEcho reqs rsps) (RelayEcho env (md_Echo reqs rsps))"
    and ch: "cm_GetRpcChannel (ascii ''127.0.0.1'') 6699 (w_conn w) = Ok (None, conn1)" "link_up src conn1"
  shows "\<exists>w' q. HandleEvent 1 env svcs (DataArrival p) w = Ok w' \<and> winv w' \<and> w_conn w' = posted q conn1
        \<and> is_response q src (md_RelayEcho reqs rsps) srcId (ascii ''GetRpcChannel Fail'') (Some (msg req @ ascii '' ---- inner rpc call server not exist''))"
proof -
  let ?md = "md_RelayEcho reqs rsps"
  let ?func = "serve env ?md (RelayEcho env (md_Echo reqs rsps)) req src srcId :: 'g prog"
  note start = relay_starts [OF w env p svc]
  let ?ctl = "SetFailed (ascii ''GetRpcChannel Fail'') RpcController_new" and ?rsp = "Some (msg req @ ascii '' ---- inner rpc call server not exist'')"
  have fits: "fits_str (ctl_errorText ?ctl)" "codec_sized (md_rsp ?md) ?rsp"
    using start(1) by (simp_all add: fits_str_def ascii_def small_sized [OF env(3)])
  obtain c r w1 w2 where w2: "CreateCoro (\<lambda>_. ?func) 0 w = Ok (c, w1)" "Coro_Resume (Suc 0) VNil c w1 = Ok (None, w2)" "winv w2"
    "view w1 = v_Create c r (\<lambda>_. ?func) 0 (view w)"
    "view w2 = v_exec c (awake_coro VNil (created (w_maxCoroId w + 1) r (\<lambda>_. ?func) 0)) ?func (view w1)"
    using spawn_ok [OF w(1,2), of "\<lambda>_. ?func" 0 0, OF start(2)] by (elim exE conjE)
  let ?o1 = "awake_coro VNil (created (w_maxCoroId w + 1) r (\<lambda>_. ?func) 0)"
  let ?v = "(view w1)\<lparr>v_coro := (v_coro (view w1))(c \<mapsto> ?o1), v_dl := (v_dl (view w1))(c := None)\<rparr>"
  let ?v1 = "?v\<lparr>v_conn := conn1, v_info := v_info ?v @ [(''GetRpcChannel Fail'', [])]\<rparr>"
  have "v_conn ?v = w_conn w" unfolding w2(4) by (simp add: v_Create_def Let_def)
  then have ex: "exec ?func c (coro.truncate ?o1) ?v = exec (OnRpcDone env ?md ?ctl ?rsp src srcId Finish) c (coro.truncate ?o1) ?v1"
    using ch(1) by (simp add: serve_relay)
  have "link_up src (v_conn ?v1)" using ch(2) by simp
  from exec_OnRpcDone [OF env(1) fits this, of srcId c "coro.truncate ?o1"]
  obtain q where q: "is_response q src ?md srcId (ctl_errorText ?ctl) ?rsp"
    "exec (OnRpcDone env ?md ?ctl ?rsp src srcId Finish) c (coro.truncate ?o1) ?v1 = (None, ?v1\<lparr>v_conn := posted q (v_conn ?v1)\<rparr>)" by blast
  have "v_conn (view w2) = posted q conn1" unfolding w2(5) v_exec_def ex q(2) by (simp add: settle_def)
  then show ?thesis
    using start(3) [OF w2(1,2)] recycle_packet_ok(1) [OF w2(3)] q(1)
    by (intro exI [of _ "recycle_packet w2"] exI [of _ q]) (simp add: recycle_packet_def)
qed

text \<open>The inner call ends with a response, or is cancelled.\<close>

lemma relay_response:
  assumes w: "winv w" "awaiting (view w) c coroId env (md_Echo reqs rsps) (relay_done env reqs rsps src srcId) dl" "is_int coroId"
    and env: "env_ok env" "small_codec rsps" and link: "link_up src (w_conn w)"
    and q: "subscribed (w_conn w)" "link_up (pk_sessionId q) (w_conn w)" "is_response q (pk_sessionId q) (md_Echo reqs rsps) coroId errText m"
      "codec_fits rsps m" "length (pk_data q) + 8192 \<le> 2 ^ 31"
  shows "\<exists>w' r. HandleEvent 1 env svcs (DataArrival q) w = Ok w' \<and> winv w' \<and> w_conn w' = posted r (w_conn w)
        \<and> is_response r src (md_RelayEcho reqs rsps) srcId errText (Some (msg m)) \<and> GetCoro coroId w' = None"
proof -
  let ?q = "q\<lparr>pk_recverSvcId := service_id (w_conn w)\<rparr>" and ?reason = "if errText = [] then None else Some errText"
  have pk: "pk_ok ?q" "pk_data ?q = rsp_data (md_Echo reqs rsps) coroId errText m" "length (pk_data ?q) + 8192 \<le> 2 ^ 31"
    "codec_fits (md_rsp (md_Echo reqs rsps)) m" "pk_recverSvcId q = 0" "pk_opcode q = RpcRsp"
    using q(3-5) by (simp_all add: is_response_def)
  obtain w1 o2 where w1: "HandleRpcRsp (Suc 0) env ?q w = Ok w1" "winv w1" "co_id o2 = coroId"
    "view w1 = v_exec c o2 (relay_done env reqs rsps src srcId ?reason (Some m)) (view w)"
    using rsp_arrives [OF w(1,2) env(1) w(3) pk(1-4), of 0] by blast
  have "result_ok (md_Echo reqs rsps) ?reason (Some m)"
  proof -
    have "length errText + length (cd_ser rsps m) + 8192 \<le> 2 ^ 31" using pk(2,3) by (simp add: rsp_data_def)
    then show ?thesis using q(4) by (auto simp: result_ok_def codec_fits_def intro!: exI [of _ "cd_ser rsps m"])
  qed
  from v_exec_relay_done [OF env this, of src "view w" srcId c o2] link obtain r where
    r: "is_response r src (md_RelayEcho reqs rsps) srcId errText (Some (msg m))"
    "v_conn (view w1) = posted r (w_conn w)" "v_live (view w1) coroId = None"
    unfolding w1(4) [symmetric] using w1(3) by (auto split: if_splits)
  have "HandleEvent 1 env svcs (DataArrival q) w = Ok (recycle_packet w1)"
    using event_dispatch(2) [OF q(1,2) pk(5,6), of 1 env svcs] w1(1) by simp
  then show ?thesis
    using r recycle_packet_ok(1) [OF w1(2)] by (intro exI [of _ "recycle_packet w1"] exI [of _ r]) (simp add: recycle_packet_def GetCoro_def)
qed

lemma relay_cancelled:
  assumes w: "winv w" "awaiting (view w) c coroId env (md_Echo reqs rsps) (relay_done env reqs rsps src srcId) dl"
    and env: "env_ok env" "small_codec rsps" and link: "link_up src (w_conn w)"
  shows "\<exists>w' r. mgr_Cancel 1 coroId w = Ok (None, w') \<and> winv w' \<and> w_conn w' = posted r (w_conn w)
        \<and> is_response r src (md_RelayEcho reqs rsps) srcId (ascii ''Coro cancelled'') (Some []) \<and> GetCoro coroId w' = None"
proof -
  obtain w' o2 where w': "mgr_Cancel (Suc 0) coroId w = Ok (None, w')" "winv w'" "co_id o2 = coroId"
    "view w' = v_exec c o2 (relay_done env reqs rsps src srcId (Some (ascii ''Coro cancelled'')) None) (view w)"
    using cancel_ends_call [OF w(1,2)] by blast
  have "result_ok (md_Echo reqs rsps) (Some (ascii ''Coro cancelled'')) None" by (simp add: result_ok_def ascii_def)
  from v_exec_relay_done [OF env this, of src "view w" srcId c o2] link obtain r where
    "is_response r src (md_RelayEcho reqs rsps) srcId (ascii ''Coro cancelled'') (Some [])"
    "v_conn (view w') = posted r (w_conn w)" "v_live (view w') coroId = None"
    unfolding w'(4) [symmetric] using w'(3) by auto
  then show ?thesis using w'(1,2) by (auto simp: GetCoro_def)
qed

section \<open>Properties\<close>

text \<open>C18: a relayed request. When the connection manager gives the server a channel to the next server, the server sends it one
\<open>Echo\<close> request, with the message marked as relayed and with the id of the new coroutine, and the coroutine waits, to answer the
requester when the inner call has ended. When there is no channel, the server answers at once: with the error
"GetRpcChannel Fail" and the request's message with a remark.\<close>

theorem relay_request:
  fixes w :: "'g world" and svcs :: "(echo_msg, 'g) services"
  assumes w: "winv w" "w_maxCoroId w < 2 ^ 31 - 1" "subscribed (w_conn w)" "link_up src (w_conn w)"
    and env: "env_ok env" "small_codec reqs" "small_codec rsps"
    and p: "is_request p src (md_RelayEcho reqs rsps) srcId req" "codec_fits reqs req" "is_int srcId" "length (pk_data p) + 8192 \<le> 2 ^ 31"
    and svc: "registered svcs (md_RelayEcho reqs rsps) (RelayEcho env (md_Echo reqs rsps))"
    and ch: "cm_GetRpcChannel (ascii ''127.0.0.1'') 6699 (w_conn w) = Ok (channel, conn1)" "link_up src conn1"
  shows "(\<forall>sid. channel = Some sid \<and> link_up sid conn1 \<longrightarrow> (\<exists>w' q c. HandleEvent 1 env svcs (DataArrival p) w = Ok w' \<and> winv w'
        \<and> is_request q sid (md_Echo reqs rsps) (w_maxCoroId w + 1) (Some (ascii ''Relay Call >>>>>>'' @ msg req)) \<and> w_conn w' = posted q conn1
        \<and> awaiting (view w') c (w_maxCoroId w + 1) env (md_Echo reqs rsps) (relay_done env reqs rsps src srcId) (ts_now w + CoroTimeoutTime)))
    \<and> (channel = None \<longrightarrow> (\<exists>w' q. HandleEvent 1 env svcs (DataArrival p) w = Ok w' \<and> winv w' \<and> w_conn w' = posted q conn1
        \<and> is_response q src (md_RelayEcho reqs rsps) srcId (ascii ''GetRpcChannel Fail'') (Some (msg req @ ascii '' ---- inner rpc call server not exist''))))"
proof (intro conjI allI impI)
  fix sid assume "channel = Some sid \<and> link_up sid conn1"
  then show "\<exists>w' q c. HandleEvent 1 env svcs (DataArrival p) w = Ok w' \<and> winv w'
        \<and> is_request q sid (md_Echo reqs rsps) (w_maxCoroId w + 1) (Some (ascii ''Relay Call >>>>>>'' @ msg req)) \<and> w_conn w' = posted q conn1
        \<and> awaiting (view w') c (w_maxCoroId w + 1) env (md_Echo reqs rsps) (relay_done env reqs rsps src srcId) (ts_now w + CoroTimeoutTime)"
    using relay_forwards [OF w env p svc, of sid conn1] ch(1) by blast
next
  assume "channel = None"
  then show "\<exists>w' q. HandleEvent 1 env svcs (DataArrival p) w = Ok w' \<and> winv w' \<and> w_conn w' = posted q conn1
        \<and> is_response q src (md_RelayEcho reqs rsps) srcId (ascii ''GetRpcChannel Fail'') (Some (msg req @ ascii '' ---- inner rpc call server not exist''))"
    using relay_refused [OF w env p svc, of conn1] ch by blast
qed

definition relay_demo :: "client_vars world" where
  "relay_demo = world_init 0 client_init (ConnMgr_new\<lparr>cm_svc := Some (demo_svc\<lparr>sv_connect := [2]\<rparr>)\<rparr>)"

abbreviation demo_reqs :: "echo_msg codec" where "demo_reqs \<equiv> demo_string_codec 10"
abbreviation demo_rsps :: "echo_msg codec" where "demo_rsps \<equiv> demo_string_codec 18"

lemma relay_demo_ok:
  "winv relay_demo" "w_maxCoroId relay_demo = 0" "subscribed (w_conn relay_demo)" "link_up 1 (w_conn relay_demo)" "ts_now relay_demo = 0"
  "\<exists>conn1. cm_GetRpcChannel (ascii ''127.0.0.1'') 6699 (w_conn relay_demo) = Ok (Some 2, conn1) \<and> link_up 1 conn1 \<and> link_up 2 conn1"
proof -
  show "winv relay_demo" unfolding relay_demo_def by (rule winv_init) simp
qed (simp_all add: relay_demo_def world_init_def tstate.defs ts_init_def subscribed_def link_up_def demo_svc_def RpcReq_def RpcRsp_def
    cm_GetRpcChannel_def ConnMgr_new_def Let_def sv_Connect_def poller_result_def AddReadySession_def)

theorem relay_request_witness:
  "\<exists>p w' q c. is_request p 1 (md_RelayEcho demo_reqs demo_rsps) 5 (Some [104])
     \<and> HandleEvent 1 demo_rpc_env (AddService EchoService (echo_methods demo_rpc_env demo_reqs demo_rsps demo_reqs demo_reqs) Map.empty) (DataArrival p) relay_demo = Ok w'
     \<and> is_request q 2 (md_Echo demo_reqs demo_rsps) 1 (Some (ascii ''Relay Call >>>>>>'' @ [104]))
     \<and> awaiting (view w') c 1 demo_rpc_env (md_Echo demo_reqs demo_rsps) (relay_done demo_rpc_env demo_reqs demo_rsps 1 5) CoroTimeoutTime"
proof -
  let ?md = "md_RelayEcho demo_reqs demo_rsps"
  have fits: "codec_fits demo_reqs (Some [104])" by (simp add: demo_string_codec)
  from fits have "codec_fits (md_req ?md) (Some [104])" by simp
  from req_packet_is_request [OF demo_ok(1) echo_methods_ok(2) this, of 1 5] obtain p where p: "is_request p 1 ?md 5 (Some [104])" by auto
  have q: "is_int 5" "length (pk_data p) + 8192 \<le> 2 ^ 31"
    using p by (simp_all add: is_request_def is_int_def req_data_def) (simp add: md_RelayEcho_def EchoService_def ascii_def demo_string_codec_def)
  obtain conn1 where ch: "cm_GetRpcChannel (ascii ''127.0.0.1'') 6699 (w_conn relay_demo) = Ok (Some 2, conn1)" "link_up 1 conn1" "link_up 2 conn1"
    using relay_demo_ok(6) by blast
  have max: "w_maxCoroId relay_demo < 2 ^ 31 - 1" by (simp add: relay_demo_ok)
  show ?thesis
    using relay_request [OF relay_demo_ok(1) max relay_demo_ok(3,4) demo_ok(1) demo_string_codec(1,1) p fits q echo_registered(2) [OF refl] ch(1,2)] p ch(3)
    by (fastforce simp: relay_demo_ok)
qed


lemma relay_done_good:
  assumes "env_ok env" "small_codec rsps" "result_ok (md_Echo reqs rsps) reason rsp"
  shows "good (relay_done env reqs rsps src srcId reason rsp) True c"
  unfolding relay_done_def
  by (rule relay_rest_good [OF _ assms(3)]) (use assms(1,2) in \<open>auto intro!: plain_OnRpcDone(2) simp: small_sized\<close>)


end
