(* ===== verification/Proto_Wire.thy ===== *)
theory Proto_Wire
  imports Prelude
begin

text \<open>
  The wire format that the messages of the RPC layer are written in: the integer coding of the bundled
  protobuf library (protobuf-3.20.0/src/google/protobuf, files io/coded_stream.h, io/coded_stream.cc,
  parse_context.h, parse_context.cc, wire_format_lite.h and stubs/port.h).

  Bytes are read from a flat buffer, a list; reading beyond it is a fault. Pointers into the buffer are indices, and a
  null pointer is \<open>None\<close>. What is written is the list of the bytes. The templates are polymorphic in the width
  of the word; they are used at 32 and 64 bits.
\<close>

unbundle bit_operations_syntax

section \<open>Writing\<close>

text \<open>\<open>value >>= 7\<close>\<close>

definition shr7 :: "'a::len word \<Rightarrow> 'a word" where
  "shr7 v = drop_bit 7 v"

lemma unat_shr7 [simp]: "unat (shr7 v) = unat v div 128"
  for v :: "'a::len word"
  unfolding shr7_def unsigned_drop_bit_eq by (simp add: drop_bit_eq_div take_bit_nat_eq_self [OF unsigned_less])

text \<open>\<open>EpsCopyOutputStream::UnsafeVarint\<close> sets the continuation bit of a byte after it has been written.\<close>

function varint_loop :: "byte \<Rightarrow> 'a::len word \<Rightarrow> byte list" where
  "varint_loop prev value = (prev OR 0x80) # (let value1 = shr7 value; b = ucast value1 in
     if 0x80 \<le> unat value1 then varint_loop b value1 else [b])"
  by auto
termination
  by (relation "measure (\<lambda>(_, v). unat v)") auto

declare varint_loop.simps [simp del]

definition UnsafeVarint :: "'a::len word \<Rightarrow> byte list" where
  "UnsafeVarint value = (let b0 = ucast value in
     if unat value < 0x80 then [b0]
     else let value1 = shr7 value; b1 = ucast value1 in
       if unat value1 < 0x80 then [b0 OR 0x80, b1]
       else (b0 OR 0x80) # varint_loop b1 value1)"

text \<open>\<open>EpsCopyOutputStream::UnsafeWriteSize\<close> and \<open>WriteVarint\<close> of parse_context.cc have the same loop, for 32 and 64 bits.\<close>

function UnsafeWriteSize :: "'a::len word \<Rightarrow> byte list" where
  "UnsafeWriteSize value = (if 0x80 \<le> unat value then ucast (value OR 0x80) # UnsafeWriteSize (shr7 value) else [ucast value])"
  by auto
termination
  by (relation "measure unat") auto

declare UnsafeWriteSize.simps [simp del]

definition WriteVarint :: "64 word \<Rightarrow> byte list" where
  "WriteVarint val = UnsafeWriteSize val"

section \<open>Reading with \<open>ParseContext\<close>\<close>

definition byte_at :: "byte list \<Rightarrow> nat \<Rightarrow> byte outcome" where
  "byte_at p i = (if i < length p then Ok (p ! i) else Fault OutOfBounds)"

text \<open>The loop that \<open>VarintParseSlow32\<close>, \<open>VarintParseSlow64\<close>, \<open>ReadTagFallback\<close> and \<open>ReadSizeFallback\<close> share: add the byte,
and take back the continuation bit of the byte before.\<close>

function slow_loop :: "nat \<Rightarrow> byte list \<Rightarrow> nat \<Rightarrow> 'a::len word \<Rightarrow> ('a word + nat \<times> 'a word) outcome" where
  "slow_loop bound p i res = (if i < bound then
       obind (byte_at p i) (\<lambda>b. let res1 = res + push_bit (7 * i) (ucast b - 1) in
         if b < 128 then Ok (Inr (i + 1, res1)) else slow_loop bound p (i + 1) res1)
     else Ok (Inl res))"
  by auto
termination
  by (relation "measure (\<lambda>(bound, _, i, _). bound - i)") auto

text \<open>Bytes of a varint that has more than 32 bits.\<close>

function skip_loop :: "nat \<Rightarrow> byte list \<Rightarrow> nat \<Rightarrow> nat option outcome" where
  "skip_loop bound p i = (if i < bound then
       obind (byte_at p i) (\<lambda>b. if b < 128 then Ok (Some (i + 1)) else skip_loop bound p (i + 1))
     else Ok None)"
  by auto
termination
  by (relation "measure (\<lambda>(bound, _, i). bound - i)") auto

declare slow_loop.simps [simp del] skip_loop.simps [simp del]

definition VarintParseSlow32 :: "byte list \<Rightarrow> 32 word \<Rightarrow> (nat \<times> 32 word) option outcome" where
  "VarintParseSlow32 p res = obind (slow_loop 5 p 2 res) (\<lambda>r. case r of
       Inr out \<Rightarrow> Ok (Some out)
     | Inl res1 \<Rightarrow> obind (skip_loop 10 p 5) (\<lambda>q. Ok (map_option (\<lambda>n. (n, res1)) q)))"

definition VarintParseSlow64 :: "byte list \<Rightarrow> 32 word \<Rightarrow> (nat \<times> 64 word) option outcome" where
  "VarintParseSlow64 p res32 = obind (slow_loop 10 p 2 (ucast res32)) (\<lambda>r. Ok (case r of Inr out \<Rightarrow> Some out | Inl _ \<Rightarrow> None))"

definition VarintParse32 :: "byte list \<Rightarrow> (nat \<times> 32 word) option outcome" where
  "VarintParse32 p = obind (byte_at p 0) (\<lambda>b0. let res = ucast b0 :: 32 word in
     if \<not> bit res 7 then Ok (Some (1, res))
     else obind (byte_at p 1) (\<lambda>b1. let byte = ucast b1; res1 = res + push_bit 7 (byte - 1) in
       if \<not> bit byte 7 then Ok (Some (2, res1)) else VarintParseSlow32 p res1))"

definition VarintParse64 :: "byte list \<Rightarrow> (nat \<times> 64 word) option outcome" where
  "VarintParse64 p = obind (byte_at p 0) (\<lambda>b0. let res = ucast b0 :: 32 word in
     if \<not> bit res 7 then Ok (Some (1, ucast res))
     else obind (byte_at p 1) (\<lambda>b1. let byte = ucast b1; res1 = res + push_bit 7 (byte - 1) in
       if \<not> bit byte 7 then Ok (Some (2, ucast res1)) else VarintParseSlow64 p res1))"

definition ReadTagFallback :: "byte list \<Rightarrow> 32 word \<Rightarrow> (nat \<times> 32 word) option outcome" where
  "ReadTagFallback p res = obind (slow_loop 5 p 2 res) (\<lambda>r. Ok (case r of Inr out \<Rightarrow> Some out | Inl _ \<Rightarrow> None))"

definition ReadTag :: "byte list \<Rightarrow> (nat \<times> 32 word) option outcome" where
  "ReadTag p = obind (byte_at p 0) (\<lambda>b0. let res = ucast b0 :: 32 word in
     if res < 128 then Ok (Some (1, res))
     else obind (byte_at p 1) (\<lambda>b1. let second = ucast b1; res1 = res + push_bit 7 (second - 1) in
       if second < 128 then Ok (Some (2, res1)) else ReadTagFallback p res1))"

text \<open>Sizes have 31 bits, and stay \<open>kSlopBytes\<close> = 16 below the largest \<open>int\<close>.\<close>

definition ReadSizeFallback :: "byte list \<Rightarrow> 32 word \<Rightarrow> (nat \<times> 32 word) option outcome" where
  "ReadSizeFallback p res = obind (slow_loop 4 p 1 res) (\<lambda>r. case r of
       Inr out \<Rightarrow> Ok (Some out)
     | Inl res1 \<Rightarrow> obind (byte_at p 4) (\<lambda>b.
         if b \<ge> 8 then Ok None
         else let res2 = res1 + push_bit 28 (ucast b - 1) in
           if res2 > 0x7FFFFFFF - 16 then Ok None else Ok (Some (5, res2))))"

definition ReadSize :: "byte list \<Rightarrow> (nat \<times> 32 word) option outcome" where
  "ReadSize p = obind (byte_at p 0) (\<lambda>b0. let res = ucast b0 :: 32 word in
     if res < 128 then Ok (Some (1, res)) else ReadSizeFallback p res)"

section \<open>Reading with \<open>CodedInputStream\<close>\<close>

definition kMaxVarintBytes :: nat where
  "kMaxVarintBytes = 10"

text \<open>\<open>DecodeVarint64KnownSize<N>\<close>\<close>

definition DecodeVarint64KnownSize :: "nat \<Rightarrow> byte list \<Rightarrow> (nat \<times> 64 word) outcome" where
  "DecodeVarint64KnownSize N buffer = obind (byte_at buffer (N - 1)) (\<lambda>b.
     Ok (N, fold (\<lambda>i result. result + push_bit (7 * i) (word_of_int (uint (buffer ! i) - 0x80)))
              [0..<N - 1] (push_bit (7 * (N - 1)) (ucast b))))"

text \<open>The cascade of tests on the bytes 1 to 9.\<close>

function from_array_loop :: "byte list \<Rightarrow> nat \<Rightarrow> (nat \<times> 64 word) option outcome" where
  "from_array_loop buffer i = (if i < 10 then
       obind (byte_at buffer i) (\<lambda>b. if b < 128 then obind (DecodeVarint64KnownSize (i + 1) buffer) (\<lambda>r. Ok (Some r)) else from_array_loop buffer (i + 1))
     else Ok None)"
  by auto
termination
  by (relation "measure (\<lambda>(_, i). 10 - i)") auto

declare from_array_loop.simps [simp del]

definition ReadVarint64FromArray :: "byte list \<Rightarrow> (nat \<times> 64 word) option outcome" where
  "ReadVarint64FromArray buffer = from_array_loop buffer 1"

text \<open>\<open>ReadVarint64Slow\<close>. A flat buffer cannot be refreshed.\<close>

function varint64_slow :: "byte list \<Rightarrow> nat \<Rightarrow> 64 word \<Rightarrow> (nat \<times> 64 word) option" where
  "varint64_slow buffer n result =
     (if n \<ge> kMaxVarintBytes then None
      else if n \<ge> length buffer then None
      else let b = buffer ! n; result1 = result OR push_bit (7 * n) (ucast (b AND 0x7F)) in
        if bit b 7 then varint64_slow buffer (n + 1) result1 else Some (n + 1, result1))"
  by auto
termination
  by (relation "measure (\<lambda>(_, n, _). kMaxVarintBytes - n)") auto

declare varint64_slow.simps [simp del]

definition ReadVarint64Slow :: "byte list \<Rightarrow> (nat \<times> 64 word) option" where
  "ReadVarint64Slow buffer = varint64_slow buffer 0 0"

text \<open>The checks are skipped if ten bytes are left or the last byte ends a varint.\<close>

definition skips_checks :: "byte list \<Rightarrow> bool" where
  "skips_checks buffer \<longleftrightarrow> length buffer \<ge> kMaxVarintBytes \<or> (buffer \<noteq> [] \<and> \<not> bit (last buffer) 7)"

definition ReadVarint64Fallback :: "byte list \<Rightarrow> (nat \<times> 64 word) option outcome" where
  "ReadVarint64Fallback buffer = (if skips_checks buffer then ReadVarint64FromArray buffer else Ok (ReadVarint64Slow buffer))"

definition ReadVarint64 :: "byte list \<Rightarrow> (nat \<times> 64 word) option outcome" where
  "ReadVarint64 buffer = (if buffer \<noteq> [] \<and> hd buffer < 0x80 then Ok (Some (1, ucast (hd buffer))) else ReadVarint64Fallback buffer)"

text \<open>\<open>ReadVarint32FromArray\<close>, which adds the bytes 1 to 4 and skips the others.\<close>

function array32_loop :: "byte list \<Rightarrow> nat \<Rightarrow> 32 word \<Rightarrow> (nat \<times> 32 word) option outcome" where
  "array32_loop buffer i result = (if i < 5 then
       obind (byte_at buffer i) (\<lambda>b. let result1 = result + push_bit (7 * i) (ucast b) in
         if \<not> bit b 7 then Ok (Some (i + 1, result1))
         else array32_loop buffer (i + 1) (if i < 4 then result1 - push_bit (7 * i) 0x80 else result1))
     else obind (skip_loop 10 buffer i) (\<lambda>q. Ok (map_option (\<lambda>n. (n, result)) q)))"
  by auto
termination
  by (relation "measure (\<lambda>(_, i, _). 5 - i)") auto

declare array32_loop.simps [simp del]

definition ReadVarint32FromArray :: "32 word \<Rightarrow> byte list \<Rightarrow> (nat \<times> 32 word) option outcome" where
  "ReadVarint32FromArray first_byte buffer = array32_loop buffer 1 (first_byte - 0x80)"

definition ReadVarint32Slow :: "byte list \<Rightarrow> (nat \<times> 32 word) option outcome" where
  "ReadVarint32Slow buffer = obind (ReadVarint64Fallback buffer) (\<lambda>r. Ok (map_option (\<lambda>(n, v). (n, ucast v)) r))"

definition ReadVarint32Fallback :: "32 word \<Rightarrow> byte list \<Rightarrow> (nat \<times> 32 word) option outcome" where
  "ReadVarint32Fallback first_byte_or_zero buffer =
     (if skips_checks buffer then ReadVarint32FromArray first_byte_or_zero buffer else ReadVarint32Slow buffer)"

definition ReadVarint32 :: "byte list \<Rightarrow> (nat \<times> 32 word) option outcome" where
  "ReadVarint32 buffer =
     (if buffer \<noteq> [] \<and> hd buffer < 0x80 then Ok (Some (1, ucast (hd buffer)))
      else ReadVarint32Fallback (if buffer \<noteq> [] then ucast (hd buffer) else 0) buffer)"

text \<open>\<open>ReadVarintSizeAsInt\<close>: the result is negative for a failure, here \<open>None\<close>.\<close>

definition ReadVarintSizeAsIntFallback :: "byte list \<Rightarrow> (nat \<times> int) option outcome" where
  "ReadVarintSizeAsIntFallback buffer =
     obind (if skips_checks buffer then ReadVarint64FromArray buffer else ReadVarint64Fallback buffer) (\<lambda>r.
       Ok (case r of None \<Rightarrow> None | Some (n, v) \<Rightarrow> if v > 0x7FFFFFFF then None else Some (n, uint v)))"

definition ReadVarintSizeAsInt :: "byte list \<Rightarrow> (nat \<times> int) option outcome" where
  "ReadVarintSizeAsInt buffer = (if buffer \<noteq> [] \<and> hd buffer < 0x80 then Ok (Some (1, uint (hd buffer))) else ReadVarintSizeAsIntFallback buffer)"

section \<open>The format\<close>

text \<open>The format itself, on numbers: seven bits per byte, least significant first, and the eighth bit set in
all bytes but the last.\<close>

fun varint_bytes :: "nat \<Rightarrow> byte list" where
  "varint_bytes n = (if n < 128 then [of_nat n] else of_nat (n mod 128 + 128) # varint_bytes (n div 128))"

declare varint_bytes.simps [simp del]

primrec varint_len :: "byte list \<Rightarrow> nat option" where
  "varint_len [] = None"
| "varint_len (b # bs) = (if b < 128 then Some 1 else map_option Suc (varint_len bs))"

primrec payload :: "byte list \<Rightarrow> nat" where
  "payload [] = 0"
| "payload (b # bs) = unat b mod 128 + 128 * payload bs"

text \<open>What a reader has to return: the number of bytes read and the value, truncated to the width.\<close>

definition varint_ref :: "byte list \<Rightarrow> (nat \<times> 'a::len word) option" where
  "varint_ref p = map_option (\<lambda>n. (n, of_nat (payload (take n p)))) (varint_len (take 10 p))"

lemma byte_less: "(b :: byte) < 128 \<longleftrightarrow> unat b < 128"
  by (simp add: word_less_nat_alt)

lemma byte_bit: "bit (b :: byte) 7 \<longleftrightarrow> \<not> b < 128"
proof -
  have n: "unat b < 256" using unsigned_less [of b] by simp
  have "odd (unat b div 128) \<longleftrightarrow> 128 \<le> unat b"
  proof (cases "unat b < 128")
    case False
    then have "unat b div 128 = 1" using n by (intro div_nat_eqI) auto
    then show ?thesis using False by simp
  qed simp
  moreover have "bit b 7 \<longleftrightarrow> bit (unat b) 7" by (simp only: bit_unsigned_iff) simp
  ultimately show ?thesis by (auto simp: word_less_nat_alt bit_iff_odd_drop_bit drop_bit_nat_def)
qed

lemma byte_mod: "128 \<le> unat (b :: byte) \<Longrightarrow> unat b = unat b mod 128 + 128"
proof -
  assume a: "128 \<le> unat b"
  have "unat b < 256" using unsigned_less [of b] by simp
  then have "unat b - 128 < 128" by simp
  then show ?thesis using a le_mod_geq [OF a] by (simp add: mod_less)
qed

lemma bit128:
  "bit (128 :: nat) n \<longleftrightarrow> n = 7" "bit (128 :: int) n \<longleftrightarrow> n = 7" "bit (128 :: 'b::len word) n \<longleftrightarrow> n = 7 \<and> n < LENGTH('b)"
  using bit_exp_iff [where 'a = int, of 7 n] bit_exp_iff [where 'a = nat, of 7 n] bit_exp_iff [where 'a = "'b word", of 7 n]
  by (auto simp: possible_bit_def possible_bit_word)

lemma or80_nat: "(n :: nat) mod 128 + 128 = take_bit 7 n OR 128"
proof -
  have "take_bit 7 n + 128 = take_bit 7 n OR 128"
    by (rule disjunctive_add) (auto simp: bit_take_bit_iff bit128)
  then show ?thesis by (simp add: take_bit_eq_mod)
qed

lemma or80:
  fixes v :: "'a::len word"
  assumes l: "8 \<le> LENGTH('a)"
  shows "(ucast (v OR 0x80) :: byte) = of_nat (unat v mod 128 + 128)" "(ucast v :: byte) OR 0x80 = of_nat (unat v mod 128 + 128)"
proof -
  have e: "i < 7" if "i < 8" "i \<noteq> 7" for i :: nat using that by simp
  show "(ucast (v OR 0x80) :: byte) = of_nat (unat v mod 128 + 128)" unfolding or80_nat
    by (rule bit_word_eqI) (use l in \<open>auto simp: bit_simps bit128 e\<close>)
  show "(ucast v :: byte) OR 0x80 = of_nat (unat v mod 128 + 128)" unfolding or80_nat
    by (rule bit_word_eqI) (use l in \<open>auto simp: bit_simps bit128 e\<close>)
qed

subsection \<open>The writers\<close>

lemma varint_bytes_simps [simp]:
  "n < 128 \<Longrightarrow> varint_bytes n = [of_nat n]"
  "\<not> n < 128 \<Longrightarrow> varint_bytes n = of_nat (n mod 128 + 128) # varint_bytes (n div 128)"
  by (simp_all add: varint_bytes.simps [of n])

lemma ucast_shr7: "(ucast (shr7 v) :: byte) = of_nat (unat v div 128)"
  by (simp flip: unat_shr7)

lemma UnsafeWriteSize_bytes: "8 \<le> LENGTH('a) \<Longrightarrow> UnsafeWriteSize v = varint_bytes (unat v)"
  for v :: "'a::len word"
proof (induction v rule: UnsafeWriteSize.induct)
  case (1 v)
  then show ?case
    by (subst UnsafeWriteSize.simps) (auto simp: or80 simp del: of_nat_add)
qed

lemma varint_loop_bytes:
  "8 \<le> LENGTH('a) \<Longrightarrow> varint_loop (ucast v) v = of_nat (unat v mod 128 + 128) # varint_bytes (unat v div 128)"
  for v :: "'a::len word"
proof (induction v rule: measure_induct_rule [where f = unat])
  case (less v)
  have "varint_loop (ucast (shr7 v)) (shr7 v) = of_nat (unat v div 128 mod 128 + 128) # varint_bytes (unat v div 128 div 128)"
    if "128 \<le> unat v div 128"
    using less.IH [of "shr7 v"] less.prems that by simp
  then show ?case
    using less.prems by (subst varint_loop.simps) (auto simp: or80 ucast_shr7 Let_def simp del: of_nat_add)
qed

lemma UnsafeVarint_bytes: "8 \<le> LENGTH('a) \<Longrightarrow> UnsafeVarint v = varint_bytes (unat v)"
  for v :: "'a::len word"
  using varint_loop_bytes [of "shr7 v"]
  by (auto simp: UnsafeVarint_def Let_def or80 ucast_shr7 simp del: of_nat_add)

lemma varint_len_bytes: "varint_len (varint_bytes n @ rest) = Some (length (varint_bytes n))"
proof (induction n rule: varint_bytes.induct)
  case (1 n)
  have "\<not> (of_nat (n mod 128 + 128) :: byte) < 128" by (simp add: byte_less unsigned_of_nat take_bit_nat_eq_self del: of_nat_add)
  moreover have "(of_nat n :: byte) < 128" if "n < 128" using that by (simp add: byte_less unsigned_of_nat take_bit_nat_eq_self)
  ultimately show ?case using 1 by (cases "n < 128") (simp_all del: of_nat_add)
qed

lemma payload_bytes: "payload (varint_bytes n) = n"
proof (induction n rule: varint_bytes.induct)
  case (1 n)
  have "unat (of_nat (n mod 128 + 128) :: byte) mod 128 = n mod 128" by (simp add: unsigned_of_nat take_bit_nat_eq_self del: of_nat_add)
  moreover have "unat (of_nat n :: byte) = n" if "n < 128" using that by (simp add: unsigned_of_nat take_bit_nat_eq_self)
  ultimately show ?case using 1 by (cases "n < 128") (simp_all del: of_nat_add)
qed

subsection \<open>The readers\<close>

lemma varint_len_append:
  "varint_len (xs @ ys) = (case varint_len xs of Some n \<Rightarrow> Some n | None \<Rightarrow> map_option (\<lambda>n. length xs + n) (varint_len ys))"
  by (cases "varint_len ys"; induction xs) (auto split: option.splits)

lemma payload_append: "payload (xs @ ys) = payload xs + 128 ^ length xs * payload ys"
  by (induction xs) (simp_all add: algebra_simps)

lemma varint_len_le: "varint_len xs = Some n \<Longrightarrow> 0 < n \<and> n \<le> length xs"
  by (induction xs arbitrary: n) (auto split: if_splits)

lemma peek:
  assumes "i < bound" "bound \<le> length p \<or> varint_len (drop i p) \<noteq> None"
  shows "i < length p" "drop i p = p ! i # drop (Suc i) p" "take (bound - i) (drop i p) = p ! i # take (bound - Suc i) (drop (Suc i) p)"
proof -
  show "i < length p" using assms by (cases "i < length p") auto
  then show d: "drop i p = p ! i # drop (Suc i) p" by (simp add: Cons_nth_drop_Suc)
  have "bound - i = Suc (bound - Suc i)" using assms(1) by simp
  then show "take (bound - i) (drop i p) = p ! i # take (bound - Suc i) (drop (Suc i) p)" unfolding d by (simp del: Cons_nth_drop_Suc)
qed

text \<open>The invariant of \<open>slow_loop\<close>: the bits so far, and the continuation bit of the last byte read.\<close>

lemma slow_loop_ref:
  fixes res :: "'a::len word"
  assumes "i \<le> bound" "bound \<le> length p \<or> varint_len (drop i p) \<noteq> None" "res = of_nat acc + 2 ^ (7 * i)"
  shows "slow_loop bound p i res = Ok (case varint_len (take (bound - i) (drop i p)) of
       Some n \<Rightarrow> Inr (i + n, of_nat (acc + 2 ^ (7 * i) * payload (take n (drop i p))))
     | None \<Rightarrow> Inl (of_nat (acc + 2 ^ (7 * i) * payload (take (bound - i) (drop i p))) + 2 ^ (7 * bound)))"
  using assms
proof (induction "bound - i" arbitrary: i acc res)
  case 0
  then show ?case by (subst slow_loop.simps) simp
next
  case (Suc m)
  have i0: "i < bound" using Suc.hyps(2) by simp
  note i = i0 peek(1) [OF i0 Suc.prems(2)] and d = peek(2) [OF i0 Suc.prems(2)] and t = peek(3) [OF i0 Suc.prems(2)]
  let ?b = "p ! i"
  have r: "res + push_bit (7 * i) (ucast ?b - 1) = of_nat (acc + 2 ^ (7 * i) * unat ?b)"
    unfolding Suc.prems(3) by (simp add: push_bit_eq_mult algebra_simps)
  show ?case
  proof (cases "?b < 128")
    case True
    then have "unat ?b mod 128 = unat ?b" by (simp add: byte_less)
    then show ?thesis using i True r t by (subst slow_loop.simps) (simp add: byte_at_def Let_def d)
  next
    case False
    then have b: "unat ?b = unat ?b mod 128 + 128" by (intro byte_mod) (simp add: byte_less)
    have r1: "res + push_bit (7 * i) (ucast ?b - 1) = of_nat (acc + 2 ^ (7 * i) * (unat ?b mod 128)) + 2 ^ (7 * Suc i)"
      unfolding r by (subst b) (simp add: algebra_simps power_add)
    have "slow_loop bound p (Suc i) (res + push_bit (7 * i) (ucast ?b - 1)) = Ok (case varint_len (take (bound - Suc i) (drop (Suc i) p)) of
       Some n \<Rightarrow> Inr (Suc i + n, of_nat (acc + 2 ^ (7 * i) * (unat ?b mod 128) + 2 ^ (7 * Suc i) * payload (take n (drop (Suc i) p))))
     | None \<Rightarrow> Inl (of_nat (acc + 2 ^ (7 * i) * (unat ?b mod 128) + 2 ^ (7 * Suc i) * payload (take (bound - Suc i) (drop (Suc i) p))) + 2 ^ (7 * bound)))"
      by (rule Suc.hyps(1)) (use Suc.hyps(2) Suc.prems(2) i False r1 d in auto)
    then show ?thesis using i False t
      by (subst slow_loop.simps) (simp add: byte_at_def Let_def d algebra_simps power_add split: option.splits)
  qed
qed

lemma skip_loop_ref:
  assumes "i \<le> bound" "bound \<le> length p \<or> varint_len (drop i p) \<noteq> None"
  shows "skip_loop bound p i = Ok (map_option (\<lambda>n. i + n) (varint_len (take (bound - i) (drop i p))))"
  using assms
proof (induction "bound - i" arbitrary: i)
  case 0
  then show ?case by (subst skip_loop.simps) simp
next
  case (Suc m)
  have i0: "i < bound" using Suc.hyps(2) by simp
  note i = i0 peek(1) [OF i0 Suc.prems(2)] and d = peek(2) [OF i0 Suc.prems(2)] and t = peek(3) [OF i0 Suc.prems(2)]
  have "\<not> p ! i < 128 \<Longrightarrow> skip_loop bound p (Suc i) = Ok (map_option (\<lambda>n. Suc i + n) (varint_len (take (bound - Suc i) (drop (Suc i) p))))"
    by (rule Suc.hyps(1)) (use Suc.hyps(2) Suc.prems(2) i d in auto)
  then show ?case using i t by (subst skip_loop.simps) (auto simp: byte_at_def option.map_comp comp_def)
qed

text \<open>A buffer from which a varint can be read without checks: \<open>ParseContext\<close> guarantees ten readable bytes.\<close>

definition readable :: "byte list \<Rightarrow> bool" where
  "readable p \<longleftrightarrow> 10 \<le> length p \<or> varint_len p \<noteq> None"

lemma readable_cases:
  assumes "readable p"
  obtains (one) b p' where "p = b # p'" "b < 128"
    | (more) b c p' where "p = b # c # p'" "\<not> b < 128" "c < 128"
    | (slow) b c p' where "p = b # c # p'" "\<not> b < 128" "\<not> c < 128" "8 \<le> length p' \<or> varint_len p' \<noteq> None"
  using assms unfolding readable_def by (cases p; cases "tl p") (auto split: if_splits)

lemma two_bytes:
  assumes "\<not> (b0 :: byte) < 128"
  shows "ucast b0 + push_bit 7 (ucast b1 - 1) = (of_nat (unat b0 mod 128 + 128 * unat b1) :: 32 word)"
proof -
  have b: "unat b0 = unat b0 mod 128 + 128" using assms by (intro byte_mod) (simp add: byte_less)
  have "ucast b0 = (of_nat (unat b0 mod 128 + 128) :: 32 word)" by (subst b [symmetric]) simp
  then show ?thesis by (simp add: push_bit_eq_mult algebra_simps)
qed

lemma ucast_of_nat32: "n < 2 ^ 32 \<Longrightarrow> (ucast (of_nat n :: 32 word) :: 64 word) = of_nat n"
proof -
  assume "n < 2 ^ 32"
  then have "unat (of_nat n :: 32 word) = n" by (simp add: unsigned_of_nat take_bit_nat_eq_self)
  then show ?thesis by (metis of_nat_unat)
qed

lemma two_bytes_less: "unat (b :: byte) mod 128 + 128 * unat (c :: byte) < 2 ^ 32"
proof -
  have "unat b mod 128 < 128" "unat c < 256" using unsigned_less [of c] by simp_all
  then show ?thesis by simp
qed

lemma low_bits:
  assumes "\<not> (c :: byte) < 128"
  shows "(of_nat (unat b mod 128 + 128 * unat c) :: 'a::len word) = of_nat (unat b mod 128 + 128 * (unat c mod 128)) + 2 ^ (7 * 2)"
proof -
  have c: "unat c = unat c mod 128 + 128" using assms by (intro byte_mod) (simp add: byte_less)
  show ?thesis by (subst c) (simp add: algebra_simps)
qed

text \<open>The specification, for a varint of three bytes or more.\<close>

lemma varint_ref_slow:
  assumes "\<not> b < 128" "\<not> c < 128"
  shows "varint_ref (b # c # p') = (case varint_len (take 8 p') of None \<Rightarrow> None
     | Some n \<Rightarrow> Some (2 + n, of_nat (unat b mod 128 + 128 * (unat c mod 128) + 2 ^ (7 * 2) * payload (take n p'))))"
  using assms by (simp add: varint_ref_def algebra_simps del: of_nat_add split: option.splits)

lemma slow_loop_two:
  fixes res :: "'a::len word"
  assumes "2 \<le> bound" "bound \<le> length p' + 2 \<or> varint_len p' \<noteq> None" "res = of_nat acc + 2 ^ (7 * 2)"
  shows "slow_loop bound (b # c # p') 2 res = Ok (case varint_len (take (bound - 2) p') of
       Some n \<Rightarrow> Inr (2 + n, of_nat (acc + 2 ^ (7 * 2) * payload (take n p')))
     | None \<Rightarrow> Inl (of_nat (acc + 2 ^ (7 * 2) * payload (take (bound - 2) p')) + 2 ^ (7 * bound)))"
proof -
  have d: "drop 2 (b # c # p') = p'" by simp
  have "bound \<le> length (b # c # p') \<or> varint_len (drop 2 (b # c # p')) \<noteq> None" using assms(2) by auto
  from slow_loop_ref [OF assms(1) this assms(3), unfolded d] show ?thesis .
qed

lemma VarintParse64_ref:
  assumes "readable p"
  shows "VarintParse64 p = Ok (varint_ref p)"
  using assms
proof (cases rule: readable_cases)
  case (one b p')
  have "(ucast (ucast b :: 32 word) :: 64 word) = of_nat (unat b mod 128)"
    using one(2) ucast_of_nat32 [of "unat b"] unsigned_less [of b] by (simp add: byte_less)
  then show ?thesis using one by (simp add: VarintParse64_def byte_at_def bit_ucast_iff byte_bit varint_ref_def byte_less)
next
  case (more b c p')
  then show ?thesis
    using two_bytes [OF more(2), of c] ucast_of_nat32 [OF two_bytes_less, of b c]
    by (simp add: VarintParse64_def byte_at_def bit_ucast_iff byte_bit varint_ref_def byte_less Let_def del: of_nat_add)
next
  case (slow b c p')
  let ?acc = "unat b mod 128 + 128 * (unat c mod 128)" and ?res = "of_nat (unat b mod 128 + 128 * unat c) :: 32 word"
  have "(ucast ?res :: 64 word) = of_nat ?acc + 2 ^ (7 * 2)" unfolding ucast_of_nat32 [OF two_bytes_less] by (rule low_bits [OF slow(3)])
  then have "VarintParseSlow64 p ?res = Ok (varint_ref p)"
    unfolding VarintParseSlow64_def slow(1) varint_ref_slow [OF slow(2,3)] using slow(4)
    by (subst slow_loop_two [where acc = ?acc]) (auto split: option.splits)
  moreover have "VarintParse64 p = VarintParseSlow64 p ?res"
    using slow two_bytes [OF slow(2), of c] by (simp add: VarintParse64_def byte_at_def bit_ucast_iff byte_bit Let_def del: of_nat_add)
  ultimately show ?thesis by simp
qed

text \<open>At 32 bits the bytes from the sixth on only count.\<close>

lemma varint_len_take8:
  "varint_len (take 8 p') = (case varint_len (take 3 p') of Some n \<Rightarrow> Some n
     | None \<Rightarrow> map_option (\<lambda>n. length (take 3 p') + n) (varint_len (take 5 (drop 3 p'))))"
proof -
  have "take 8 p' = take 3 p' @ take 5 (drop 3 p')" using take_add [of 3 5 p'] by simp
  then show ?thesis by (simp only: varint_len_append)
qed

lemma high_bits_gone:
  assumes "3 \<le> length p'"
  shows "(of_nat (acc + 2 ^ (7 * 2) * payload (take (3 + n) p')) :: 32 word) = of_nat (acc + 2 ^ (7 * 2) * payload (take 3 p')) + 2 ^ (7 * 5)"
proof -
  have "take (3 + n) p' = take 3 p' @ take n (drop 3 p')" by (rule take_add)
  then have "payload (take (3 + n) p') = payload (take 3 p') + 2 ^ 21 * payload (take n (drop 3 p'))"
    using assms by (simp add: payload_append)
  then have "(of_nat (acc + 2 ^ (7 * 2) * payload (take (3 + n) p')) :: 32 word)
      = of_nat (acc + 2 ^ (7 * 2) * payload (take 3 p')) + 2 ^ (7 * 5) * of_nat (payload (take n (drop 3 p')))"
    by (simp add: algebra_simps)
  moreover have z: "(2 :: 32 word) ^ (7 * 5) = 0" by (simp add: exp_eq_zero_iff)
  ultimately show ?thesis unfolding z by simp
qed

lemma VarintParseSlow32_ref:
  assumes "\<not> b < 128" "\<not> c < 128" "8 \<le> length p' \<or> varint_len p' \<noteq> None"
  shows "VarintParseSlow32 (b # c # p') (of_nat (unat b mod 128 + 128 * unat c)) = Ok (varint_ref (b # c # p'))"
proof -
  let ?p = "b # c # p'" and ?acc = "unat b mod 128 + 128 * (unat c mod 128)"
  have l: "5 \<le> length p' + 2 \<or> varint_len p' \<noteq> None" using assms(3) by auto
  have two: "2 \<le> (5 :: nat)" "5 - 2 = (3 :: nat)" by simp_all
  note sl = slow_loop_two [OF two(1) l low_bits [OF assms(2)], where b = b and c = c, unfolded two(2)]
  note unfolds = VarintParseSlow32_def sl varint_ref_slow [OF assms(1,2)]
  show ?thesis
  proof (cases "varint_len (take 3 p')")
    case (Some n)
    then show ?thesis unfolding unfolds using varint_len_take8 [of p'] by simp
  next
    case None
    have 3: "3 \<le> length p'"
      using assms(3) None by (cases "3 \<le> length p'") auto
    have "10 \<le> length ?p \<or> varint_len (drop 5 ?p) \<noteq> None"
      using assms(3) None varint_len_append [of "take 3 p'" "drop 3 p'"] by (auto split: option.splits)
    then have sk: "skip_loop 10 ?p 5 = Ok (map_option (\<lambda>n. 5 + n) (varint_len (take 5 (drop 3 p'))))"
      using skip_loop_ref [of 5 10 ?p] by simp
    show ?thesis
    proof (cases "varint_len (take 5 (drop 3 p'))")
      case None
      then show ?thesis unfolding unfolds using \<open>varint_len (take 3 p') = None\<close> varint_len_take8 [of p'] sk by simp
    next
      case (Some n)
      then show ?thesis unfolding unfolds
        using \<open>varint_len (take 3 p') = None\<close> varint_len_take8 [of p'] sk 3 high_bits_gone [OF 3, of ?acc n] by (simp add: min_absorb2 del: of_nat_add)
    qed
  qed
qed

lemma VarintParse32_ref:
  assumes "readable p"
  shows "VarintParse32 p = Ok (varint_ref p)"
  using assms
proof (cases rule: readable_cases)
  case (one b p')
  then show ?thesis by (simp add: VarintParse32_def byte_at_def bit_ucast_iff byte_bit varint_ref_def byte_less)
next
  case (more b c p')
  then show ?thesis
    using two_bytes [OF more(2), of c]
    by (simp add: VarintParse32_def byte_at_def bit_ucast_iff byte_bit varint_ref_def byte_less Let_def del: of_nat_add)
next
  case (slow b c p')
  then show ?thesis
    using two_bytes [OF slow(2), of c] VarintParseSlow32_ref [OF slow(2-4)]
    by (simp add: VarintParse32_def byte_at_def bit_ucast_iff byte_bit Let_def del: of_nat_add)
qed

subsection \<open>\<open>CodedInputStream\<close>\<close>

lemma low7: "(ucast (b AND 0x7F) :: 64 word) = of_nat (unat b mod 128)" for b :: byte
proof -
  have "b AND 0x7F = take_bit 7 b" by (simp add: take_bit_eq_mask mask_eq_exp_minus_1)
  then have "unat (b AND 0x7F) = unat b mod 128" by (simp only: unsigned_take_bit_eq) (simp add: take_bit_eq_mod)
  then show ?thesis by (metis of_nat_unat)
qed

lemma or_disjoint:
  assumes "acc < 2 ^ k"
  shows "(of_nat acc :: 'a::len word) OR push_bit k (of_nat m) = of_nat (acc + 2 ^ k * m)"
proof -
  have "\<not> bit (of_nat acc :: 'a word) n \<or> \<not> bit (push_bit k (of_nat m) :: 'a word) n" for n
  proof (cases "n < k")
    case False
    then have "acc < 2 ^ n" using assms by (meson le_less_trans less_le_trans not_less one_le_numeral power_increasing)
    then have "\<not> bit acc n" by (simp add: bit_iff_odd)
    then show ?thesis by (simp add: bit_of_nat_iff)
  qed (simp add: bit_push_bit_iff)
  from disjunctive_add [OF this] show ?thesis by (simp add: push_bit_eq_mult algebra_simps)
qed

lemma varint64_slow_ref:
  assumes "i \<le> 10" "acc < 2 ^ (7 * i)"
  shows "varint64_slow p i (of_nat acc) = map_option (\<lambda>n. (i + n, of_nat (acc + 2 ^ (7 * i) * payload (take n (drop i p))))) (varint_len (take (10 - i) (drop i p)))"
  using assms
proof (induction "10 - i" arbitrary: i acc)
  case 0
  then show ?case by (subst varint64_slow.simps) (simp add: kMaxVarintBytes_def)
next
  case (Suc m)
  have i: "i < 10" using Suc.hyps(2) by simp
  show ?case
  proof (cases "i < length p")
    case False
    then show ?thesis using i by (subst varint64_slow.simps) (simp add: kMaxVarintBytes_def)
  next
    case True
    let ?b = "p ! i"
    have d: "drop i p = ?b # drop (Suc i) p" using True by (simp add: Cons_nth_drop_Suc)
    have t: "take (10 - i) (drop i p) = ?b # take (10 - Suc i) (drop (Suc i) p)"
    proof -
      have "10 - i = Suc (10 - Suc i)" using i by simp
      then show ?thesis unfolding d by simp
    qed
    have r: "of_nat acc OR push_bit (7 * i) (ucast (?b AND 0x7F)) = (of_nat (acc + 2 ^ (7 * i) * (unat ?b mod 128)) :: 64 word)"
      unfolding low7 by (rule or_disjoint [OF Suc.prems(2)])
    have "acc + 2 ^ (7 * i) * (unat ?b mod 128) < 2 ^ (7 * i) + 2 ^ (7 * i) * 127" using Suc.prems(2) by (intro add_less_le_mono) auto
    also have "\<dots> = 2 ^ (7 * Suc i)" by (simp add: power_add)
    finally have IH: "varint64_slow p (Suc i) (of_nat (acc + 2 ^ (7 * i) * (unat ?b mod 128)))
        = map_option (\<lambda>n. (Suc i + n, of_nat (acc + 2 ^ (7 * i) * (unat ?b mod 128) + 2 ^ (7 * Suc i) * payload (take n (drop (Suc i) p)))))
          (varint_len (take (10 - Suc i) (drop (Suc i) p)))"
      using Suc.hyps(2) i by (intro Suc.hyps(1)) auto
    show ?thesis
    proof (cases "?b < 128")
      case b: True
      then show ?thesis using i True r t d byte_bit [of ?b]
        by (subst varint64_slow.simps) (simp add: kMaxVarintBytes_def Let_def del: of_nat_add)
    next
      case b: False
      then show ?thesis using i True r t d byte_bit [of ?b] IH
        by (subst varint64_slow.simps) (cases "varint_len (take (10 - Suc i) (drop (Suc i) p))";
          simp add: kMaxVarintBytes_def Let_def algebra_simps power_add del: of_nat_add)
    qed
  qed
qed

lemma ReadVarint64Slow_ref: "ReadVarint64Slow p = varint_ref p"
  using varint64_slow_ref [of 0 0 p] by (simp add: ReadVarint64Slow_def varint_ref_def)

lemma payload_snoc: "k < length p \<Longrightarrow> payload (take (Suc k) p) = payload (take k p) + 2 ^ (7 * k) * (unat (p ! k) mod 128)"
  by (simp add: take_Suc_conv_app_nth payload_append min_absorb2 power_mult)

lemma cont_byte: "\<not> b < 128 \<Longrightarrow> word_of_int (uint b - 0x80) = (of_nat (unat b mod 128) :: 64 word)" for b :: byte
proof -
  assume "\<not> b < 128"
  then have "unat b = unat b mod 128 + 128" by (intro byte_mod) (simp add: byte_less)
  then have "int (unat b) = int (unat b mod 128) + 128" by (metis of_nat_add of_nat_numeral)
  moreover have "uint b = int (unat b)" by simp
  ultimately have "uint b - 0x80 = int (unat b mod 128)" by linarith
  then show ?thesis by simp
qed

lemma known_size_fold:
  assumes "k \<le> length p" "\<forall>j < k. \<not> p ! j < 128"
  shows "fold (\<lambda>i result. result + push_bit (7 * i) (word_of_int (uint (p ! i) - 0x80))) [0..<k] r = r + (of_nat (payload (take k p)) :: 64 word)"
  using assms
proof (induction k)
  case (Suc k)
  let ?f = "\<lambda>i result :: 64 word. result + push_bit (7 * i) (word_of_int (uint (p ! i) - 0x80))"
  have c: "word_of_int (uint (p ! k) - 0x80) = (of_nat (unat (p ! k) mod 128) :: 64 word)"
    by (rule cont_byte) (use Suc.prems in simp)
  have "fold ?f [0..<Suc k] r = ?f k (fold ?f [0..<k] r)" by simp
  also have "\<dots> = r + of_nat (payload (take k p)) + push_bit (7 * k) (of_nat (unat (p ! k) mod 128))"
    using Suc by (simp only: c) simp
  finally show ?case using payload_snoc [of k p] Suc.prems(1) by (simp add: push_bit_eq_mult del: take_Suc)
qed simp

lemma DecodeVarint64KnownSize_ref:
  assumes "k < length p" "\<forall>j < k. \<not> p ! j < 128" "p ! k < 128"
  shows "DecodeVarint64KnownSize (Suc k) p = Ok (Suc k, of_nat (payload (take (Suc k) p)))"
  using assms known_size_fold [of k p "push_bit (7 * k) (ucast (p ! k))"] payload_snoc [of k p]
  by (simp add: DecodeVarint64KnownSize_def byte_at_def push_bit_eq_mult byte_less algebra_simps del: take_Suc)

lemma varint_len_cont:
  assumes "i \<le> length xs" "\<forall>j < i. \<not> xs ! j < 128"
  shows "varint_len xs = map_option (\<lambda>n. i + n) (varint_len (drop i xs))"
proof -
  have "varint_len (take i xs) = None" using assms by (induction i) (auto simp: take_Suc_conv_app_nth varint_len_append)
  then show ?thesis using varint_len_append [of "take i xs" "drop i xs"] assms(1) by (simp add: min_absorb2)
qed

lemma from_array_loop_ref:
  assumes "i \<le> 10" "i \<le> length p" "\<forall>j < i. \<not> p ! j < 128" "10 \<le> length p \<or> varint_len (drop i p) \<noteq> None"
  shows "from_array_loop p i = Ok (varint_ref p)"
  using assms
proof (induction "10 - i" arbitrary: i)
  case 0
  then show ?case using varint_len_cont [of 10 "take 10 p"] by (subst from_array_loop.simps) (auto simp: varint_ref_def)
next
  case (Suc m)
  have i: "i < 10" using Suc.hyps(2) by simp
  note k = peek [OF i Suc.prems(4)]
  have len: "varint_len (take 10 p) = map_option (\<lambda>n. i + n) (varint_len (take (10 - i) (drop i p)))"
    using varint_len_cont [of i "take 10 p"] Suc.prems(2,3) i by (simp add: drop_take)
  show ?case
  proof (cases "p ! i < 128")
    case True
    then show ?thesis using DecodeVarint64KnownSize_ref [OF k(1) Suc.prems(3)] i k len
      by (subst from_array_loop.simps) (simp add: byte_at_def varint_ref_def)
  next
    case False
    have "from_array_loop p (Suc i) = Ok (varint_ref p)"
      by (rule Suc.hyps(1)) (use Suc.hyps(2) Suc.prems i k False in \<open>auto simp: less_Suc_eq\<close>)
    then show ?thesis using i k(1) False by (subst from_array_loop.simps) (simp add: byte_at_def)
  qed
qed

lemma last_ends: "p \<noteq> [] \<Longrightarrow> last p < 128 \<Longrightarrow> varint_len p \<noteq> None"
  by (induction p) (auto split: if_splits)

lemma skips_checks_readable: "skips_checks p \<Longrightarrow> readable p"
  using last_ends [of p] byte_bit [of "last p"] by (auto simp: skips_checks_def readable_def kMaxVarintBytes_def)

lemma ReadVarint64FromArray_ref: "readable p \<Longrightarrow> \<not> hd p < 128 \<Longrightarrow> ReadVarint64FromArray p = Ok (varint_ref p)"
  unfolding ReadVarint64FromArray_def readable_def
  by (rule from_array_loop_ref) (cases p; auto simp: hd_conv_nth)+

lemma ReadVarint64_ref: "ReadVarint64 p = Ok (varint_ref p)"
proof (cases "p \<noteq> [] \<and> hd p < 128")
  case True
  then show ?thesis by (cases p) (auto simp: ReadVarint64_def varint_ref_def byte_less)
next
  case False
  then show ?thesis
    using ReadVarint64FromArray_ref [OF skips_checks_readable]
    by (auto simp: ReadVarint64_def ReadVarint64Fallback_def ReadVarint64Slow_ref skips_checks_def kMaxVarintBytes_def)
qed

lemma shifted_out: "(2 :: 32 word) ^ (7 * 5) = 0"
  by (simp add: exp_eq_zero_iff)

lemma payload32: "5 \<le> length p \<Longrightarrow> (of_nat (payload (take (5 + n) p)) :: 32 word) = of_nat (payload (take 5 p))"
proof -
  assume p: "5 \<le> length p"
  have "payload (take (5 + n) p) = payload (take 5 p) + 2 ^ (7 * 5) * payload (take n (drop 5 p))"
    using p unfolding take_add payload_append by (simp add: min_absorb2)
  then have "(of_nat (payload (take (5 + n) p)) :: 32 word) = of_nat (payload (take 5 p)) + 2 ^ (7 * 5) * of_nat (payload (take n (drop 5 p)))"
    by simp
  then show ?thesis unfolding shifted_out by simp
qed

lemma array32_step:
  assumes "k < length p"
  shows "p ! k < 128 \<Longrightarrow> of_nat (payload (take k p)) + push_bit (7 * k) (ucast (p ! k)) = (of_nat (payload (take (Suc k) p)) :: 32 word)"
    "\<not> p ! k < 128 \<Longrightarrow> of_nat (payload (take k p)) + push_bit (7 * k) (ucast (p ! k)) = (of_nat (payload (take (Suc k) p)) + push_bit (7 * k) 0x80 :: 32 word)"
proof -
  show "p ! k < 128 \<Longrightarrow> of_nat (payload (take k p)) + push_bit (7 * k) (ucast (p ! k)) = (of_nat (payload (take (Suc k) p)) :: 32 word)"
    unfolding payload_snoc [OF assms] by (simp add: push_bit_eq_mult byte_less)
  assume "\<not> p ! k < 128"
  then have "unat (p ! k) = unat (p ! k) mod 128 + 128" by (intro byte_mod) (simp add: byte_less)
  then have "ucast (p ! k) = (of_nat (unat (p ! k) mod 128) + 0x80 :: 32 word)" by (metis of_nat_add of_nat_numeral of_nat_unat)
  then show "of_nat (payload (take k p)) + push_bit (7 * k) (ucast (p ! k)) = (of_nat (payload (take (Suc k) p)) + push_bit (7 * k) 0x80 :: 32 word)"
    unfolding payload_snoc [OF assms] by (simp add: push_bit_eq_mult algebra_simps)
qed

lemma array32_loop_ref:
  assumes "i \<le> 5" "i \<le> length p" "\<forall>j < i. \<not> p ! j < 128" "10 \<le> length p \<or> varint_len (drop i p) \<noteq> None"
  shows "array32_loop p i (of_nat (payload (take i p))) = Ok (varint_ref p)"
  using assms
proof (induction "5 - i" arbitrary: i)
  case 0
  then have i: "i = 5" by simp
  have "varint_len (take 10 p) = map_option (\<lambda>n. 5 + n) (varint_len (take 5 (drop 5 p)))"
    using varint_len_cont [of 5 "take 10 p"] 0 i by (simp add: drop_take)
  then show ?case using skip_loop_ref [of 5 10 p] 0 i payload32 [of p]
    by (subst array32_loop.simps) (simp add: varint_ref_def option.map_comp comp_def)
next
  case (Suc m)
  have i: "i < 5" "i < 10" using Suc.hyps(2) by simp_all
  note k = peek [OF i(2) Suc.prems(4)]
  have len: "varint_len (take 10 p) = map_option (\<lambda>n. i + n) (varint_len (take (10 - i) (drop i p)))"
    using varint_len_cont [of i "take 10 p"] Suc.prems(2,3) i by (simp add: drop_take)
  show ?case
  proof (cases "p ! i < 128")
    case True
    then show ?thesis using array32_step(1) [OF k(1) True] i k len
      by (subst array32_loop.simps) (simp add: byte_at_def byte_bit varint_ref_def Let_def del: take_Suc)
  next
    case False
    have IH: "array32_loop p (Suc i) (of_nat (payload (take (Suc i) p))) = Ok (varint_ref p)"
      by (rule Suc.hyps(1)) (use Suc.hyps(2) Suc.prems i k False in \<open>auto simp: less_Suc_eq\<close>)
    have "push_bit (7 * i) 0x80 = (0 :: 32 word)" if "\<not> i < 4"
    proof -
      have "i = 4" using that i by simp
      then have "push_bit (7 * i) 0x80 = (2 :: 32 word) ^ (7 * 5)" by (simp add: push_bit_eq_mult)
      then show ?thesis by (simp only: shifted_out)
    qed
    then show ?thesis using i k(1) False IH array32_step(2) [OF k(1) False]
      by (subst array32_loop.simps) (simp add: byte_at_def byte_bit Let_def del: take_Suc)
  qed
qed

lemma ucast_down: "(ucast (of_nat n :: 64 word) :: 32 word) = of_nat n"
  by (rule bit_word_eqI) (simp add: bit_simps)

lemma ReadVarint32_ref: "ReadVarint32 p = Ok (varint_ref p)"
proof (cases "p \<noteq> [] \<and> hd p < 128")
  case True
  then show ?thesis by (cases p) (auto simp: ReadVarint32_def varint_ref_def byte_less)
next
  case False
  show ?thesis
  proof (cases "skips_checks p")
    case True
    then obtain b q where p: "p = b # q" "\<not> b < 128" using False by (cases p) (auto simp: skips_checks_def kMaxVarintBytes_def)
    have "unat b = unat b mod 128 + 128" using p(2) by (intro byte_mod) (simp add: byte_less)
    then have "ucast b - 0x80 = (of_nat (payload (take 1 p)) :: 32 word)"
      using p(1) by (simp add: diff_eq_eq) (metis of_nat_add of_nat_numeral of_nat_unat)
    then have "ReadVarint32FromArray (ucast b) p = Ok (varint_ref p)"
      using array32_loop_ref [of 1 p] skips_checks_readable [OF True] p
      by (simp add: ReadVarint32FromArray_def readable_def)
    then show ?thesis using p True by (simp add: ReadVarint32_def ReadVarint32Fallback_def)
  next
    case f: False
    then show ?thesis using False
      by (auto simp: ReadVarint32_def ReadVarint32Fallback_def ReadVarint32Slow_def ReadVarint64Fallback_def ReadVarint64Slow_ref
          varint_ref_def option.map_comp comp_def ucast_down)
  qed
qed

lemma ReadVarintSizeAsInt_ref:
  "ReadVarintSizeAsInt p = Ok (case varint_ref p :: (nat \<times> 64 word) option of None \<Rightarrow> None
     | Some (n, v) \<Rightarrow> if v > 0x7FFFFFFF then None else Some (n, uint v))"
proof (cases "p \<noteq> [] \<and> hd p < 128")
  case True
  then obtain b q where p: "p = b # q" "b < 128" by (cases p) auto
  have "unat b < 128" using p(2) by (simp add: byte_less)
  then have "unat (of_nat (unat b) :: 64 word) = unat b" by (simp only: unsigned_of_nat) (simp add: take_bit_nat_eq_self)
  then have u: "unat (ucast b :: 64 word) = unat b" by (simp only: of_nat_unat)
  have "uint (ucast b :: 64 word) = uint b" using arg_cong [OF u, of int] by simp
  moreover have "\<not> (ucast b :: 64 word) > 0x7FFFFFFF" using u \<open>unat b < 128\<close> by (simp only: word_less_nat_alt) simp
  ultimately show ?thesis using p \<open>unat b < 128\<close> by (simp add: ReadVarintSizeAsInt_def varint_ref_def)
next
  case False
  have "skips_checks p \<Longrightarrow> ReadVarint64FromArray p = Ok (varint_ref p)"
    using ReadVarint64FromArray_ref [OF skips_checks_readable] False by (auto simp: skips_checks_def kMaxVarintBytes_def)
  then show ?thesis using False by (auto simp: ReadVarintSizeAsInt_def ReadVarintSizeAsIntFallback_def ReadVarint64Fallback_def ReadVarint64Slow_ref)
qed

end
