(* ===== verification/Proto_Fields.thy ===== *)
theory Proto_Fields
  imports Proto_Wire
begin

text \<open>
  Fields on the wire: the sizes of varints, the ZigZag coding of signed integers, tags, and string fields
  (io/coded_stream.h, wire_format_lite.h, stubs/port.h of protobuf).
\<close>

unbundle bit_operations_syntax

section \<open>Sizes\<close>

text \<open>\<open>__builtin_clz\<close> counts the leading zero bits.\<close>

definition builtin_clz :: "'a::len word \<Rightarrow> nat" where
  "builtin_clz n = length (takeWhile (\<lambda>i. \<not> bit n i) (rev [0..<LENGTH('a)]))"

definition Log2FloorNonZero :: "32 word \<Rightarrow> 32 word" where
  "Log2FloorNonZero n = 31 XOR of_nat (builtin_clz n)"

definition Log2FloorNonZero64 :: "64 word \<Rightarrow> 32 word" where
  "Log2FloorNonZero64 n = 63 XOR of_nat (builtin_clz n)"

text \<open>The versions for other compilers.\<close>

definition Log2FloorNonZero_Portable :: "32 word \<Rightarrow> int" where
  "Log2FloorNonZero_Portable n = (if n = 0 then - 1
     else fst (fold (\<lambda>i (log, v). let shift = 2 ^ i; x = drop_bit shift v in if x \<noteq> 0 then (log + int shift, x) else (log, v))
       [4, 3, 2, 1, 0] (0, n)))"

definition Log2FloorNonZero64_Portable :: "64 word \<Rightarrow> int" where
  "Log2FloorNonZero64_Portable n = (let topbits = ucast (drop_bit 32 n) :: 32 word in
     if topbits = 0 then sint (Log2FloorNonZero (ucast n)) else 32 + sint (Log2FloorNonZero topbits))"

definition VarintSize32 :: "32 word \<Rightarrow> nat" where
  "VarintSize32 v = unat ((Log2FloorNonZero (v OR 0x1) * 9 + 73) div 64)"

definition VarintSize32PlusOne :: "32 word \<Rightarrow> nat" where
  "VarintSize32PlusOne v = unat ((Log2FloorNonZero (v OR 0x1) * 9 + 73 + 64) div 64)"

definition VarintSize64 :: "64 word \<Rightarrow> nat" where
  "VarintSize64 v = unat ((Log2FloorNonZero64 (v OR 0x1) * 9 + 73) div 64)"

definition VarintSize64PlusOne :: "64 word \<Rightarrow> nat" where
  "VarintSize64PlusOne v = unat ((Log2FloorNonZero64 (v OR 0x1) * 9 + 73 + 64) div 64)"

definition VarintSize32SignExtended :: "32 word \<Rightarrow> nat" where
  "VarintSize32SignExtended v = VarintSize64 (scast v)"

section \<open>ZigZag\<close>

text \<open>Signed integers are words that are read in two's complement; \<open>>>\<close> on them is the arithmetic shift.\<close>

definition ZigZagEncode32 :: "32 word \<Rightarrow> 32 word" where
  "ZigZagEncode32 n = push_bit 1 n XOR signed_drop_bit 31 n"

definition ZigZagDecode32 :: "32 word \<Rightarrow> 32 word" where
  "ZigZagDecode32 n = drop_bit 1 n XOR (NOT (n AND 1) + 1)"

definition ZigZagEncode64 :: "64 word \<Rightarrow> 64 word" where
  "ZigZagEncode64 n = push_bit 1 n XOR signed_drop_bit 63 n"

definition ZigZagDecode64 :: "64 word \<Rightarrow> 64 word" where
  "ZigZagDecode64 n = drop_bit 1 n XOR (NOT (n AND 1) + 1)"

section \<open>Tags and string fields\<close>

definition WIRETYPE_LENGTH_DELIMITED :: "32 word" where
  "WIRETYPE_LENGTH_DELIMITED = 2"

definition MakeTag :: "32 word \<Rightarrow> 32 word \<Rightarrow> 32 word" where
  "MakeTag field_number type = push_bit 3 field_number OR type"

definition GetTagWireType :: "32 word \<Rightarrow> 32 word" where
  "GetTagWireType tag = tag AND (push_bit 3 1 - 1)"

definition GetTagFieldNumber :: "32 word \<Rightarrow> 32 word" where
  "GetTagFieldNumber tag = drop_bit 3 tag"

definition TagSize :: "32 word \<Rightarrow> nat" where
  "TagSize tag = (if tag < push_bit 7 1 then 1 else if tag < push_bit 14 1 then 2 else if tag < push_bit 21 1 then 3
     else if tag < push_bit 28 1 then 4 else 5)"

definition WriteTag :: "32 word \<Rightarrow> 32 word \<Rightarrow> byte list" where
  "WriteTag num wt = UnsafeVarint (push_bit 3 num OR wt)"

definition WriteLengthDelim :: "32 word \<Rightarrow> 32 word \<Rightarrow> byte list" where
  "WriteLengthDelim num n = WriteTag num 2 @ UnsafeWriteSize n"

text \<open>The management of the output buffer is left out; \<open>room\<close> is what \<open>end_ - ptr\<close> gives.\<close>

definition WriteStringMaybeAliasedOutline :: "32 word \<Rightarrow> byte list \<Rightarrow> byte list" where
  "WriteStringMaybeAliasedOutline num s = WriteLengthDelim num (of_nat (length s)) @ s"

definition WriteStringMaybeAliased :: "int \<Rightarrow> 32 word \<Rightarrow> byte list \<Rightarrow> byte list" where
  "WriteStringMaybeAliased room num s = (let size = int (length s) in
     if size \<ge> 128 \<or> room + 16 - int (TagSize (push_bit 3 num)) - 1 < size then WriteStringMaybeAliasedOutline num s
     else UnsafeVarint (push_bit 3 num OR 2) @ [word_of_int size] @ s)"

section \<open>Facts on sizes\<close>

text \<open>The position of the highest bit of a number.\<close>

definition is_log :: "nat \<Rightarrow> nat \<Rightarrow> bool" where
  "is_log n k \<longleftrightarrow> 2 ^ k \<le> n \<and> n < 2 ^ Suc k"

lemma is_log_div: "is_log (n div 2 ^ s) k \<Longrightarrow> is_log n (k + s)"
  by (simp add: is_log_def power_add less_eq_div_iff_mult_less_eq div_less_iff_less_mult mult.commute mult.left_commute)

lemma is_log_unique: "is_log n k \<Longrightarrow> is_log n m \<Longrightarrow> k = m"
proof -
  assume "is_log n k" "is_log n m"
  then have "(2 :: nat) ^ k < 2 ^ Suc m" "(2 :: nat) ^ m < 2 ^ Suc k" by (auto simp: is_log_def)
  then have "k < Suc m" "m < Suc k" using power_less_imp_less_exp [of "2 :: nat"] one_less_numeral_iff semiring_norm(76) by blast+
  then show ?thesis by simp
qed

lemma is_log_bit: "is_log (unat n) k" if "bit n k" "\<forall>i. k < i \<longrightarrow> \<not> bit n i" for n :: "'a::len word"
proof -
  have b: "bit (unat n) i \<longleftrightarrow> bit n i" for i by (simp add: bit_unsigned_iff)
  have "take_bit (Suc k) (unat n) = unat n"
    by (rule bit_eqI) (use that(2) in \<open>auto simp: bit_take_bit_iff b not_less less_Suc_eq_le\<close>)
  then have "unat n < 2 ^ Suc k" by (metis take_bit_nat_less_exp)
  moreover have "2 ^ k \<le> unat n" using that(1) by (metis b bit_iff_odd div_less even_zero not_less)
  ultimately show ?thesis by (simp add: is_log_def)
qed

lemma builtin_clz_log:
  fixes n :: "'a::len word"
  assumes "n \<noteq> 0"
  shows "\<exists>k < LENGTH('a). builtin_clz n = LENGTH('a) - 1 - k \<and> is_log (unat n) k"
proof -
  have ex: "\<exists>i. bit n i" using assms by (auto simp: bit_eq_iff)
  have le: "bit n i \<Longrightarrow> i \<le> LENGTH('a)" for i using bit_imp_le_length [of n i] by simp
  obtain k where k: "bit n k" "\<forall>i. k < i \<longrightarrow> \<not> bit n i"
    using GreatestI_ex_nat [OF ex le] Greatest_le_nat [of "bit n", OF _ le] by (meson not_le)
  have kl: "k < LENGTH('a)" using k(1) by (rule bit_imp_le_length)
  have r: "rev [0..<LENGTH('a)] = rev [Suc k..<LENGTH('a)] @ k # rev [0..<k]"
    using upt_add_eq_append [of 0 k "LENGTH('a) - k"] upt_conv_Cons [OF kl] kl by simp
  have "takeWhile (\<lambda>i. \<not> bit n i) (rev [0..<LENGTH('a)]) = rev [Suc k..<LENGTH('a)]"
    unfolding r using k by (subst takeWhile_append2) auto
  then have "builtin_clz n = LENGTH('a) - 1 - k" using kl by (simp add: builtin_clz_def)
  then show ?thesis using kl is_log_bit [OF k] by blast
qed

lemma xor_low:
  "\<forall>k \<in> set [0..<32]. (31 :: 32 word) XOR of_nat (31 - k) = of_nat k" "\<forall>k \<in> set [0..<64]. (63 :: 32 word) XOR of_nat (63 - k) = of_nat k"
  by code_simp+

lemma Log2FloorNonZero_log: "n \<noteq> 0 \<Longrightarrow> \<exists>k < 32. Log2FloorNonZero n = of_nat k \<and> is_log (unat n) k"
  using builtin_clz_log [of n] xor_low(1) by (fastforce simp: Log2FloorNonZero_def)

lemma Log2FloorNonZero64_log: "n \<noteq> 0 \<Longrightarrow> \<exists>k < 64. Log2FloorNonZero64 n = of_nat k \<and> is_log (unat n) k"
  using builtin_clz_log [of n] xor_low(2) by (fastforce simp: Log2FloorNonZero64_def)

lemma is_log_or_one: "is_log (n OR 1) k \<Longrightarrow> k = 0 \<and> n < 2 \<or> 0 < k \<and> is_log n k"
proof -
  assume a: "is_log (n OR 1) k"
  have o: "n OR 1 = (if even n then n + 1 else n)" by (simp add: or_Suc_0_eq)
  show ?thesis
  proof (cases k)
    case 0
    then show ?thesis using a unfolding o by (auto simp: is_log_def split: if_splits)
  next
    case (Suc m)
    then show ?thesis using a unfolding o by (auto simp: is_log_def elim!: evenE split: if_splits)
  qed
qed

lemma varint_bytes_log: "is_log n k \<Longrightarrow> length (varint_bytes n) = k div 7 + 1"
proof (induction n arbitrary: k rule: varint_bytes.induct)
  case (1 n)
  show ?case
  proof (cases "n < 128")
    case True
    then have "(2 :: nat) ^ k < 2 ^ 7" using 1(2) by (simp add: is_log_def)
    then have "k < 7" by (rule power_less_imp_less_exp [rotated]) simp
    then show ?thesis using True by simp
  next
    case False
    then have "(2 :: nat) ^ 7 < 2 ^ Suc k" using 1(2) by (simp add: is_log_def)
    then have "7 < Suc k" by (rule power_less_imp_less_exp [rotated]) simp
    then obtain m where k: "k = m + 7" by (metis add.commute le_Suc_ex less_Suc_eq_le)
    then have "is_log (n div 128) m"
      using 1(2) by (simp add: is_log_def power_add less_eq_div_iff_mult_less_eq div_less_iff_less_mult)
    then show ?thesis using 1(1) False k by simp
  qed
qed

lemma varint_bytes_length: "is_log (n OR 1) k \<Longrightarrow> length (varint_bytes n) = k div 7 + 1"
  using is_log_or_one [of n k] varint_bytes_log by auto

lemma size_formula:
  "\<forall>k \<in> set [0..<64]. unat ((of_nat k * 9 + 73 :: 32 word) div 64) = k div 7 + 1"
  "\<forall>k \<in> set [0..<64]. unat ((of_nat k * 9 + 73 + 64 :: 32 word) div 64) = k div 7 + 2"
  by code_simp+

lemma or_one_unat: "unat (v OR 1) = unat v OR 1" "v OR 1 \<noteq> 0" for v :: "'a::len word"
proof -
  show "unat (v OR 1) = unat v OR 1" by (simp add: unsigned_or_eq)
  then show "v OR 1 \<noteq> 0" by (metis or_eq_0_iff unsigned_0 zero_neq_one)
qed

lemma VarintSize32_length: "VarintSize32 v = length (UnsafeVarint v)" "VarintSize32PlusOne v = length (UnsafeVarint v) + 1"
proof -
  obtain k where k: "k < 32" "Log2FloorNonZero (v OR 1) = of_nat k" "is_log (unat v OR 1) k"
    using Log2FloorNonZero_log [of "v OR 1"] or_one_unat [of v] by auto
  have "k \<in> set [0..<64]" using k(1) by simp
  then have "unat ((of_nat k * 9 + 73 :: 32 word) div 64) = k div 7 + 1" "unat ((of_nat k * 9 + 73 + 64 :: 32 word) div 64) = k div 7 + 2"
    using size_formula by blast+
  then show "VarintSize32 v = length (UnsafeVarint v)" "VarintSize32PlusOne v = length (UnsafeVarint v) + 1"
    unfolding VarintSize32_def VarintSize32PlusOne_def k(2) using varint_bytes_length [OF k(3)] by (simp_all add: UnsafeVarint_bytes)
qed

lemma VarintSize64_length: "VarintSize64 v = length (UnsafeVarint v)" "VarintSize64PlusOne v = length (UnsafeVarint v) + 1"
proof -
  obtain k where k: "k < 64" "Log2FloorNonZero64 (v OR 1) = of_nat k" "is_log (unat v OR 1) k"
    using Log2FloorNonZero64_log [of "v OR 1"] or_one_unat [of v] by auto
  have "k \<in> set [0..<64]" using k(1) by simp
  then have "unat ((of_nat k * 9 + 73 :: 32 word) div 64) = k div 7 + 1" "unat ((of_nat k * 9 + 73 + 64 :: 32 word) div 64) = k div 7 + 2"
    using size_formula by blast+
  then show "VarintSize64 v = length (UnsafeVarint v)" "VarintSize64PlusOne v = length (UnsafeVarint v) + 1"
    unfolding VarintSize64_def VarintSize64PlusOne_def k(2) using varint_bytes_length [OF k(3)] by (simp_all add: UnsafeVarint_bytes)
qed

lemma varint_bytes_bound: "n < 128 ^ Suc k \<Longrightarrow> length (varint_bytes n) \<le> Suc k"
proof (induction k arbitrary: n)
  case (Suc k)
  then show ?case by (cases "n < 128") (simp_all add: div_less_iff_less_mult mult.commute)
qed simp

lemma varint_bytes_pos: "0 < length (varint_bytes n)"
  by (cases "n < 128") simp_all

text \<open>The portable versions find the highest bit as well.\<close>

lemma unat_drop: "unat (drop_bit k v) = unat v div 2 ^ k" for v :: "'a::len word"
  unfolding unsigned_drop_bit_eq by (simp add: drop_bit_eq_div take_bit_nat_eq_self [OF unsigned_less])

lemma portable_fold:
  fixes v :: "32 word"
  assumes "v \<noteq> 0" "unat v < 2 ^ (2 ^ length is)" "is = rev [0..<length is]"
  shows "\<exists>k. fst (fold (\<lambda>i (log, v). let shift = 2 ^ i; x = drop_bit shift v in if x \<noteq> 0 then (log + int shift, x) else (log, v)) is (acc, v)) = acc + int k
     \<and> is_log (unat v) k"
  using assms
proof (induction "is" arbitrary: v acc)
  case Nil
  then have "unat v = 1" by (simp add: unat_eq_zero) (metis less_2_cases unsigned_eq_0_iff)
  then show ?case by (intro exI [of _ 0]) (simp add: is_log_def)
next
  case (Cons i js)
  have i: "i = length js" "js = rev [0..<length js]" using Cons.prems(3) by simp_all
  show ?case
  proof (cases "drop_bit (2 ^ i) v = 0")
    case True
    then have "unat v div 2 ^ (2 ^ i) = 0" using unat_drop [of "2 ^ i" v] by simp
    then have "unat v < 2 ^ (2 ^ length js)" using i(1) by (simp add: div_eq_0_iff)
    then show ?thesis using Cons.IH [OF Cons.prems(1) _ i(2), of acc] True by simp
  next
    case False
    have "unat v < 2 ^ (2 ^ length js) * 2 ^ (2 ^ length js)" using Cons.prems(2) by (simp flip: power_add add: mult_2)
    then have "unat (drop_bit (2 ^ i) v) < 2 ^ (2 ^ length js)" using i(1) by (simp add: unat_drop less_mult_imp_div_less)
    from Cons.IH [OF False this i(2), of "acc + int (2 ^ i)"] obtain k where
      k: "fst (fold (\<lambda>i (log, v). let shift = 2 ^ i; x = drop_bit shift v in if x \<noteq> 0 then (log + int shift, x) else (log, v)) js (acc + int (2 ^ i), drop_bit (2 ^ i) v)) = acc + int (2 ^ i) + int k"
      "is_log (unat (drop_bit (2 ^ i) v)) k"
      by blast
    have "is_log (unat v) (k + 2 ^ i)" using k(2) unfolding unat_drop by (rule is_log_div)
    then show ?thesis using k(1) False by (intro exI [of _ "k + 2 ^ i"]) (simp add: Let_def)
  qed
qed

lemma Log2FloorNonZero_Portable_eq:
  assumes "n \<noteq> 0"
  shows "Log2FloorNonZero_Portable n = uint (Log2FloorNonZero n)"
proof -
  have f: "unat n < 2 ^ (2 ^ length [4, 3, 2, 1, 0 :: nat])" "[4, 3, 2, 1, 0 :: nat] = rev [0..<length [4, 3, 2, 1, 0 :: nat]]"
    using unsigned_less [of n] by (simp_all add: upt_rec)
  obtain k where k: "Log2FloorNonZero_Portable n = int k" "is_log (unat n) k"
    using portable_fold [OF assms f, of 0] assms by (auto simp: Log2FloorNonZero_Portable_def)
  obtain m where m: "m < 32" "Log2FloorNonZero n = of_nat m" "is_log (unat n) m" using Log2FloorNonZero_log [OF assms] by blast
  have "k = m" by (rule is_log_unique [OF k(2) m(3)])
  moreover have "uint (of_nat m :: 32 word) = int m" using m(1) by (simp add: unsigned_of_nat take_bit_nat_eq_self)
  ultimately show ?thesis using k(1) m(2) by simp
qed

lemma small_sint: "k < 64 \<Longrightarrow> sint (of_nat k :: 32 word) = int k" "k < 64 \<Longrightarrow> uint (of_nat k :: 32 word) = int k"
  by (simp_all add: signed_of_nat signed_take_bit_int_eq_self unsigned_of_nat take_bit_nat_eq_self)

lemma Log2FloorNonZero64_Portable_eq:
  assumes "n \<noteq> 0"
  shows "Log2FloorNonZero64_Portable n = uint (Log2FloorNonZero64 n)"
proof -
  obtain m where m: "m < 64" "Log2FloorNonZero64 n = of_nat m" "is_log (unat n) m" using Log2FloorNonZero64_log [OF assms] by blast
  have less: "unat n < 2 ^ 64" using unsigned_less [of n] by simp
  let ?top = "ucast (drop_bit 32 n) :: 32 word"
  have "unat n div 2 ^ 32 < 2 ^ 32" using less by (simp add: div_less_iff_less_mult)
  then have top: "unat ?top = unat n div 2 ^ 32"
    by (simp only: unsigned_ucast_eq unat_drop) (simp add: take_bit_nat_eq_self)
  show ?thesis
  proof (cases "?top = 0")
    case True
    then have n: "unat n < 2 ^ 32" using top by (simp add: div_eq_0_iff)
    then have "unat (ucast n :: 32 word) = unat n" by (simp add: unsigned_ucast_eq take_bit_nat_eq_self)
    moreover from this have "(ucast n :: 32 word) \<noteq> 0" using assms by (metis unsigned_0 unsigned_eq_0_iff)
    ultimately obtain k where k: "k < 32" "Log2FloorNonZero (ucast n) = of_nat k" "is_log (unat n) k" using Log2FloorNonZero_log by metis
    then show ?thesis using True is_log_unique [OF k(3) m(3)] m(1,2) by (simp add: Log2FloorNonZero64_Portable_def small_sint)
  next
    case False
    obtain k where k: "k < 32" "Log2FloorNonZero ?top = of_nat k" "is_log (unat n div 2 ^ 32) k" using Log2FloorNonZero_log [OF False] top by metis
    have "k + 32 = m" by (rule is_log_unique [OF is_log_div [OF k(3)] m(3)])
    then show ?thesis using False k(1,2) m(1,2) by (simp add: Log2FloorNonZero64_Portable_def Let_def small_sint)
  qed
qed

section \<open>Facts on ZigZag\<close>

text \<open>Both codings at once: a shift, and a negation that depends on the sign bit and on the lowest bit.\<close>

definition zigzag :: "'a::len word \<Rightarrow> 'a word" where
  "zigzag n = (if bit n (LENGTH('a) - 1) then NOT (push_bit 1 n) else push_bit 1 n)"

definition unzigzag :: "'a::len word \<Rightarrow> 'a word" where
  "unzigzag n = (if odd n then NOT (drop_bit 1 n) else drop_bit 1 n)"

lemma sign_fill: "signed_drop_bit (LENGTH('a) - 1) n = (if bit n (LENGTH('a) - 1) then - 1 else 0)" for n :: "'a::len word"
proof (rule bit_word_eqI)
  fix i assume "i < LENGTH('a)"
  then show "bit (signed_drop_bit (LENGTH('a) - 1) n) i \<longleftrightarrow> bit (if bit n (LENGTH('a) - 1) then - 1 else 0 :: 'a word) i"
    by (cases i) (auto simp: bit_signed_drop_bit_iff)
qed

lemma low_fill: "NOT (n AND 1) + 1 = (if odd n then - 1 else 0)" for n :: "'a::len word"
proof -
  have "n AND 1 = of_bool (odd n)" by (simp only: and_one_eq mod_2_eq_odd)
  then show ?thesis by (simp flip: minus_eq_not_plus_1)
qed

lemma zigzag_defs:
  "ZigZagEncode32 n = zigzag n" "ZigZagDecode32 n = unzigzag n" "ZigZagEncode64 m = zigzag m" "ZigZagDecode64 m = unzigzag m"
  using sign_fill [of n] sign_fill [of m] low_fill [of n] low_fill [of m]
  by (simp_all add: ZigZagEncode32_def ZigZagDecode32_def ZigZagEncode64_def ZigZagDecode64_def zigzag_def unzigzag_def)

lemma zigzag_bits:
  fixes n :: "'a::len word"
  shows "bit (zigzag n) i \<longleftrightarrow> i < LENGTH('a) \<and> (bit n (LENGTH('a) - 1) \<noteq> (0 < i \<and> bit n (i - 1)))"
    "bit (unzigzag n) i \<longleftrightarrow> i < LENGTH('a) \<and> (bit n 0 \<noteq> bit n (Suc i))"
proof -
  have push: "bit (push_bit 1 n) i \<longleftrightarrow> i < LENGTH('a) \<and> 0 < i \<and> bit n (i - 1)" by (simp only: bit_push_bit_iff possible_bit_word) auto
  have neg: "bit (NOT w) i \<longleftrightarrow> i < LENGTH('a) \<and> \<not> bit w i" for w :: "'a word" by (simp only: bit_not_iff possible_bit_word)
  have drop: "bit (drop_bit 1 n) i \<longleftrightarrow> bit n (Suc i)" by (simp only: bit_drop_bit_eq comp_def) simp
  show "bit (zigzag n) i \<longleftrightarrow> i < LENGTH('a) \<and> (bit n (LENGTH('a) - 1) \<noteq> (0 < i \<and> bit n (i - 1)))"
    unfolding zigzag_def by (cases "bit n (LENGTH('a) - 1)") (simp_all only: neg push if_True if_False, auto)
  show "bit (unzigzag n) i \<longleftrightarrow> i < LENGTH('a) \<and> (bit n 0 \<noteq> bit n (Suc i))"
    unfolding unzigzag_def bit_0 [symmetric] using bit_imp_le_length [of n "Suc i"]
    by (cases "bit n 0") (simp_all only: neg drop if_True if_False, auto)
qed

lemma unzigzag_zigzag: "unzigzag (zigzag n) = n" for n :: "'a::len word"
proof (rule bit_word_eqI)
  fix i assume i: "i < LENGTH('a)"
  show "bit (unzigzag (zigzag n)) i \<longleftrightarrow> bit n i"
  proof (cases "Suc i < LENGTH('a)")
    case False
    then have "i = LENGTH('a) - 1" using i by simp
    then show ?thesis using i by (auto simp: zigzag_bits)
  qed (use i in \<open>auto simp: zigzag_bits\<close>)
qed

lemma zigzag_unzigzag: "zigzag (unzigzag n) = n" for n :: "'a::len word"
proof (rule bit_word_eqI)
  fix i assume i: "i < LENGTH('a)"
  have "\<not> bit n (Suc (LENGTH('a) - 1))" using bit_imp_le_length [of n] by fastforce
  then show "bit (zigzag (unzigzag n)) i \<longleftrightarrow> bit n i"
    using i by (cases i) (auto simp: zigzag_bits)
qed

text \<open>What the coding means for the numbers.\<close>

lemma zigzag_value: "uint (zigzag n) = (if 0 \<le> sint n then 2 * sint n else - 2 * sint n - 1)" for n :: "'a::len word"
proof -
  let ?L = "LENGTH('a)"
  have L: "(2 :: int) ^ ?L = 2 * 2 ^ (?L - 1)" by (simp flip: power_Suc)
  have b: "- (2 ^ (?L - 1)) \<le> sint n" "sint n < 2 ^ (?L - 1)" using sint_greater_eq [of n] sint_less [of n] by simp_all
  have s: "bit n (?L - 1) \<longleftrightarrow> sint n < 0" by (simp add: bit_last_iff)
  have u: "uint (word_of_int k :: 'a word) = k" if "0 \<le> k" "k < 2 ^ ?L" for k using that by (simp add: unsigned_of_int take_bit_int_eq_self)
  have p: "push_bit 1 n = word_of_int (2 * sint n)" by (simp add: push_bit_eq_mult)
  show ?thesis
  proof (cases "0 \<le> sint n")
    case True
    then have "uint (word_of_int (2 * sint n) :: 'a word) = 2 * sint n" using b(2) L by (intro u) linarith+
    then show ?thesis unfolding zigzag_def s p using True by simp
  next
    case False
    have "NOT (word_of_int (2 * sint n) :: 'a word) = word_of_int (- 2 * sint n - 1)" by (simp add: not_eq_complement)
    moreover have "uint (word_of_int (- 2 * sint n - 1) :: 'a word) = - 2 * sint n - 1" using b(1) False L by (intro u) linarith+
    ultimately show ?thesis unfolding zigzag_def s p using False by simp
  qed
qed

section \<open>Facts on fields\<close>

lemma MakeTag_plus: "t < 8 \<Longrightarrow> n < 2 ^ 29 \<Longrightarrow> unat (MakeTag n t) = 8 * unat n + unat t"
proof -
  assume t: "t < 8" and n: "n < 2 ^ 29"
  have "unat t < 2 ^ 3" "unat n < 2 ^ 29" using t n by (simp_all add: word_less_nat_alt)
  then have "(of_nat (unat t) :: 32 word) OR push_bit 3 (of_nat (unat n)) = of_nat (unat t + 2 ^ 3 * unat n)" by (intro or_disjoint)
  then have "MakeTag n t = of_nat (unat t + 2 ^ 3 * unat n)" by (simp add: MakeTag_def or.commute)
  moreover have "unat t + 2 ^ 3 * unat n < 2 ^ 32" using \<open>unat t < 2 ^ 3\<close> \<open>unat n < 2 ^ 29\<close> by simp
  ultimately show ?thesis by (simp only: unsigned_of_nat) (simp add: take_bit_nat_eq_self)
qed

lemma tag_parts:
  assumes "t < 8" "n < 2 ^ 29"
  shows "GetTagWireType (MakeTag n t) = t" "GetTagFieldNumber (MakeTag n t) = n"
proof -
  have t: "unat t < 8" using assms(1) by (simp add: word_less_nat_alt)
  have "unat (GetTagFieldNumber (MakeTag n t)) = unat n"
    using MakeTag_plus [OF assms] t by (simp only: GetTagFieldNumber_def unat_drop) simp
  then show "GetTagFieldNumber (MakeTag n t) = n" by (simp only: word_unat_eq_iff)
  have "GetTagWireType (MakeTag n t) = take_bit 3 (MakeTag n t)"
    by (simp add: GetTagWireType_def take_bit_eq_mask mask_eq_exp_minus_1 push_bit_eq_mult)
  then have "unat (GetTagWireType (MakeTag n t)) = take_bit 3 (unat (MakeTag n t))" by (simp only: unsigned_take_bit_eq)
  then have "unat (GetTagWireType (MakeTag n t)) = unat t" using MakeTag_plus [OF assms] t by (simp add: take_bit_eq_mod)
  then show "GetTagWireType (MakeTag n t) = t" by (simp only: word_unat_eq_iff)
qed

lemma length_varint_bytes:
  "length (varint_bytes n) = (if n < 2 ^ 7 then 1 else if n < 2 ^ 14 then 2 else if n < 2 ^ 21 then 3 else if n < 2 ^ 28 then 4 else 5)"
  if "n < 2 ^ 35"
proof -
  have step: "length (varint_bytes n) = (if n < 128 then 1 else Suc (length (varint_bytes (n div 128))))" for n by simp
  show ?thesis using that
    by (simp add: step [of n] step [of "n div 128"] step [of "n div 128 div 128"] step [of "n div 128 div 128 div 128"]
        step [of "n div 128 div 128 div 128 div 128"] div_less_iff_less_mult flip: div_mult2_eq)
qed

lemma TagSize_length: "TagSize tag = length (UnsafeVarint tag)"
proof -
  have "unat tag < 2 ^ 32" using unsigned_less [of tag] by simp
  then have "unat tag < 2 ^ 35" by simp
  from length_varint_bytes [OF this] show ?thesis by (simp add: TagSize_def UnsafeVarint_bytes word_less_nat_alt)
qed

lemma ucast_byte_less: "(ucast b :: 32 word) < 128 \<longleftrightarrow> b < 128" for b :: byte
proof -
  have "unat b < 256" using unsigned_less [of b] by simp
  then have "unat (ucast b :: 32 word) = unat b" by (simp add: unsigned_ucast_eq take_bit_nat_eq_self)
  then show ?thesis by (simp add: word_less_nat_alt)
qed

text \<open>Tags and sizes take at most five bytes.\<close>

lemma ReadTag_ref:
  assumes "5 \<le> length p \<or> varint_len p \<noteq> None"
  shows "ReadTag p = Ok (map_option (\<lambda>n. (n, of_nat (payload (take n p)))) (varint_len (take 5 p)))"
proof -
  note u = ucast_byte_less
  consider b p' where "p = b # p'" "b < 128" | b c p' where "p = b # c # p'" "\<not> b < 128" "c < 128"
    | b c p' where "p = b # c # p'" "\<not> b < 128" "\<not> c < 128" "5 \<le> length p' + 2 \<or> varint_len p' \<noteq> None"
    using assms by (cases p; cases "tl p") (auto split: if_splits)
  then show ?thesis
  proof cases
    case 1
    then show ?thesis by (simp add: ReadTag_def byte_at_def u byte_less)
  next
    case 2
    then show ?thesis using two_bytes [OF 2(2), of c] by (simp add: ReadTag_def byte_at_def u byte_less Let_def del: of_nat_add)
  next
    case 3
    have two: "2 \<le> (5 :: nat)" "5 - 2 = (3 :: nat)" by simp_all
    note sl = slow_loop_two [OF two(1) 3(4) low_bits [OF 3(3)], where b = b and c = c, unfolded two(2)]
    have "ReadTag p = ReadTagFallback p (of_nat (unat b mod 128 + 128 * unat c))"
      using 3(1-3) two_bytes [OF 3(2), of c] by (simp add: ReadTag_def byte_at_def u Let_def del: of_nat_add)
    then show ?thesis unfolding ReadTagFallback_def 3(1) sl using 3(2,3)
      by (cases "varint_len (take 3 p')") (simp_all add: algebra_simps del: of_nat_add)
  qed
qed

lemma payload_less: "payload p < 128 ^ length p"
proof (induction p)
  case (Cons b p)
  have "unat b mod 128 + 128 * payload p < 128 + 128 * payload p" by simp
  also have "\<dots> = 128 * Suc (payload p)" by simp
  also have "\<dots> \<le> 128 * 128 ^ length p" using Cons by (intro mult_le_mono2) simp
  finally show ?case by simp
qed simp

lemma ReadSize_fifth:
  assumes "c < 8" "m < 2 ^ 28"
  shows "(of_nat m + 2 ^ (7 * 4)) + push_bit 28 (ucast (c :: byte) - 1) = (of_nat (m + 2 ^ (7 * 4) * unat c) :: 32 word)"
    "unat (of_nat (m + 2 ^ (7 * 4) * unat c) :: 32 word) = m + 2 ^ (7 * 4) * unat c"
proof -
  show "(of_nat m + 2 ^ (7 * 4)) + push_bit 28 (ucast c - 1) = (of_nat (m + 2 ^ (7 * 4) * unat c) :: 32 word)"
    by (simp add: push_bit_eq_mult algebra_simps)
  have "unat c < 8" using assms(1) by (simp add: word_less_nat_alt)
  then have "m + 2 ^ (7 * 4) * unat c < 2 ^ 32" using assms(2) by simp
  then show "unat (of_nat (m + 2 ^ (7 * 4) * unat c) :: 32 word) = m + 2 ^ (7 * 4) * unat c"
    by (simp only: unsigned_of_nat) (simp add: take_bit_nat_eq_self)
qed

lemma ReadSizeFallback_ref:
  assumes p: "p = b # p'" "\<not> b < 128" and l: "5 \<le> length p \<or> varint_len p \<noteq> None"
  shows "ReadSizeFallback p (ucast b) = Ok (case varint_len (take 5 p) of None \<Rightarrow> None
     | Some n \<Rightarrow> if 0x7FFFFFFF - 16 < payload (take n p) then None else Some (n, of_nat (payload (take n p))))"
proof -
  have b: "unat b = unat b mod 128 + 128" using p(2) by (intro byte_mod) (simp add: byte_less)
  have "(ucast b :: 32 word) = of_nat (unat b mod 128 + 128)" by (subst b [symmetric]) simp
  then have res: "(ucast b :: 32 word) = of_nat (unat b mod 128) + 2 ^ (7 * 1)" by simp
  have d: "drop 1 p = p'" "1 \<le> (4 :: nat)" "4 - 1 = (3 :: nat)" using p(1) by simp_all
  have "4 \<le> length p \<or> varint_len (drop 1 p) \<noteq> None" using l p by auto
  note sl = slow_loop_ref [OF d(2) this res, unfolded d(1,3)]
  have len: "varint_len (take 5 p) = map_option Suc (varint_len (take 4 p'))" using p by simp
  show ?thesis
  proof (cases "varint_len (take 3 p')")
    case (Some n)
    then have n: "n \<le> 3" using varint_len_le [OF Some] by simp
    have "take 4 p' = take 3 p' @ take 1 (drop 3 p')" using take_add [of 3 1 p'] by simp
    then have len4: "varint_len (take 4 p') = Some n" using Some by (simp only: varint_len_append) simp
    have "payload (take (Suc n) p) < 128 ^ length (take (Suc n) p)" by (rule payload_less)
    also have "\<dots> \<le> 128 ^ 4" using n by (intro power_increasing) auto
    finally have "\<not> 0x7FFFFFFF - 16 < payload (take (Suc n) p)" by simp
    then show ?thesis using Some len4 len p(1) unfolding ReadSizeFallback_def sl by simp
  next
    case None
    have 5: "3 < length p'"
    proof (rule ccontr)
      assume "\<not> 3 < length p'"
      then have "take 3 p' = p'" by simp
      then show False using l None p \<open>\<not> 3 < length p'\<close> by auto
    qed
    let ?c = "p' ! 3" and ?m = "unat b mod 128 + 2 ^ (7 * 1) * payload (take 3 p')"
    have t4: "take 4 p' = take 3 p' @ [?c]" using take_Suc_conv_app_nth [OF 5] by simp
    have len4: "varint_len (take 4 p') = (if ?c < 128 then Some 4 else None)" unfolding t4 varint_len_append None using 5 by simp
    have pay: "payload (take 5 p) = ?m + 2 ^ (7 * 4) * (unat ?c mod 128)" using p(1) 5 by (simp add: t4 payload_append)
    have "payload (b # take 3 p') < 128 ^ length (b # take 3 p')" by (rule payload_less)
    then have m: "?m < 2 ^ 28" using 5 by simp
    have at: "byte_at p 4 = Ok ?c" using p(1) 5 by (simp add: byte_at_def)
    show ?thesis
    proof (cases "?c < 8")
      case True
      then have c: "?c < 128" "unat ?c mod 128 = unat ?c" by (simp_all add: word_less_nat_alt)
      then show ?thesis
        unfolding ReadSizeFallback_def sl None option.case obind.simps sum.case at ReadSize_fifth(1) [OF True m] Let_def
        using True len len4 pay ReadSize_fifth(2) [OF True m] by (simp add: word_less_nat_alt word_le_nat_alt del: of_nat_add)
    next
      case False
      then have "8 \<le> unat ?c" by (simp add: word_less_nat_alt)
      then have "?c < 128 \<Longrightarrow> 2 ^ 31 \<le> payload (take 5 p)" unfolding pay by (simp add: byte_less)
      then show ?thesis unfolding ReadSizeFallback_def sl None option.case obind.simps sum.case at
        using False len len4 by (cases "?c < 128") (auto simp: not_less)
    qed
  qed
qed

lemma ReadSize_ref:
  assumes "5 \<le> length p \<or> varint_len p \<noteq> None"
  shows "ReadSize p = Ok (case varint_len (take 5 p) of None \<Rightarrow> None
     | Some n \<Rightarrow> if 0x7FFFFFFF - 16 < payload (take n p) then None else Some (n, of_nat (payload (take n p))))"
proof -
  obtain b p' where p: "p = b # p'" using assms by (cases p) auto
  show ?thesis
  proof (cases "b < 128")
    case True
    then show ?thesis using p by (simp add: ReadSize_def byte_at_def ucast_byte_less byte_less)
  next
    case False
    then have "ReadSize p = ReadSizeFallback p (ucast b)" using p by (simp add: ReadSize_def byte_at_def ucast_byte_less)
    then show ?thesis using ReadSizeFallback_ref [OF p False assms] by simp
  qed
qed

text \<open>A string field.\<close>

lemma WriteStringMaybeAliased_bytes:
  assumes "length s < 2 ^ 32"
  shows "WriteStringMaybeAliased room num s = varint_bytes (unat (MakeTag num 2)) @ varint_bytes (length s) @ s"
proof -
  have "unat (of_nat (length s) :: 32 word) = length s" using assms by (simp add: unsigned_of_nat take_bit_nat_eq_self)
  then show ?thesis
    by (simp add: WriteStringMaybeAliased_def WriteStringMaybeAliasedOutline_def WriteLengthDelim_def WriteTag_def MakeTag_def
        UnsafeVarint_bytes UnsafeWriteSize_bytes Let_def)
qed

lemma varint_len_short: "n < 2 ^ 35 \<Longrightarrow> varint_len (take 5 (varint_bytes n @ rest)) = Some (length (varint_bytes n))"
proof -
  assume "n < 2 ^ 35"
  then have "length (varint_bytes n) \<le> 5" using varint_bytes_bound [of n 4] by simp
  then show ?thesis by (simp add: varint_len_bytes)
qed

section \<open>Properties\<close>



lemma varint_ref_bytes:
  fixes v :: "'a::len word"
  assumes "8 \<le> LENGTH('a)" "LENGTH('a) \<le> 64"
  shows "varint_ref (UnsafeVarint v @ rest) = Some (length (UnsafeVarint v), v)"
proof -
  have "unat v < 2 ^ LENGTH('a)" by (rule unsigned_less)
  also have "\<dots> \<le> 2 ^ 64" using assms(2) by (intro power_increasing) auto
  finally have "length (varint_bytes (unat v)) \<le> 10" using varint_bytes_bound [of "unat v" 9] by simp
  then show ?thesis using assms(1) by (simp add: varint_ref_def UnsafeVarint_bytes varint_len_bytes payload_bytes)
qed

text \<open>C21: integers survive the wire. All ways of writing a varint write the same bytes, and reading returns the
number written and stops behind it, whatever follows; at 64 and at 32 bits, in both readers.\<close>

theorem varint_roundtrip:
  fixes v :: "64 word" and u :: "32 word"
  shows "UnsafeWriteSize v = UnsafeVarint v \<and> WriteVarint v = UnsafeVarint v \<and> UnsafeWriteSize u = UnsafeVarint u
    \<and> ReadVarint64 (UnsafeVarint v @ rest) = Ok (Some (length (UnsafeVarint v), v))
    \<and> VarintParse64 (UnsafeVarint v @ rest) = Ok (Some (length (UnsafeVarint v), v))
    \<and> ReadVarint32 (UnsafeVarint u @ rest) = Ok (Some (length (UnsafeVarint u), u))
    \<and> VarintParse32 (UnsafeVarint u @ rest) = Ok (Some (length (UnsafeVarint u), u))"
proof -
  have "readable (UnsafeVarint v @ rest)" "readable (UnsafeVarint u @ rest)"
    by (simp_all add: readable_def UnsafeVarint_bytes varint_len_bytes)
  moreover have "UnsafeWriteSize v = UnsafeVarint v" "UnsafeWriteSize u = UnsafeVarint u"
    by (simp_all add: UnsafeWriteSize_bytes UnsafeVarint_bytes)
  ultimately show ?thesis
    by (simp add: WriteVarint_def ReadVarint64_ref ReadVarint32_ref VarintParse64_ref VarintParse32_ref varint_ref_bytes)
qed

text \<open>C31: the size of a varint is computed from the position of its highest bit by a multiplication and a shift.
The result is the number of bytes written, between 1 and 5 at 32 bits and between 1 and 10 at 64 bits, and the size of a tag likewise. The position
of the highest bit is the same from the compiler's intrinsic and from the portable search.\<close>

theorem varint_sizes:
  fixes v :: "64 word" and u :: "32 word"
  shows "VarintSize64 v = length (UnsafeVarint v) \<and> 1 \<le> VarintSize64 v \<and> VarintSize64 v \<le> 10 \<and> VarintSize64PlusOne v = VarintSize64 v + 1
    \<and> VarintSize32 u = length (UnsafeVarint u) \<and> 1 \<le> VarintSize32 u \<and> VarintSize32 u \<le> 5 \<and> VarintSize32PlusOne u = VarintSize32 u + 1
    \<and> TagSize u = VarintSize32 u \<and> Log2FloorNonZero_Portable (u OR 1) = uint (Log2FloorNonZero (u OR 1))
    \<and> Log2FloorNonZero64_Portable (v OR 1) = uint (Log2FloorNonZero64 (v OR 1))"
proof -
  have "unat v < 2 ^ 64" "unat u < 2 ^ 32" using unsigned_less [of v] unsigned_less [of u] by simp_all
  then have "length (UnsafeVarint v) \<le> 10" "length (UnsafeVarint u) \<le> 5"
    using varint_bytes_bound [of "unat v" 9] varint_bytes_bound [of "unat u" 4] by (simp_all add: UnsafeVarint_bytes)
  moreover have "1 \<le> length (UnsafeVarint v)" "1 \<le> length (UnsafeVarint u)"
    using varint_bytes_pos [of "unat v"] varint_bytes_pos [of "unat u"] by (simp_all add: UnsafeVarint_bytes Suc_le_eq)
  ultimately show ?thesis
    using VarintSize64_length [of v] VarintSize32_length [of u] TagSize_length [of u] or_one_unat(2) [of u] or_one_unat(2) [of v]
    by (simp add: Log2FloorNonZero_Portable_eq Log2FloorNonZero64_Portable_eq)
qed

text \<open>C30: the ZigZag coding is a bijection between signed and unsigned words, at 32 and 64 bits. It takes a number that is not negative to
its double, and a negative number \<open>n\<close> to \<open>- 2 n - 1\<close>, so that numbers of small magnitude get short varints.\<close>

theorem zigzag_bijection:
  fixes n :: "32 word" and m :: "64 word"
  shows "ZigZagDecode32 (ZigZagEncode32 n) = n \<and> ZigZagEncode32 (ZigZagDecode32 n) = n
    \<and> ZigZagDecode64 (ZigZagEncode64 m) = m \<and> ZigZagEncode64 (ZigZagDecode64 m) = m
    \<and> uint (ZigZagEncode32 n) = (if 0 \<le> sint n then 2 * sint n else - 2 * sint n - 1)
    \<and> uint (ZigZagEncode64 m) = (if 0 \<le> sint m then 2 * sint m else - 2 * sint m - 1)"
  by (simp add: zigzag_defs unzigzag_zigzag zigzag_unzigzag zigzag_value)

text \<open>C22: string fields survive the wire. What is written for a string field, by the path for short strings or by the
other, is read back as the tag, with its field number and wire type, the length, and then the string itself, and what follows is left.\<close>

theorem string_field_roundtrip:
  assumes "num < 2 ^ 29" "length s \<le> 0x7FFFFFFF - 16"
  shows "\<exists>n m. let p = WriteStringMaybeAliased room num s @ rest in
     ReadTag p = Ok (Some (n, MakeTag num WIRETYPE_LENGTH_DELIMITED)) \<and> GetTagFieldNumber (MakeTag num WIRETYPE_LENGTH_DELIMITED) = num
     \<and> GetTagWireType (MakeTag num WIRETYPE_LENGTH_DELIMITED) = WIRETYPE_LENGTH_DELIMITED
     \<and> ReadSize (drop n p) = Ok (Some (m, of_nat (length s))) \<and> take (length s) (drop (n + m) p) = s \<and> drop (n + m + length s) p = rest"
proof -
  let ?t = "unat (MakeTag num 2)" and ?b = varint_bytes
  have "?t < 2 ^ 32" using unsigned_less [of "MakeTag num 2"] by simp
  then have t: "?t < 2 ^ 35" by simp
  have l: "length s < 2 ^ 32" "length s < 2 ^ 35" using assms(2) by simp_all
  let ?q = "?b (length s) @ s @ rest"
  have tag: "ReadTag (?b ?t @ ?q) = Ok (Some (length (?b ?t), MakeTag num 2))"
    using ReadTag_ref [of "?b ?t @ ?q"] varint_len_short [OF t, of ?q] by (simp add: varint_len_bytes payload_bytes)
  have sz: "ReadSize ?q = Ok (Some (length (?b (length s)), of_nat (length s)))"
    using ReadSize_ref [of ?q] varint_len_short [OF l(2), of "s @ rest"] assms(2) by (simp add: varint_len_bytes payload_bytes)
  have "WriteStringMaybeAliased room num s @ rest = ?b ?t @ ?q" by (simp add: WriteStringMaybeAliased_bytes [OF l(1)])
  then show ?thesis
    using tag sz tag_parts [OF _ assms(1), of 2]
    by (intro exI [of _ "length (?b ?t)"] exI [of _ "length (?b (length s))"]) (simp add: Let_def WIRETYPE_LENGTH_DELIMITED_def)
qed

theorem string_field_roundtrip_witness:
  "ReadTag (WriteStringMaybeAliased 0 1 [104, 105] @ [7]) = Ok (Some (1, 10)) \<and> MakeTag 1 WIRETYPE_LENGTH_DELIMITED = 10"
proof -
  have "(1 :: 32 word) < 2 ^ 29" "length [104, 105 :: byte] \<le> 0x7FFFFFFF - 16" by simp_all
  from string_field_roundtrip [OF this, of 0 "[7]"] obtain n where
    "ReadTag (WriteStringMaybeAliased 0 1 [104, 105] @ [7]) = Ok (Some (n, MakeTag 1 WIRETYPE_LENGTH_DELIMITED))"
    by (auto simp: Let_def)
  moreover have "ReadTag (WriteStringMaybeAliased 0 1 [104, 105] @ [7]) = Ok (Some (1, 10))" by code_simp
  ultimately show ?thesis by simp
qed

end
