(* ===== verification/Coroutine_Properties.thy ===== *)
theory Coroutine_Properties
  imports Rpc_Process
begin

text \<open>
  What the coroutine manager (rpc/src/rpc_coro_mgr.cpp) promises: each of its operations is the
  operation of the abstract view of \<open>Coroutine_Spec\<close>; a coroutine that waits is woken by the first
  \<open>Update\<close> at its deadline; \<open>Update\<close> ends; \<open>Stop\<close> ends or wakes every coroutine that waits.
\<close>

section \<open>Operations by coroutine id\<close>

lemma live_coro:
  assumes "winv w" "map_of (w_coros w) coroId = Some c"
  obtains o1 p i where "w_coro w c = Some o1" "co_id o1 = coroId" "co_inner o1 = Some p" "w_inner w p = Some i" "suspended w c o1 i"
    "\<not> in_cIsMain i"
proof -
  have inv: "cinv None w" "tables_ok w" using assms(1) by (simp_all add: winv_def cinv_def)
  obtain o1 where o1: "w_coro w c = Some o1" "co_id o1 = coroId" using tables_okD(4) [OF inv(2) assms(2)] by blast
  have "coro_ok None w c o1" by (rule cinv_coro [OF inv(1) o1(1)])
  then show ?thesis using o1 assms(2) that unfolding coro_ok_def by auto
qed

lemma Coro_Cancel_live:
  assumes w: "winv w" and live: "map_of (w_coros w) coroId = Some c"
  shows "\<exists>w'. Coro_Cancel (Suc n) c w = Ok (None, w') \<and> winv w' \<and> view w' = v_Cancel c (view w)"
proof -
  have inv: "cinv None w" "ts_inv None w" using w by (simp_all add: winv_def)
  obtain o1 p i where o1: "w_coro w c = Some o1" "suspended w c o1 i" using live_coro [OF w live] by blast
  show ?thesis
  proof (cases "deadline w c")
    case None
    have "co_yielded o1" using o1(2) by (simp add: suspended_def)
    then show ?thesis using Coro_Cancel_fresh [OF inv o1(1) _ None] w None by (simp add: v_Cancel_def)
  next
    case (Some dl)
    then show ?thesis using Coro_Cancel_ok [OF inv Some, of n] w by (auto simp: winv_def)
  qed
qed

lemma mgr_Resume_fresh:
  assumes w: "winv w" and live: "map_of (w_coros w) coroId = Some c" "deadline w c = None"
  shows "\<exists>w'. mgr_Resume (Suc n) coroId d w = Ok (None, w') \<and> winv w' \<and> view w' = v_Resume d c (view w)"
proof -
  have inv: "cinv None w" "ts_inv None w" using w by (simp_all add: winv_def)
  obtain o1 p i where o1: "w_coro w c = Some o1" "co_id o1 = coroId" "co_inner o1 = Some p" "w_inner w p = Some i" "suspended w c o1 i"
    using live_coro [OF w live(1)] by blast
  have "\<not> in_cStart i" using o1(5) live(2) by (auto simp: suspended_def)
  then show ?thesis
    using Coro_Resume_ok [OF inv o1(1) _ o1(3,4), of n d] live(1) o1(2) w
    by (auto simp: mgr_Resume_def GetCoro_def winv_def simp del: Coro_Resume.simps)
qed



section \<open>Update\<close>

lemma deadline_timer: "deadline w c = Some dl \<Longrightarrow> ts_timers w c \<noteq> None"
  by (cases "ts_timers w c") (simp_all add: deadline_def)

text \<open>What a view knows of one coroutine.\<close>

definition same_at :: "nat \<Rightarrow> int \<Rightarrow> 'g view \<Rightarrow> 'g view \<Rightarrow> bool" where
  "same_at c coroId v v' \<longleftrightarrow> v_coro v' c = v_coro v c \<and> v_cont v' c = v_cont v c \<and> v_dl v' c = v_dl v c
     \<and> v_live v' coroId = v_live v coroId \<and> v_dead v' coroId = v_dead v coroId"

lemma v_exec_leaves:
  assumes "s \<noteq> c" "co_id os \<noteq> coroId"
  shows "same_at c coroId v (v_exec s os prog v)"
  using assms by (simp add: same_at_def v_exec_other)

lemma v_exec_keeps_coros: "v_coro v t \<noteq> None \<Longrightarrow> v_coro (v_exec s os prog v) t \<noteq> None"
  using v_exec_coro [of s os prog v] by (cases "t = s") (auto simp: v_exec_other)

lemma v_exec_only_id:
  assumes "only_id v c coroId" "if s = c then co_id os = coroId else co_id os \<noteq> coroId"
  shows "only_id (v_exec s os prog v) c coroId"
  unfolding only_id_def
proof (intro allI impI)
  fix t ot
  assume t: "v_coro (v_exec s os prog v) t = Some ot" "co_id ot = coroId"
  show "t = c"
    using t assms v_exec_coro [of s os prog v] by (cases "t = s") (auto simp: only_id_def v_exec_other split: if_splits)
qed

text \<open>The coroutines that a round of \<open>Update\<close> wakes leave a coroutine alone that is not among them.\<close>

lemma timeouts_leave:
  "c \<notin> set ts \<Longrightarrow> \<forall>s\<in>set ts. v_coro v s \<noteq> None \<Longrightarrow> only_id v c coroId \<Longrightarrow>
   same_at c coroId v (fold v_Timeout ts v) \<and> only_id (fold v_Timeout ts v) c coroId \<and> v_now (fold v_Timeout ts v) = v_now v
     \<and> (\<forall>t. v_coro v t \<noteq> None \<longrightarrow> v_coro (fold v_Timeout ts v) t \<noteq> None)"
proof (induction ts arbitrary: v)
  case (Cons s ts)
  obtain os where os: "v_coro v s = Some os" "s \<noteq> c" using Cons.prems(1,2) by auto
  define o2 where "o2 = awake_coro VNil (os\<lparr>co_timeouted := True\<rparr>)"
  have id: "co_id o2 \<noteq> coroId" using Cons.prems(3) os by (auto simp: only_id_def o2_def)
  have eq: "v_Timeout s v = v_exec s o2 (resume_prog s o2 v) v" by (simp add: v_Timeout_def v_run_def os o2_def)
  have one: "same_at c coroId v (v_Timeout s v)" "only_id (v_Timeout s v) c coroId"
    unfolding eq using id os(2) by (simp_all add: v_exec_leaves v_exec_only_id [OF Cons.prems(3)])
  have kept: "v_coro v t \<noteq> None \<Longrightarrow> v_coro (v_Timeout s v) t \<noteq> None" for t unfolding eq by (rule v_exec_keeps_coros)
  have now: "v_now (v_Timeout s v) = v_now v" unfolding eq by simp
  have "c \<notin> set ts" "\<forall>t\<in>set ts. v_coro (v_Timeout s v) t \<noteq> None" using Cons.prems(1,2) kept by auto
  from Cons.IH [OF this one(2)] show ?case using one(1) kept now by (simp add: same_at_def)
qed (simp add: same_at_def)

lemma v_exec_settles:
  assumes "co_id o1 = coroId"
  shows "v_dead (v_exec c o1 prog v) coroId = Some c \<and> v_live (v_exec c o1 prog v) coroId = None
    \<or> (\<exists>dl. v_coro (v_exec c o1 prog v) c = Some (yielded_coro o1) \<and> v_dl (v_exec c o1 prog v) c = Some dl
         \<and> v_live (v_exec c o1 prog v) coroId = v_live v coroId)"
  using assms exec_frame(5) [of prog c "coro.truncate o1" "v\<lparr>v_coro := (v_coro v)(c \<mapsto> o1), v_dl := (v_dl v)(c := None)\<rparr>"]
  by (auto simp: v_exec_def settle_def split: prod.splits option.splits)

lemma Update_split:
  assumes w: "winv w" and c: "is_due w c" "w_coro w c = Some o1" "v_cont (view w) c = Some k" "map_of (w_coros w) (co_id o1) = Some c"
  defines "o2 \<equiv> awake_coro VNil (o1\<lparr>co_timeouted := True\<rparr>)"
  assumes fuel: "bh_size (ts_heap w) < fuel"
  shows "\<exists>w' ts1 ts2. mgr_Update fuel (Suc n) w = Ok w' \<and> winv w' \<and> (\<forall>t. \<not> is_due w' t)
     \<and> view w' = v_Recycle (fold v_Timeout ts2 (v_exec c o2 (k (Some ERROR_UNKNOWN)) (fold v_Timeout ts1 (view w))))
     \<and> same_at c (co_id o1) (v_exec c o2 (k (Some ERROR_UNKNOWN)) (fold v_Timeout ts1 (view w)))
         (fold v_Timeout ts2 (v_exec c o2 (k (Some ERROR_UNKNOWN)) (fold v_Timeout ts1 (view w))))
     \<and> v_live (fold v_Timeout ts1 (view w)) (co_id o1) = Some c \<and> v_now (view w') = v_now (view w)"
proof -
  obtain w' ts where w': "mgr_Update fuel (Suc n) w = Ok w'" "winv w'" "distinct ts" "set ts = {t. is_due w t}"
    "view w' = v_Recycle (fold v_Timeout ts (view w))" "\<forall>t. \<not> is_due w' t"
    using mgr_Update_ok [OF w fuel, of n] by blast
  obtain ts1 ts2 where ts: "ts = ts1 @ c # ts2" using w'(4) c(1) by (metis mem_Collect_eq split_list)
  have inv: "cinv None w" using w by (simp add: winv_def)
  have coro: "v_coro (view w) s \<noteq> None" if "s \<in> set ts" for s
  proof -
    have "ts_timers w s \<noteq> None" using that w'(4) deadline_timer by (force simp: is_due_def)
    then show ?thesis using inv by (simp add: cinv_def)
  qed
  let ?v1 = "fold v_Timeout ts1 (view w)" and ?v2 = "v_exec c o2 (k (Some ERROR_UNKNOWN)) (fold v_Timeout ts1 (view w))"
  have id: "co_id o2 = co_id o1" by (simp add: o2_def)
  have "\<forall>s\<in>set ts1. v_coro (view w) s \<noteq> None" "c \<notin> set ts1" using coro ts w'(3) by auto
  from timeouts_leave [OF this(2,1) live_only_id [OF w c(4)]]
  have v1: "same_at c (co_id o1) (view w) ?v1" "only_id ?v1 c (co_id o1)" "v_now ?v1 = v_now (view w)"
    "\<forall>t. v_coro (view w) t \<noteq> None \<longrightarrow> v_coro ?v1 t \<noteq> None" by blast+
  have run: "v_Timeout c ?v1 = ?v2"
    using v1(1) c(2,3) by (auto simp: v_Timeout_def v_run_def resume_prog_def same_at_def o2_def)
  have "v_coro ?v2 s \<noteq> None" if "s \<in> set ts2" for s
    using coro ts that v1(4) by (intro v_exec_keeps_coros) auto
  moreover have "c \<notin> set ts2" "only_id ?v2 c (co_id o1)" using ts w'(3) id by (auto intro: v_exec_only_id [OF v1(2)])
  ultimately have v3: "same_at c (co_id o1) ?v2 (fold v_Timeout ts2 ?v2)" "v_now (fold v_Timeout ts2 ?v2) = v_now ?v2"
    using timeouts_leave [of c ts2 ?v2 "co_id o1"] by blast+
  have "view w' = v_Recycle (fold v_Timeout ts2 ?v2)" using w'(5) ts run by simp
  moreover have "v_now (view w') = v_now (view w)" unfolding calculation using v3(2) v1(3) by (simp add: v_Recycle_def)
  moreover have "v_live ?v1 (co_id o1) = Some c" using v1(1) c(4) by (simp add: same_at_def)
  ultimately show ?thesis using w'(1,2,6) v3(1) by blast
qed

text \<open>What has become of a coroutine after the \<open>Update\<close> that woke it.\<close>

lemma settled:
  assumes w': "winv w'" "\<forall>t. \<not> is_due w' t"
    and v: "view w' = v_Recycle v3" "same_at c (co_id o1) (v_exec c o2 prog v1) v3" "v_live v1 (co_id o1) = Some c" "v_now (view w') = v_now v0"
    and o2: "v_now v0 = t" "co_id o2 = co_id o1" "co_resumeTimes o2 = co_resumeTimes o1 + 1"
  shows "case w_coro w' c of None \<Rightarrow> map_of (w_coros w') (co_id o1) = None
        | Some o2 \<Rightarrow> map_of (w_coros w') (co_id o1) = Some c \<and> co_resumeTimes o2 = co_resumeTimes o1 + 1
            \<and> (\<exists>dl'. deadline w' c = Some dl' \<and> t < dl')"
proof -
  let ?v2 = "v_exec c o2 prog v1"
  have f: "w_coro w' = v_coro v3 |` (- ran (v_dead v3))" "map_of (w_coros w') = v_live v3" "deadline w' = v_dl v3"
    using arg_cong [OF v(1), of v_coro] arg_cong [OF v(1), of v_live] arg_cong [OF v(1), of v_dl] by (simp_all add: v_Recycle_def)
  have eq: "v_coro v3 c = v_coro ?v2 c" "v_dl v3 c = v_dl ?v2 c" "v_live v3 (co_id o1) = v_live ?v2 (co_id o1)"
    "v_dead v3 (co_id o1) = v_dead ?v2 (co_id o1)" using v(2) by (simp_all add: same_at_def)
  from v_exec_settles [OF o2(2), of c prog v1] show ?thesis
  proof (elim disjE exE conjE)
    assume d: "v_dead ?v2 (co_id o1) = Some c" "v_live ?v2 (co_id o1) = None"
    then have "c \<in> ran (v_dead v3)" using eq(4) by (auto simp: ran_def)
    then show ?thesis using d(2) eq(3) f(1,2) by simp
  next
    fix dl
    assume y: "v_coro ?v2 c = Some (yielded_coro o2)" "v_dl ?v2 c = Some dl" "v_live ?v2 (co_id o1) = v_live v1 (co_id o1)"
    then have live: "map_of (w_coros w') (co_id o1) = Some c" "deadline w' c = Some dl" using eq f(2,3) v(3) by simp_all
    have "tables_ok w'" using w'(1) by (simp add: winv_def cinv_def)
    from tables_okD(4) [OF this live(1)] obtain o3 where o3: "w_coro w' c = Some o3" by blast
    then have "o3 = yielded_coro o2" using f(1) eq(1) y(1) by (auto simp: restrict_map_def split: if_splits)
    moreover have "t < dl" using spec [OF w'(2), of c] live(2) v(4) o2(1) by (simp add: is_due_def)
    ultimately show ?thesis using live o3 o2(3) by (simp add: yielded_coro_def)
  qed
qed

text \<open>C9: no coroutine waits for ever. A coroutine that waits until \<open>dl\<close> is woken by the first \<open>Update\<close> at \<open>dl\<close> or
later: its continuation runs with the flag \<open>timeouted\<close>, after those of some other coroutines, none of which touches it.
After the \<open>Update\<close> it has ended, and is freed and out of the table, or it has been resumed once more
and waits again, for a time that is still to come.\<close>

theorem coroutine_woken:
  assumes w: "winv w" and c: "deadline w c = Some dl" "dl \<le> t" "ts_now w \<le> t"
  shows "\<exists>w' o1 k ts1 ts2. w_coro w c = Some o1 \<and> v_cont (view w) c = Some k
     \<and> mgr_Update (Suc (bh_size (ts_heap w))) (Suc n) (w\<lparr>ts_now := t\<rparr>) = Ok w' \<and> winv w'
     \<and> view w' = v_Recycle (fold v_Timeout ts2 (v_exec c (awake_coro VNil (o1\<lparr>co_timeouted := True\<rparr>)) (k (Some ERROR_UNKNOWN))
         (fold v_Timeout ts1 (view (w\<lparr>ts_now := t\<rparr>)))))
     \<and> (case w_coro w' c of None \<Rightarrow> map_of (w_coros w') (co_id o1) = None
        | Some o2 \<Rightarrow> map_of (w_coros w') (co_id o1) = Some c \<and> co_resumeTimes o2 = co_resumeTimes o1 + 1
            \<and> (\<exists>dl'. deadline w' c = Some dl' \<and> t < dl'))"
proof -
  have inv: "cinv None w" using w by (simp add: winv_def)
  obtain o1 where o1: "w_coro w c = Some o1" "map_of (w_coros w) (co_id o1) = Some c"
    using deadline_coro [OF inv deadline_timer [OF c(1)]] c(1) by blast
  obtain p i where i: "co_inner o1 = Some p" "w_inner w p = Some i" "suspended w c o1 i"
    using live_coro [OF w o1(2)] o1(1) by (metis option.inject)
  then obtain k where k: "v_cont (view w) c = Some k" using c(1) o1(1) by (auto simp: suspended_def saved_ctx_def split: if_splits)
  let ?w = "w\<lparr>ts_now := t\<rparr>" and ?o2 = "awake_coro VNil (o1\<lparr>co_timeouted := True\<rparr>)"
  have t: "winv ?w" "view ?w = (view w)\<lparr>v_now := t\<rparr>" using winv_clock [OF w c(3)] by simp_all
  have dl: "deadline ?w = deadline w" by (rule ts_cong; simp)
  have "is_due ?w c" "w_coro ?w c = Some o1" "v_cont (view ?w) c = Some k" "map_of (w_coros ?w) (co_id o1) = Some c"
    using c o1 k t(2) dl by (simp_all add: is_due_def)
  moreover have "bh_size (ts_heap ?w) < Suc (bh_size (ts_heap w))" by simp
  ultimately obtain w' ts1 ts2 where
    u: "mgr_Update (Suc (bh_size (ts_heap w))) (Suc n) ?w = Ok w'" "winv w'" "\<forall>t. \<not> is_due w' t" and
    v: "view w' = v_Recycle (fold v_Timeout ts2 (v_exec c ?o2 (k (Some ERROR_UNKNOWN)) (fold v_Timeout ts1 (view ?w))))"
    "same_at c (co_id o1) (v_exec c ?o2 (k (Some ERROR_UNKNOWN)) (fold v_Timeout ts1 (view ?w)))
         (fold v_Timeout ts2 (v_exec c ?o2 (k (Some ERROR_UNKNOWN)) (fold v_Timeout ts1 (view ?w))))"
    "v_live (fold v_Timeout ts1 (view ?w)) (co_id o1) = Some c" "v_now (view w') = v_now (view ?w)"
    using Update_split [OF t(1), of c o1 k _ n] by blast
  have "case w_coro w' c of None \<Rightarrow> map_of (w_coros w') (co_id o1) = None
        | Some o2 \<Rightarrow> map_of (w_coros w') (co_id o1) = Some c \<and> co_resumeTimes o2 = co_resumeTimes o1 + 1
            \<and> (\<exists>dl'. deadline w' c = Some dl' \<and> t < dl')"
    by (rule settled [OF u(2,3) v]) (use t(2) in simp_all)
  then show ?thesis using o1(1) k u(1,2) v(1) by blast
qed

theorem coroutine_woken_witness:
  "\<exists>(w :: (byte list option \<times> byte list option) world) c t w'. winv w \<and> deadline w c = Some 5000 \<and> 5000 \<le> t \<and> ts_now w \<le> t
     \<and> mgr_Update (Suc (bh_size (ts_heap w))) 1 (w\<lparr>ts_now := t\<rparr>) = Ok w' \<and> winv w'"
proof -
  obtain w c where w: "winv w" "awaiting (view w) c 1 demo_rpc_env demo_method record_end 5000" using demo_call by blast
  have dl: "deadline w c = Some 5000" using w(2) by (simp add: awaiting_def)
  have t: "5000 \<le> max 6000 (ts_now w)" "ts_now w \<le> max 6000 (ts_now w)" by simp_all
  obtain w' where "mgr_Update (Suc (bh_size (ts_heap w))) (Suc 0) (w\<lparr>ts_now := max 6000 (ts_now w)\<rparr>) = Ok w'" "winv w'"
    using coroutine_woken [OF w(1) dl t, of 0] by (elim exE conjE)
  then show ?thesis
    using w(1) dl t unfolding One_nat_def
    by (intro exI [of _ w] exI [of _ c] exI [of _ "max 6000 (ts_now w)"] exI [of _ w']) simp
qed

text \<open>More fuel does not change what \<open>Update\<close> returns.\<close>

lemma Update_loop_more:
  "Update_loop n onTimeout now w = Ok w' \<Longrightarrow> n \<le> m \<Longrightarrow> Update_loop m onTimeout now w = Ok w'"
proof (induction n arbitrary: m w)
  case (Suc n)
  obtain m' where m: "m = Suc m'" "n \<le> m'" using Suc.prems(2) by (cases m) auto
  show ?case
  proof (cases "bh_FindTop (ts_heap w)")
    case (Inl e)
    then show ?thesis using Suc.prems(1) m(1) by simp
  next
    case (Inr data)
    obtain d where d: "data_at data w = Ok d" using Suc.prems(1) Inr by (cases "data_at data w") auto
    show ?thesis
      using Suc.prems(1) Suc.IH [OF _ m(2)] unfolding m(1)
      by (cases "bh_DeleteTop 0 (ts_key w) (ts_heap w)") (auto simp: Inr d obind_Ok_iff split: if_splits)
  qed
qed simp



section \<open>Stop\<close>

lemma v_Cancel_leaves:
  assumes "v_coro v c = Some o1" "n \<noteq> co_id o1"
  shows "v_live (v_Cancel c v) n = v_live v n"
  using assms by (simp add: v_Cancel_def v_run_def v_exec_other)

lemma Stop_loop_ok:
  "winv w \<Longrightarrow> distinct (map fst cs) \<Longrightarrow> \<forall>(coroId, c)\<in>set cs. map_of (w_coros w) coroId = Some c \<Longrightarrow>
   \<exists>w'. Stop_loop (Suc n) cs w = Ok w' \<and> winv w' \<and> view w' = fold v_Cancel (map snd cs) (view w)"
proof (induction cs arbitrary: w)
  case (Cons e cs)
  obtain coroId c where e: "e = (coroId, c)" by (cases e)
  have live: "map_of (w_coros w) coroId = Some c" using Cons.prems(3) e by simp
  obtain o1 p i where o1: "w_coro w c = Some o1" "co_id o1 = coroId" "co_inner o1 = Some p" "w_inner w p = Some i"
    "suspended w c o1 i" "\<not> in_cIsMain i" using live_coro [OF Cons.prems(1) live] .
  obtain w1 where w1: "Coro_Cancel (Suc n) c w = Ok (None, w1)" "winv w1" "view w1 = v_Cancel c (view w)"
    using Coro_Cancel_live [OF Cons.prems(1) live] by blast
  have "map_of (w_coros w1) coroId' = Some c'" if "(coroId', c') \<in> set cs" for coroId' c'
  proof -
    have "coroId' \<noteq> coroId" using that Cons.prems(2) e by force
    then have "v_live (view w1) coroId' = v_live (view w) coroId'" using w1(3) o1(1,2) v_Cancel_leaves [of "view w" c o1] by simp
    then show ?thesis using that Cons.prems(3) by auto
  qed
  then obtain w' where "Stop_loop (Suc n) cs w1 = Ok w'" "winv w'" "view w' = fold v_Cancel (map snd cs) (view w1)"
    using Cons.IH [OF w1(2)] Cons.prems(2) by auto
  moreover have "co_yielded o1" "coro_at c w = Ok o1" "IsMainCoro c w = Ok False" using o1 by (simp_all add: suspended_def IsMainCoro_def)
  ultimately show ?case using w1 e by simp
qed simp

lemma fresh_survives:
  "v_dl v c = None \<Longrightarrow> v_live v coroId = Some c \<Longrightarrow> only_id v c coroId \<Longrightarrow> \<forall>s\<in>set cs. v_coro v s \<noteq> None \<Longrightarrow>
   v_dl (fold v_Cancel cs v) c = None \<and> v_live (fold v_Cancel cs v) coroId = Some c \<and> only_id (fold v_Cancel cs v) c coroId
     \<and> (\<forall>t. v_coro v t \<noteq> None \<longrightarrow> v_coro (fold v_Cancel cs v) t \<noteq> None)"
proof (induction cs arbitrary: v)
  case (Cons s cs)
  show ?case
  proof (cases "v_dl v s")
    case None
    then show ?thesis using Cons by (simp add: v_Cancel_def)
  next
    case (Some dl)
    then have sc: "s \<noteq> c" using Cons.prems(1) by auto
    obtain os where os: "v_coro v s = Some os" using Cons.prems(4) by auto
    define o2 where "o2 = awake_coro VNil (os\<lparr>co_cancelled := True\<rparr>)"
    have id: "co_id o2 \<noteq> coroId" using Cons.prems(3) os sc by (auto simp: only_id_def o2_def)
    have eq: "v_Cancel s v = v_exec s o2 (resume_prog s o2 v) v" by (simp add: v_Cancel_def v_run_def Some os o2_def)
    have one: "same_at c coroId v (v_Cancel s v)" "only_id (v_Cancel s v) c coroId"
      unfolding eq using id sc by (simp_all add: v_exec_leaves v_exec_only_id [OF Cons.prems(3)])
    have kept: "v_coro v t \<noteq> None \<Longrightarrow> v_coro (v_Cancel s v) t \<noteq> None" for t unfolding eq by (rule v_exec_keeps_coros)
    have "v_dl (v_Cancel s v) c = None" "v_live (v_Cancel s v) coroId = Some c" "\<forall>t\<in>set cs. v_coro (v_Cancel s v) t \<noteq> None"
      using one(1) Cons.prems kept by (auto simp: same_at_def)
    from Cons.IH [OF this(1,2) one(2) this(3)] show ?thesis using kept by simp
  qed
qed simp

lemma table_coros:
  assumes "winv w"
  shows "distinct (map fst (w_coros w))" "\<forall>(coroId, c)\<in>set (w_coros w). map_of (w_coros w) coroId = Some c"
    "\<forall>s\<in>set (map snd (w_coros w)). v_coro (view w) s \<noteq> None"
proof -
  have tab: "tables_ok w" using assms by (simp add: winv_def cinv_def)
  then show d: "distinct (map fst (w_coros w))" by (simp add: tables_ok_def)
  then show "\<forall>(coroId, c)\<in>set (w_coros w). map_of (w_coros w) coroId = Some c" by (auto intro: map_of_is_SomeI)
  then show "\<forall>s\<in>set (map snd (w_coros w)). v_coro (view w) s \<noteq> None" using tables_okD(4) [OF tab] by fastforce
qed

text \<open>C33: \<open>Stop\<close> cancels the coroutines of the table one after the other, in the order of their ids, although the
table changes under the loop; then it makes a round of \<open>Update\<close> and sets the id counter back to 0. It always ends. A
coroutine that has been created and not yet been resumed is suspended too, but it is not cancelled: it stays in
the table, under an id that \<open>CreateCoro\<close> will give out again.\<close>

theorem stop_cancels_waiting:
  assumes w: "winv w"
  shows "\<exists>rounds. \<forall>fuel\<ge>rounds. \<exists>w' ts. mgr_Stop fuel (Suc n) w = Ok w'
     \<and> view w' = (v_Recycle (fold v_Timeout ts (fold v_Cancel (map snd (w_coros w)) (view w))))\<lparr>v_maxCoroId := 0\<rparr>
     \<and> (\<forall>coroId c. map_of (w_coros w) coroId = Some c \<and> deadline w c = None \<longrightarrow> map_of (w_coros w') coroId = Some c)"
proof -
  note tab = table_coros [OF w]
  obtain w1 where w1: "Stop_loop (Suc n) (w_coros w) w = Ok w1" "winv w1" "view w1 = fold v_Cancel (map snd (w_coros w)) (view w)"
    using Stop_loop_ok [OF w tab(1,2)] by blast
  have "\<exists>w' ts. mgr_Stop fuel (Suc n) w = Ok w'
     \<and> view w' = (v_Recycle (fold v_Timeout ts (fold v_Cancel (map snd (w_coros w)) (view w))))\<lparr>v_maxCoroId := 0\<rparr>
     \<and> (\<forall>coroId c. map_of (w_coros w) coroId = Some c \<and> deadline w c = None \<longrightarrow> map_of (w_coros w') coroId = Some c)"
    if fuel: "Suc (bh_size (ts_heap w1)) \<le> fuel" for fuel
  proof -
    have "bh_size (ts_heap w1) < fuel" using fuel by simp
    then obtain w2 ts where w2: "mgr_Update fuel (Suc n) w1 = Ok w2" "set ts = {t. is_due w1 t}" "view w2 = v_Recycle (fold v_Timeout ts (view w1))"
      using mgr_Update_ok [OF w1(2), of fuel n] by blast
    let ?w = "w2\<lparr>w_maxCoroId := 0\<rparr>"
    have "deadline ?w = deadline w2" "\<And>c. saved_ctx ?w c = saved_ctx w2 c" by (rule ts_cong saved_ctx_cong; simp)+
    then have "view ?w = (view w2)\<lparr>v_maxCoroId := 0\<rparr>" by (simp add: view_def)
    moreover have "map_of (w_coros ?w) coroId = Some c" if "map_of (w_coros w) coroId = Some c" "deadline w c = None" for coroId c
    proof -
      have c: "deadline w1 c = None" "map_of (w_coros w1) coroId = Some c" "only_id (view w1) c coroId"
        using fresh_survives [of "view w" c coroId "map snd (w_coros w)"] that live_only_id [OF w that(1)] tab(3)
        by (simp_all flip: w1(3))
      have inv: "cinv None w1" using w1(2) by (simp add: winv_def)
      have "v_coro (view w1) s \<noteq> None" if "s \<in> set ts" for s
        using that w2(2) deadline_timer inv by (force simp: is_due_def cinv_def)
      moreover have "c \<notin> set ts" using w2(2) c(1) by (simp add: is_due_def)
      ultimately have "v_live (fold v_Timeout ts (view w1)) coroId = Some c"
        using timeouts_leave [of c ts "view w1" coroId] c(2,3) by (simp add: same_at_def)
      then show ?thesis using arg_cong [OF w2(3), of v_live] by (simp add: v_Recycle_def)
    qed
    moreover have "mgr_Stop fuel (Suc n) w = Ok ?w" using w1(1) w2(1) by (simp add: mgr_Stop_def)
    ultimately show ?thesis using w2(3) w1(3) by (intro exI [of _ ?w] exI [of _ ts]) simp
  qed
  then show ?thesis by blast
qed

theorem stop_cancels_waiting_witness:
  "\<exists>(w :: nat world) c w' fuel. winv w \<and> map_of (w_coros w) 1 = Some c \<and> mgr_Stop fuel 1 w = Ok w' \<and> map_of (w_coros w') 1 = Some c
     \<and> w_maxCoroId w' = 0"
proof -
  let ?w = "demo_world 0 :: nat world"
  obtain w c p where w: "winv w" "view w = v_Create c p (\<lambda>a. Put a Finish) 3 (view ?w)" "w_coro ?w c = None"
    using CreateCoro_ok [OF demo_ok(5) [of "0 :: nat"], of "\<lambda>a. Put a Finish" 3] by (auto simp: demo_ok)
  have "map_of (w_coros w) 1 = Some c" using arg_cong [OF w(2), of v_live] by (simp add: v_Create_def demo_ok fun_eq_iff)
  moreover have "deadline w c = None"
    using arg_cong [OF w(2), of v_dl] by (simp add: v_Create_def) (simp add: deadline_def demo_world_def world_init_def tstate.defs ts_init_def)
  moreover obtain rounds where "\<forall>fuel\<ge>rounds. \<exists>w' ts. mgr_Stop fuel (Suc 0) w = Ok w'
     \<and> view w' = (v_Recycle (fold v_Timeout ts (fold v_Cancel (map snd (w_coros w)) (view w))))\<lparr>v_maxCoroId := 0\<rparr>
     \<and> (\<forall>coroId c. map_of (w_coros w) coroId = Some c \<and> deadline w c = None \<longrightarrow> map_of (w_coros w') coroId = Some c)"
    using stop_cancels_waiting [OF w(1), of 0] by (elim exE)
  then obtain w' v where w': "mgr_Stop rounds (Suc 0) w = Ok w'" "view w' = v\<lparr>v_maxCoroId := 0\<rparr>"
    "\<forall>coroId c. map_of (w_coros w) coroId = Some c \<and> deadline w c = None \<longrightarrow> map_of (w_coros w') coroId = Some c" by blast
  ultimately have "map_of (w_coros w') 1 = Some c" by blast
  then show ?thesis
    using w(1) w'(1) \<open>map_of (w_coros w) 1 = Some c\<close> arg_cong [OF w'(2), of v_maxCoroId] unfolding One_nat_def
    by (intro exI [of _ w] exI [of _ c] exI [of _ w'] exI [of _ rounds]) simp
qed

end
