(* ===== verification/Rpc_Wire.thy ===== *)
theory Rpc_Wire
  imports Rpc_Properties
begin

text \<open>
  RPC packets on a connection: what \<open>PacketProtocol::Send\<close> writes for a packet, cut by the network into any
  pieces, is given to the receiver's \<open>PacketProtocol::Recv\<close> piece by piece.
\<close>

definition carries :: "nat \<Rightarrow> nat \<Rightarrow> recv_env \<Rightarrow> packet \<Rightarrow> (packet \<Rightarrow> bool) \<Rightarrow> bool" where
  "carries me me' rcv p arrives \<longleftrightarrow> (\<exists>b. pp_Send me p = Ok b \<and> (\<forall>chunks st. concat chunks = mb_data b \<and> pp_inv me' rcv st \<and> pending st = [] \<longrightarrow>
     (\<exists>q st'. recv_all me' rcv chunks st = Ok (False, [q], st') \<and> pp_inv me' rcv st' \<and> pending st' = [] \<and> arrives q)))"

definition receiver_ok :: "recv_env \<Rightarrow> bool" where
  "receiver_ok rcv \<longleftrightarrow> re_maxPacketLen rcv < 2 ^ 32 \<and> pk_pool_ok (re_pool rcv)"

lemma carries_packet:
  assumes "host_order me" "host_order me'" "receiver_ok rcv" "sendable (re_maxPacketLen rcv) p"
    and arrives: "\<And>q. delivered p q \<Longrightarrow> pk_sessionId q = re_sessionId rcv \<Longrightarrow> arrives q"
  shows "carries me me' rcv p arrives"
proof -
  have rcv: "re_maxPacketLen rcv < 2 ^ 32" "pk_pool_ok (re_pool rcv)" using assms(3) by (simp_all add: receiver_ok_def)
  obtain b where b: "pp_Send me p = Ok b" "mb_data b = wire me p" using assms(4) pp_Send_wire [of p me] by (auto simp: sendable_def)
  have "\<exists>q st'. recv_all me' rcv chunks st = Ok (False, [q], st') \<and> pp_inv me' rcv st' \<and> pending st' = [] \<and> arrives q"
    if st: "concat chunks = mb_data b" "pp_inv me' rcv st" "pending st = []" for chunks st
  proof -
    have "frames me' (re_maxPacketLen rcv) (pending st @ concat chunks) = Some ([wire me p], [])"
      using frames_wires [OF assms(1,2) rcv(1), of "[p]"] st(1,3) b(2) assms(4) by simp
    from recv_all_frames [OF rcv(2) st(2) this] obtain q st' where
      r: "recv_all me' rcv chunks st = Ok (False, [q], st')" "pp_inv me' rcv st'" "pending st' = []" "packet_of_frame me' rcv (wire me p) q"
      by (auto simp: list_all2_Cons1)
    then show ?thesis using arrives frame_delivered(1,2) [OF assms(1,2,4) r(4)] by blast
  qed
  then show ?thesis using b(1) by (auto simp: carries_def)
qed

lemma carries_request:
  assumes "host_order me" "host_order me'" "receiver_ok rcv" "is_request p sid md coroId req"
    "headerLen + length (req_data md coroId req) \<le> re_maxPacketLen rcv"
  shows "carries me me' rcv p (\<lambda>q. is_request q (re_sessionId rcv) md coroId req)"
  using assms(4,5) by (intro carries_packet [OF assms(1-3)]) (auto simp: sendable_def is_request_def delivered_def)

lemma carries_response:
  assumes "host_order me" "host_order me'" "receiver_ok rcv" "is_response p sid md coroId errText rsp"
    "headerLen + length (rsp_data md coroId errText rsp) \<le> re_maxPacketLen rcv"
  shows "carries me me' rcv p (\<lambda>q. is_response q (re_sessionId rcv) md coroId errText rsp)"
  using assms(4,5) by (intro carries_packet [OF assms(1-3)]) (auto simp: sendable_def is_response_def delivered_def)

lemma carries_mono: "carries me me' rcv p P \<Longrightarrow> (\<And>q. P q \<Longrightarrow> Q q) \<Longrightarrow> carries me me' rcv p Q"
  unfolding carries_def by meson

text \<open>The packet \<open>q\<close> returns from the call of the coroutine \<open>c\<close>, whatever the client has done since it called: the code
behind the call, \<open>k\<close>, runs with the error text and the message.\<close>

definition returns_from :: "rpc_env \<Rightarrow> int \<Rightarrow> nat \<Rightarrow> int \<Rightarrow> 'm rpc_method \<Rightarrow> (byte list option \<Rightarrow> 'm option \<Rightarrow> 'g prog) \<Rightarrow> int
    \<Rightarrow> byte list \<Rightarrow> 'm \<Rightarrow> packet \<Rightarrow> bool" where
  "returns_from env sid c coroId md k dl errText rsp q \<longleftrightarrow> (\<forall>(w :: 'g world) (svcs :: ('m, 'g) services).
     winv w \<and> awaiting (view w) c coroId env md k dl \<and> subscribed (w_conn w) \<and> link_up sid (w_conn w) \<longrightarrow>
     (\<exists>w' o2. HandleEvent 1 env svcs (DataArrival q) w = Ok w' \<and> winv w'
        \<and> view w' = v_Forget (v_exec c o2 (k (if errText = [] then None else Some errText) (Some rsp)) (view w))))"

lemma response_returns:
  assumes "env_ok envs" "env_ok env" "receiver_ok rcv" "is_response r sid md coroId errText rsp" "is_int coroId" "codec_fits (md_rsp md) rsp"
    and len: "headerLen + length (rsp_data md coroId errText rsp) \<le> re_maxPacketLen rcv" "re_maxPacketLen rcv + 8192 \<le> 2 ^ 31"
  shows "carries (env_me envs) (env_me env) rcv r (returns_from env (re_sessionId rcv) c coroId md k dl errText rsp)"
proof (rule carries_mono [OF carries_response [OF _ _ assms(3,4) len(1)]])
  fix q
  assume q: "is_response q (re_sessionId rcv) md coroId errText rsp"
  then have "length (pk_data q) + 8192 \<le> 2 ^ 31" using len by (simp add: is_response_def)
  from response_event [OF _ _ assms(2,5) _ _ q assms(6) this, of _ _ _ _ 0]
  show "returns_from env (re_sessionId rcv) c coroId md k dl errText rsp q" unfolding returns_from_def One_nat_def by blast
qed (use assms(1,2) in \<open>simp_all add: env_ok_def\<close>)

lemma request_answered:
  assumes "env_ok envc" "env_ok envs" "receiver_ok rcv" "is_request p sid md coroId req" "is_int coroId" "method_ok md" "codec_fits (md_req md) req"
    and server: "winv ws" "subscribed (w_conn ws)" "link_up (re_sessionId rcv) (w_conn ws)" "registered svcs md f" "\<not> md_isCoroRequired md"
    and ans: "answers md f req ctl rsp ls" "fits_str (ctl_errorText ctl)" "codec_fits (md_rsp md) rsp"
    and len: "headerLen + length (req_data md coroId req) \<le> re_maxPacketLen rcv"
  shows "carries (env_me envc) (env_me envs) rcv p (\<lambda>q. \<exists>ws' r. HandleEvent 1 envs svcs (DataArrival q) ws = Ok ws' \<and> winv ws'
     \<and> sent_packets (w_conn ws') = sent_packets (w_conn ws) @ [r] \<and> is_response r (re_sessionId rcv) md coroId (ctl_errorText ctl) rsp)"
proof (rule carries_mono [OF carries_request [OF _ _ assms(3,4) len]])
  fix q
  assume q: "is_request q (re_sessionId rcv) md coroId req"
  show "\<exists>ws' r. HandleEvent 1 envs svcs (DataArrival q) ws = Ok ws' \<and> winv ws'
     \<and> sent_packets (w_conn ws') = sent_packets (w_conn ws) @ [r] \<and> is_response r (re_sessionId rcv) md coroId (ctl_errorText ctl) rsp"
    using request_event [OF server(1) assms(2) server(2,3) q assms(6,7,5) server(4,5) ans, of 1] by blast
qed (use assms(1,2) in \<open>simp_all add: env_ok_def\<close>)

end
