(* ===== verification/Main_Loops.thy ===== *)
theory Main_Loops
  imports Echo
begin

text \<open>
  The main loops of the example programs (rpc/src/server/server.cpp, rpc/src/client/client.cpp,
  rpc/src/client/client_stress_test.cpp): a round of each is a function on the process. Between two rounds time
  passes (\<open>LLBC_Sleep\<close>) and the network puts events into the queue of the service.
\<close>

section \<open>Rounds\<close>

text \<open>\<open>Update\<close> and \<open>Tick\<close>, with which every loop starts; the server does nothing else.\<close>

definition main_round :: "nat \<Rightarrow> nat \<Rightarrow> rpc_env \<Rightarrow> ('m, 'g) services \<Rightarrow> 'g world \<Rightarrow> 'g world outcome" where
  "main_round fuel n env svcs w = obind (mgr_Update fuel n w) (cm_Tick n env svcs)"

definition spawn :: "nat \<Rightarrow> (nat \<Rightarrow> 'g prog) \<Rightarrow> 'g world \<Rightarrow> 'g world outcome" where
  "spawn n entry w = obind (CreateCoro entry 0 w) (\<lambda>(c, w1). obind (Coro_Resume n VNil c w1) (\<lambda>(_, w2). Ok w2))"

text \<open>The client starts a coroutine in every thousandth round.\<close>

definition client_round :: "nat \<Rightarrow> nat \<Rightarrow> rpc_env \<Rightarrow> ('m, 'g) services \<Rightarrow> (nat \<Rightarrow> 'g prog) \<Rightarrow> int \<times> 'g world \<Rightarrow> (int \<times> 'g world) outcome" where
  "client_round fuel n env svcs entry st = (let (count, w) = st in obind (main_round fuel n env svcs w) (\<lambda>w1.
     if count + 1 = 1000 then obind (spawn n entry w1) (\<lambda>w2. Ok (0, w2)) else Ok (count + 1, w1)))"

text \<open>The stress test starts one whenever there are fewer than 200.\<close>

definition GetCorosSize :: "'g world \<Rightarrow> nat" where
  "GetCorosSize w = length (w_coros w)"

definition stress_round :: "nat \<Rightarrow> nat \<Rightarrow> rpc_env \<Rightarrow> ('m, 'g) services \<Rightarrow> (nat \<Rightarrow> 'g prog) \<Rightarrow> 'g world \<Rightarrow> 'g world outcome" where
  "stress_round fuel n env svcs entry w = obind (main_round fuel n env svcs w) (\<lambda>w1.
     if GetCorosSize w1 < 200 then spawn n entry w1 else Ok w1)"

section \<open>The coroutine of the stress test\<close>

text \<open>The variables of \<open>main\<close> that the coroutines share. The readings of \<open>LLBC_GetMicroSeconds\<close> are an input:
\<open>st_micros i\<close> is the one of the \<open>i\<close>th call. The numbers are \<open>long long\<close>s, far from their bounds.\<close>

record stress_vars =
  st_cntl :: controller
  st_rsp :: echo_msg
  st_printTime :: int
  st_rpcCallCount :: int
  st_failCount :: int
  st_rpcCallTimeSum :: int
  st_maxRpcCallTime :: int
  st_minRpcCallTime :: int
  st_micros :: "nat \<Rightarrow> int"
  st_reads :: nat

definition LLONG_MAX :: int where
  "LLONG_MAX = 2 ^ 63 - 1"

definition stress_init :: "(nat \<Rightarrow> int) \<Rightarrow> stress_vars" where
  "stress_init micros = \<lparr>st_cntl = RpcController_new, st_rsp = None, st_printTime = 0, st_rpcCallCount = 0, st_failCount = 0,
     st_rpcCallTimeSum = 0, st_maxRpcCallTime = 0, st_minRpcCallTime = LLONG_MAX, st_micros = micros, st_reads = 0\<rparr>"

definition GetMicroSeconds :: "(int \<Rightarrow> stress_vars prog) \<Rightarrow> stress_vars prog" where
  "GetMicroSeconds k = Get (\<lambda>g. Put (g\<lparr>st_reads := st_reads g + 1\<rparr>) (k (st_micros g (st_reads g))))"

text \<open>The statistics after a call that took from \<open>beginTime\<close> to \<open>endTime\<close>.\<close>

definition stress_count :: "int \<Rightarrow> int \<Rightarrow> stress_vars \<Rightarrow> stress_vars" where
  "stress_count beginTime endTime g = (let tmpTime = endTime - beginTime in
     g\<lparr>st_rpcCallTimeSum := st_rpcCallTimeSum g + tmpTime, st_rpcCallCount := st_rpcCallCount g + 1,
       st_failCount := (if ctl_isFailed (st_cntl g) then st_failCount g + 1 else st_failCount g),
       st_maxRpcCallTime := (if st_maxRpcCallTime g < tmpTime then tmpTime else st_maxRpcCallTime g),
       st_minRpcCallTime := (if tmpTime < st_minRpcCallTime g then tmpTime else st_minRpcCallTime g)\<rparr>)"

definition stress_reset :: "int \<Rightarrow> stress_vars \<Rightarrow> stress_vars" where
  "stress_reset endTime g = g\<lparr>st_printTime := endTime, st_rpcCallTimeSum := 0, st_rpcCallCount := 0, st_failCount := 0,
     st_maxRpcCallTime := 0, st_minRpcCallTime := LLONG_MAX\<rparr>"

text \<open>The code behind the call. The statistics go to the log every second; the log entry has the format without the numbers.\<close>

definition stress_done :: "int \<Rightarrow> byte list option \<Rightarrow> echo_msg option \<Rightarrow> stress_vars prog" where
  "stress_done beginTime reason rsp =
     Get (\<lambda>g. Put (g\<lparr>st_cntl := fail_with reason (st_cntl g), st_rsp := (case rsp of None \<Rightarrow> st_rsp g | Some m \<Rightarrow> m)\<rparr>)
     (GetMicroSeconds (\<lambda>endTime. Get (\<lambda>g1. let g2 = stress_count beginTime endTime g1 in
       if 1000000 \<le> endTime - st_printTime g2 then Info ''Rpc Statistic fin, Count:%lld, Fail Count:%lld, Total sum Time:%lld, Avg Time:%.2f, Max Time:%lld, Min Time:%lld'' [] (Put (stress_reset endTime g2) Finish)
       else Put g2 Finish))))"

definition stress_func :: "rpc_env \<Rightarrow> int \<Rightarrow> echo_msg rpc_method \<Rightarrow> nat \<Rightarrow> stress_vars prog" where
  "stress_func env sid echo args = GetMicroSeconds (\<lambda>beginRpcReqTime. Get (\<lambda>g. Put (g\<lparr>st_rsp := None\<rparr>)
     (CallMethod env sid echo (Some (ascii ''Hello, Echo.'')) (stress_done beginRpcReqTime))))"

section \<open>A round does not fault\<close>

definition queue :: "rpc_handler conn_mgr \<Rightarrow> svc_event list" where
  "queue c = (case cm_svc c of None \<Rightarrow> [] | Some s \<Rightarrow> sv_events s)"

definition is_started :: "rpc_handler conn_mgr \<Rightarrow> bool" where
  "is_started c \<longleftrightarrow> (\<exists>s. cm_svc c = Some s \<and> sv_started s)"

definition calls :: "rpc_handler conn_mgr \<Rightarrow> svc_event list \<Rightarrow> nat" where
  "calls c evs = length (filter (is_call c) evs)"

lemma wiring_cong:
  assumes "wiring c = wiring c'"
  shows "fine_event env svcs c = fine_event env svcs c'" "is_call c = is_call c'" "calls c = calls c'" "queue c = queue c'" "is_started c \<longleftrightarrow> is_started c'"
proof -
  have h: "map_option sv_handlers (cm_svc c) = map_option sv_handlers (cm_svc c')" "map_option sv_events (cm_svc c) = map_option sv_events (cm_svc c')"
    "map_option sv_started (cm_svc c) = map_option sv_started (cm_svc c')"
    using assms by (cases "cm_svc c"; cases "cm_svc c'"; simp add: wiring_def)+
  have via: "(\<exists>s. cm_svc c = Some s \<and> P (sv_handlers s)) \<longleftrightarrow> (\<exists>s. cm_svc c' = Some s \<and> P (sv_handlers s))" for P
    using h(1) by (cases "cm_svc c"; cases "cm_svc c'") simp_all
  have call: "is_call c ev \<longleftrightarrow> is_call c' ev" for ev
    using via [of "\<lambda>hs. \<exists>p. ev = DataArrival p \<and> hs (pk_opcode p) = Some OnRpcReq"] unfolding is_call_def by blast
  then show "is_call c = is_call c'" by (rule ext)
  then show "calls c = calls c'" by (intro ext) (simp add: calls_def)
  have "fine_event env svcs c ev \<longleftrightarrow> fine_event env svcs c' ev" for ev
    using via [of "\<lambda>hs. \<exists>p h. ev = DataArrival p \<and> hs (pk_opcode p) = Some h
      \<and> \<not> (case h of OnRpcReq \<Rightarrow> fine_request env svcs p | OnRpcRsp \<Rightarrow> fine_response p)"] unfolding fine_event_def by blast
  then show "fine_event env svcs c = fine_event env svcs c'" by (rule ext)
  show "queue c = queue c'" using h(2) by (cases "cm_svc c"; cases "cm_svc c'") (simp_all add: queue_def)
  show "is_started c \<longleftrightarrow> is_started c'" using h(3) by (cases "cm_svc c"; cases "cm_svc c'") (simp_all add: is_started_def)
qed

lemma events_ok:
  assumes env: "env_ok env"
  shows "winv w \<Longrightarrow> \<forall>ev\<in>set evs. fine_event env svcs (w_conn w) ev \<Longrightarrow> w_maxCoroId w + int (calls (w_conn w) evs) < 2 ^ 31 - 1 \<Longrightarrow>
   \<exists>w'. HandleQueuedEvents (Suc n) env svcs evs w = Ok w' \<and> evolves (calls (w_conn w) evs) w w'"
proof (induction evs arbitrary: w)
  case Nil
  then show ?case using evolves_refl by simp
next
  case (Cons ev evs)
  let ?k = "if is_call (w_conn w) ev then 1 else 0 :: nat"
  have "w_maxCoroId w < 2 ^ 31 - 1" using Cons.prems(3) by simp
  from event_step [OF Cons.prems(1) this env, of svcs ev n] obtain w1 where
    w1: "HandleEvent (Suc n) env svcs ev w = Ok w1" "evolves ?k w w1" using Cons.prems(2) by auto
  have wir: "wiring (w_conn w1) = wiring (w_conn w)" using w1(2) by (simp add: evolves_def)
  have k: "calls (w_conn w) (ev # evs) = ?k + calls (w_conn w1) evs" by (simp add: calls_def wiring_cong(2) [OF wir])
  have "winv w1" "w_maxCoroId w1 \<le> w_maxCoroId w + int ?k" using w1(2) by (simp_all only: evolves_def)
  moreover have "\<forall>ev\<in>set evs. fine_event env svcs (w_conn w1) ev" using Cons.prems(2) wiring_cong(1) [OF wir, of env svcs] by simp
  moreover have "w_maxCoroId w1 + int (calls (w_conn w1) evs) < 2 ^ 31 - 1" using Cons.prems(3) calculation(2) unfolding k by simp
  ultimately obtain w' where "HandleQueuedEvents (Suc n) env svcs evs w1 = Ok w'" "evolves (calls (w_conn w1) evs) w1 w'"
    using Cons.IH by blast
  then show ?case using w1(1) evolves_trans [OF w1(2)] unfolding k by simp
qed

lemma tick_ok:
  assumes env: "env_ok env" and w: "winv w" "\<forall>ev\<in>set (queue (w_conn w)). fine_event env svcs (w_conn w) ev"
    and max: "w_maxCoroId w + int (calls (w_conn w) (queue (w_conn w))) < 2 ^ 31 - 1"
  shows "\<exists>w'. cm_Tick (Suc n) env svcs w = Ok w' \<and> winv w' \<and> GetCorosSize w' \<le> GetCorosSize w + calls (w_conn w) (queue (w_conn w))
     \<and> w_maxCoroId w' \<le> w_maxCoroId w + int (calls (w_conn w) (queue (w_conn w)))
     \<and> (\<forall>ev. fine_event env svcs (w_conn w') ev \<longleftrightarrow> fine_event env svcs (w_conn w) ev)
     \<and> queue (w_conn w') = (if is_started (w_conn w) then [] else queue (w_conn w))"
proof -
  obtain s where s: "cm_svc (w_conn w) = Some s" using w(1) by (auto simp: winv_def cinv_def)
  show ?thesis
  proof (cases "sv_started s")
    case False
    then show ?thesis using s w(1) by (simp add: cm_Tick_def is_started_def)
  next
    case True
    let ?c = "(w_conn w)\<lparr>cm_svc := Some (s\<lparr>sv_events := []\<rparr>)\<rparr>" let ?w = "w\<lparr>w_conn := (w_conn w)\<lparr>cm_svc := Some (s\<lparr>sv_events := []\<rparr>)\<rparr>\<rparr>"
    have q: "queue (w_conn w) = sv_events s" "queue ?c = []" using s by (simp_all add: queue_def)
    have eq: "fine_event env svcs ?c = fine_event env svcs (w_conn w)" "is_call ?c = is_call (w_conn w)"
      using s unfolding fine_event_def is_call_def by (intro ext, simp)+
    have "winv ?w" by (rule winv_conn [OF w(1)]) simp
    moreover have "\<forall>ev\<in>set (sv_events s). fine_event env svcs (w_conn ?w) ev" using w(2) q(1) by (simp add: eq)
    moreover have k: "calls (w_conn ?w) (sv_events s) = calls (w_conn w) (queue (w_conn w))" by (simp add: calls_def eq q(1))
    ultimately obtain w' where w': "HandleQueuedEvents (Suc n) env svcs (sv_events s) ?w = Ok w'"
      "evolves (calls (w_conn w) (queue (w_conn w))) ?w w'"
      using events_ok [OF env, of ?w "sv_events s" svcs n] max by auto
    have "wiring (w_conn w') = wiring ?c" using w'(2) by (simp add: evolves_def)
    from wiring_cong(1) [OF this, of env svcs] wiring_cong(4) [OF this] show ?thesis
      using w' True s q eq by (intro exI [of _ w']) (auto simp: cm_Tick_def evolves_def GetCorosSize_def is_started_def)
  qed
qed

lemma update_evolves:
  assumes "winv w"
  shows "\<exists>w'. mgr_Update (Suc (bh_size (ts_heap w))) (Suc n) w = Ok w' \<and> evolves 0 w w'"
proof -
  obtain w' ts where w': "mgr_Update (Suc (bh_size (ts_heap w))) (Suc n) w = Ok w'" "winv w'" "view w' = v_Recycle (fold v_Timeout ts (view w))"
    using mgr_Update_ok [OF assms, of "Suc (bh_size (ts_heap w))" n] by auto
  have "calm (view w) (view w')" unfolding w'(3) by (rule calm_trans [OF calm_timeouts calm_ops(3)])
  then show ?thesis using w'(1) calm_evolves [OF assms w'(2)] by blast
qed

text \<open>The state between two rounds: the events in the queue can be handled.\<close>

definition loop_inv :: "rpc_env \<Rightarrow> ('m, 'g) services \<Rightarrow> 'g world \<Rightarrow> bool" where
  "loop_inv env svcs w \<longleftrightarrow> winv w \<and> (\<forall>ev\<in>set (queue (w_conn w)). fine_event env svcs (w_conn w) ev)"

lemma main_round_ok:
  assumes env: "env_ok env" and w: "loop_inv env svcs w" and max: "w_maxCoroId w + int (calls (w_conn w) (queue (w_conn w))) < 2 ^ 31 - 1"
  shows "\<exists>w'. main_round (Suc (bh_size (ts_heap w))) (Suc n) env svcs w = Ok w' \<and> loop_inv env svcs w'
     \<and> GetCorosSize w' \<le> GetCorosSize w + calls (w_conn w) (queue (w_conn w))
     \<and> w_maxCoroId w' \<le> w_maxCoroId w + int (calls (w_conn w) (queue (w_conn w)))"
proof -
  obtain w1 where w1: "mgr_Update (Suc (bh_size (ts_heap w))) (Suc n) w = Ok w1" "evolves 0 w w1"
    using update_evolves w unfolding loop_inv_def by blast
  have wir: "wiring (w_conn w1) = wiring (w_conn w)" using w1(2) by (simp add: evolves_def)
  have eq: "queue (w_conn w1) = queue (w_conn w)" "calls (w_conn w1) = calls (w_conn w)" "fine_event env svcs (w_conn w1) = fine_event env svcs (w_conn w)"
    using wiring_cong [OF wir] by simp_all
  have "winv w1" "\<forall>ev\<in>set (queue (w_conn w1)). fine_event env svcs (w_conn w1) ev"
    "w_maxCoroId w1 + int (calls (w_conn w1) (queue (w_conn w1))) < 2 ^ 31 - 1"
    using w w1(2) max by (simp_all add: evolves_def loop_inv_def eq)
  from tick_ok [OF env this, of n] obtain w' where w': "cm_Tick (Suc n) env svcs w1 = Ok w'" "winv w'"
    "GetCorosSize w' \<le> GetCorosSize w1 + calls (w_conn w1) (queue (w_conn w1))"
    "w_maxCoroId w' \<le> w_maxCoroId w1 + int (calls (w_conn w1) (queue (w_conn w1)))"
    "\<forall>ev. fine_event env svcs (w_conn w') ev \<longleftrightarrow> fine_event env svcs (w_conn w1) ev"
    "queue (w_conn w') = (if is_started (w_conn w1) then [] else queue (w_conn w1))" by blast
  have "loop_inv env svcs w'" using w w'(2,5,6) unfolding loop_inv_def eq by (auto split: if_splits)
  moreover have "GetCorosSize w1 \<le> GetCorosSize w" "w_maxCoroId w1 \<le> w_maxCoroId w" using w1(2) by (simp_all add: evolves_def GetCorosSize_def)
  ultimately show ?thesis using w1(1) w'(1,3,4) by (intro exI [of _ w']) (simp add: main_round_def eq)
qed

lemma spawn_round:
  assumes "loop_inv env svcs w" "w_maxCoroId w < 2 ^ 31 - 1" "\<And>c. good (entry 0) False c"
  shows "\<exists>w'. spawn (Suc n) entry w = Ok w' \<and> loop_inv env svcs w' \<and> GetCorosSize w' \<le> GetCorosSize w + 1"
proof -
  obtain c w1 w2 where w: "CreateCoro entry 0 w = Ok (c, w1)" "Coro_Resume (Suc n) VNil c w1 = Ok (None, w2)" "evolves 1 w w2"
    using spawn_evolves_ok [of w entry 0 n] assms unfolding loop_inv_def by blast
  have wir: "wiring (w_conn w2) = wiring (w_conn w)" using w(3) by (simp add: evolves_def)
  show ?thesis
    using assms(1) w wiring_cong(1) [OF wir, of env svcs] wiring_cong(4) [OF wir] by (auto simp: spawn_def loop_inv_def evolves_def GetCorosSize_def simp del: Coro_Resume.simps)
qed

lemma client_round_ok:
  assumes env: "env_ok env" and w: "loop_inv env svcs w" and max: "w_maxCoroId w + int (calls (w_conn w) (queue (w_conn w))) < 2 ^ 31 - 1"
    and entry: "\<And>c. good (entry 0) False c"
  shows "\<exists>i' w'. client_round (Suc (bh_size (ts_heap w))) (Suc n) env svcs entry (i, w) = Ok (i', w') \<and> loop_inv env svcs w'"
proof -
  obtain w1 where w1: "main_round (Suc (bh_size (ts_heap w))) (Suc n) env svcs w = Ok w1" "loop_inv env svcs w1" "w_maxCoroId w1 < 2 ^ 31 - 1"
    using main_round_ok [OF env w max, of n] max by force
  obtain w2 where "spawn (Suc n) entry w1 = Ok w2" "loop_inv env svcs w2" using spawn_round [OF w1(2,3), of entry n] entry by blast
  then show ?thesis using w1(1,2) by (simp add: client_round_def)
qed

section \<open>The server answers\<close>

lemma echo_request_posted:
  assumes env: "env_ok env" and svcs: "svcs = AddService EchoService (echo_methods env reqs rsps dreqs drsps) Map.empty"
    and w: "winv w" "subscribed (w_conn w)" "link_up (pk_sessionId p) (w_conn w)"
    and p: "is_request p (pk_sessionId p) (md_Echo reqs rsps) coroId req" "is_int coroId" "codec_fits reqs req"
      "codec_fits rsps (Some (ascii '' Echo >>>>>>> '' @ msg req))"
  shows "\<exists>w' q. HandleEvent n env svcs (DataArrival p) w = Ok w' \<and> winv w' \<and> w_conn w' = posted q (w_conn w)
     \<and> is_response q (pk_sessionId p) (md_Echo reqs rsps) coroId [] (Some (ascii '' Echo >>>>>>> '' @ msg req))"
proof -
  let ?md = "md_Echo reqs rsps" and ?rsp = "Some (ascii '' Echo >>>>>>> '' @ msg req)"
  have a: "answers ?md Echo req RpcController_new ?rsp [(''received, msg:%s'', [c_str (msg req)])]"
    by (simp add: answers_def Echo_def logs_def)
  have f: "codec_fits (md_req ?md) req" "codec_fits (md_rsp ?md) ?rsp" "\<not> md_isCoroRequired ?md" "fits_str (ctl_errorText RpcController_new)"
    using p(3,4) by (simp_all add: fits_str_def RpcController_new_def)
  have e: "ctl_errorText RpcController_new = []" by (simp add: RpcController_new_def)
  show ?thesis
    using request_posted [OF w(1) env w(2,3) p(1) echo_methods_ok(1) f(1) p(2) echo_registered(1) [OF svcs] f(3) a f(4,2), of n] unfolding e by blast
qed

text \<open>A request for \<open>Echo\<close> that the server can answer, and its answer.\<close>

definition echo_asks :: "echo_msg codec \<Rightarrow> echo_msg codec \<Rightarrow> rpc_handler conn_mgr \<Rightarrow> packet \<Rightarrow> bool" where
  "echo_asks reqs rsps c p \<longleftrightarrow> link_up (pk_sessionId p) c \<and> (\<exists>coroId req. is_request p (pk_sessionId p) (md_Echo reqs rsps) coroId req
     \<and> is_int coroId \<and> codec_fits reqs req \<and> codec_fits rsps (Some (ascii '' Echo >>>>>>> '' @ msg req)))"

definition echo_answers :: "echo_msg codec \<Rightarrow> echo_msg codec \<Rightarrow> packet \<Rightarrow> packet \<Rightarrow> bool" where
  "echo_answers reqs rsps p q \<longleftrightarrow> (\<exists>coroId req. is_request p (pk_sessionId p) (md_Echo reqs rsps) coroId req
     \<and> is_response q (pk_sessionId p) (md_Echo reqs rsps) coroId [] (Some (ascii '' Echo >>>>>>> '' @ msg req)))"

lemma echo_events:
  assumes env: "env_ok env" and svcs: "svcs = AddService EchoService (echo_methods env reqs rsps dreqs drsps) Map.empty"
  shows "winv w \<Longrightarrow> subscribed (w_conn w) \<Longrightarrow> \<forall>p\<in>set ps. echo_asks reqs rsps (w_conn w) p \<Longrightarrow>
    \<exists>w' qs. HandleQueuedEvents n env svcs (map DataArrival ps) w = Ok w' \<and> winv w' \<and> queue (w_conn w') = queue (w_conn w)
      \<and> sent_packets (w_conn w') = sent_packets (w_conn w) @ qs \<and> list_all2 (echo_answers reqs rsps) ps qs"
proof (induction ps arbitrary: w)
  case (Cons p ps)
  obtain coroId req where p: "link_up (pk_sessionId p) (w_conn w)" "is_request p (pk_sessionId p) (md_Echo reqs rsps) coroId req" "is_int coroId"
    "codec_fits reqs req" "codec_fits rsps (Some (ascii '' Echo >>>>>>> '' @ msg req))"
    using Cons.prems(3) by (auto simp: echo_asks_def)
  obtain w1 q where w1: "HandleEvent n env svcs (DataArrival p) w = Ok w1" "winv w1" "w_conn w1 = posted q (w_conn w)"
    "is_response q (pk_sessionId p) (md_Echo reqs rsps) coroId [] (Some (ascii '' Echo >>>>>>> '' @ msg req))"
    using echo_request_posted [OF env svcs Cons.prems(1,2) p] by blast
  have "subscribed (w_conn w1)" "\<forall>p\<in>set ps. echo_asks reqs rsps (w_conn w1) p" using Cons.prems(2,3) w1(3) by (simp_all add: echo_asks_def)
  from Cons.IH [OF w1(2) this] obtain w' qs where w': "HandleQueuedEvents n env svcs (map DataArrival ps) w1 = Ok w'" "winv w'"
    "queue (w_conn w') = queue (w_conn w1)" "sent_packets (w_conn w') = sent_packets (w_conn w1) @ qs" "list_all2 (echo_answers reqs rsps) ps qs"
    by blast
  let ?q = "q\<lparr>pk_senderSvcId := service_id (w_conn w)\<rparr>"
  have "echo_answers reqs rsps p ?q" using p(2) w1(4) by (auto simp: echo_answers_def is_response_def)
  moreover have "sent_packets (w_conn w1) = sent_packets (w_conn w) @ [?q]" "queue (w_conn w1) = queue (w_conn w)"
    using p(1) w1(3) by simp_all (simp add: queue_def posted_def split: option.splits)
  ultimately show ?case using w1(1) w' by (intro exI [of _ w'] exI [of _ "?q # qs"]) simp
qed simp

text \<open>C17: a tick of the server answers every \<open>Echo\<close> request that waits in the queue of the service: each with one
response to its session, with the id of the calling coroutine and the marked message, in the order in which the requests have
arrived. The queue is empty afterwards.\<close>

theorem server_tick_answers:
  assumes env: "env_ok env" and svcs: "svcs = AddService EchoService (echo_methods env reqs rsps dreqs drsps) Map.empty"
    and w: "winv w" "subscribed (w_conn w)" "is_started (w_conn w)" "queue (w_conn w) = map DataArrival ps"
      "\<forall>p\<in>set ps. echo_asks reqs rsps (w_conn w) p"
  shows "\<exists>w' qs. cm_Tick n env svcs w = Ok w' \<and> winv w' \<and> queue (w_conn w') = []
     \<and> sent_packets (w_conn w') = sent_packets (w_conn w) @ qs \<and> list_all2 (echo_answers reqs rsps) ps qs"
proof -
  obtain s where s: "cm_svc (w_conn w) = Some s" "sv_started s" "sv_events s = map DataArrival ps"
    using w(3,4) by (auto simp: is_started_def queue_def)
  let ?c = "(w_conn w)\<lparr>cm_svc := Some (s\<lparr>sv_events := []\<rparr>)\<rparr>"
  have c: "subscribed ?c" "link_up sid ?c \<longleftrightarrow> link_up sid (w_conn w)" "queue ?c = []" "sent_packets ?c = sent_packets (w_conn w)" for sid
    using w(2) s(1) by (simp_all add: subscribed_def link_up_def queue_def sent_packets_def)
  have "winv (w\<lparr>w_conn := ?c\<rparr>)" by (rule winv_conn [OF w(1)]) simp
  from echo_events [OF env svcs this, of ps n] show ?thesis
    using c w(5) s by (simp add: cm_Tick_def echo_asks_def)
qed

theorem server_tick_answers_witness:
  "\<exists>p w' qs. cm_Tick 1 demo_rpc_env (AddService EchoService (echo_methods demo_rpc_env (demo_string_codec 10) (demo_string_codec 18)
         (demo_string_codec 10) (demo_string_codec 10)) Map.empty)
       (world_init 0 client_init (ConnMgr_new\<lparr>cm_svc := Some (demo_svc\<lparr>sv_events := [DataArrival p, DataArrival p]\<rparr>)\<rparr>)) = Ok w'
     \<and> sent_packets (w_conn w') = qs \<and> list_all2 (echo_answers (demo_string_codec 10) (demo_string_codec 18)) [p, p] qs"
proof -
  let ?md = "md_Echo (demo_string_codec 10) (demo_string_codec 18)"
  have fits: "codec_fits (md_req ?md) (Some [104])" by (simp add: demo_string_codec)
  from req_packet_is_request [OF demo_ok(1) echo_methods_ok(1) fits, of 1 5] obtain p where p: "is_request p 1 ?md 5 (Some [104])" by auto
  then have sid: "pk_sessionId p = 1" by (simp add: is_request_def)
  let ?c = "ConnMgr_new\<lparr>cm_svc := Some (demo_svc\<lparr>sv_events := [DataArrival p, DataArrival p]\<rparr>)\<rparr>" let ?w = "world_init 0 client_init ?c"
  have conn: "w_conn ?w = ?c" by (simp add: world_init_def tstate.defs)
  have "codec_fits (demo_string_codec 18) (Some (ascii '' Echo >>>>>>> '' @ msg (Some [104])))" by (intro demo_string_codec) (simp add: ascii_def)
  moreover have "link_up 1 ?c" by (simp add: link_up_def demo_svc_def)
  ultimately have "echo_asks (demo_string_codec 10) (demo_string_codec 18) (w_conn ?w) p"
    using p fits unfolding echo_asks_def conn sid by (intro conjI exI [of _ 5] exI [of _ "Some [104]"]) (simp_all add: is_int_def)
  then have w: "\<forall>p\<in>set [p, p]. echo_asks (demo_string_codec 10) (demo_string_codec 18) (w_conn ?w) p" by simp
  have c: "winv ?w" "subscribed (w_conn ?w)" "is_started (w_conn ?w)" "queue (w_conn ?w) = map DataArrival [p, p]" "sent_packets (w_conn ?w) = []"
    unfolding conn by (intro winv_init, simp) (simp_all add: subscribed_def is_started_def queue_def sent_packets_def demo_svc_def RpcReq_def RpcRsp_def)
  show ?thesis
    using server_tick_answers [OF demo_ok(1) refl c(1-4) w, where n = 1 and dreqs = "demo_string_codec 10" and drsps = "demo_string_codec 10"] unfolding c(5) by auto
qed

section \<open>The stress test\<close>

lemma good_stress: "good (stress_done t reason rsp) aw c"
  by (simp add: stress_done_def GetMicroSeconds_def Let_def)

lemma stress_func_good:
  assumes "env_ok env" "small_codec reqs"
  shows "good (stress_func env sid (md_Echo reqs rsps) args) False c"
proof -
  have "codec_sized (md_req (md_Echo reqs rsps)) (Some (ascii ''Hello, Echo.''))" by (simp, intro small_sized [OF assms(2)]) (simp add: ascii_def)
  then show ?thesis by (simp add: stress_func_def GetMicroSeconds_def good_CallMethod [OF assms(1) echo_methods_ok(1)] good_stress)
qed

text \<open>The process: time passes, events arrive, and the loop makes a round. The client has no services of its own.\<close>

definition no_services :: "(echo_msg, 'g) services" where
  "no_services = Map.empty"

inductive stress_step :: "rpc_env \<Rightarrow> (nat \<Rightarrow> 'g prog) \<Rightarrow> 'g world \<Rightarrow> 'g world \<Rightarrow> bool" for env :: rpc_env and entry :: "nat \<Rightarrow> 'g prog" where
  time: "ts_now w \<le> t \<Longrightarrow> stress_step env entry w (w\<lparr>ts_now := t\<rparr>)"
| arrive: "cm_svc (w_conn w) = Some s \<Longrightarrow> fine_event env (no_services :: (echo_msg, 'g) services) (w_conn w) ev \<Longrightarrow>
    stress_step env entry w (w\<lparr>w_conn := (w_conn w)\<lparr>cm_svc := Some (s\<lparr>sv_events := sv_events s @ [ev]\<rparr>)\<rparr>\<rparr>)"
| round: "w_maxCoroId w < 2 ^ 31 - 1 \<Longrightarrow> stress_round (Suc (bh_size (ts_heap w))) 1 env no_services entry w = Ok w' \<Longrightarrow>
    stress_step env entry w w'"

lemma no_calls:
  assumes "\<forall>ev\<in>set evs. fine_event env no_services c ev"
  shows "calls c evs = 0"
  using assms unfolding calls_def fine_event_def is_call_def by (auto simp: filter_empty_conv fine_request_def registered_def no_services_def)

lemma stress_round_ok:
  assumes env: "env_ok env" and w: "loop_inv env no_services w" "GetCorosSize w \<le> 200" "w_maxCoroId w < 2 ^ 31 - 1"
    and entry: "\<And>c. good (entry 0) False c"
  shows "\<exists>w'. stress_round (Suc (bh_size (ts_heap w))) (Suc n) env no_services entry w = Ok w'
     \<and> loop_inv env no_services w' \<and> GetCorosSize w' \<le> 200"
proof -
  have "calls (w_conn w) (queue (w_conn w)) = 0" using w(1) unfolding loop_inv_def by (intro no_calls) blast
  then obtain w1 where w1: "main_round (Suc (bh_size (ts_heap w))) (Suc n) env no_services w = Ok w1"
    "loop_inv env no_services w1" "GetCorosSize w1 \<le> GetCorosSize w" "w_maxCoroId w1 < 2 ^ 31 - 1"
    using main_round_ok [OF env w(1), of n] w(3) by auto
  obtain w2 where "spawn (Suc n) entry w1 = Ok w2" "loop_inv env no_services w2" "GetCorosSize w2 \<le> GetCorosSize w1 + 1"
    using spawn_round [OF w1(2,4), of entry n] entry by blast
  then show ?thesis using w1 w(2) by (simp add: stress_round_def)
qed

lemma stress_step_inv:
  assumes "stress_step env entry w w'" "env_ok env" "\<And>c. good (entry 0) False c"
    "loop_inv env no_services w" "GetCorosSize w \<le> 200"
  shows "loop_inv env no_services w' \<and> GetCorosSize (w' :: 'g world) \<le> 200"
  using assms(1)
proof cases
  case (time t)
  then show ?thesis using winv_clock(1) [of w t] assms(4,5) by (simp add: loop_inv_def GetCorosSize_def)
next
  case (arrive s ev)
  let ?c = "(w_conn w)\<lparr>cm_svc := Some (s\<lparr>sv_events := sv_events s @ [ev]\<rparr>)\<rparr>"
  have fine: "fine_event env svcs ?c e \<longleftrightarrow> fine_event env svcs (w_conn w) e" for svcs :: "(echo_msg, 'g) services" and e
    using arrive(2) by (simp add: fine_event_def)
  have "queue ?c = queue (w_conn w) @ [ev]" using arrive(2) by (simp add: queue_def)
  moreover have "winv (w\<lparr>w_conn := ?c\<rparr>)" using assms(4) by (intro winv_conn) (simp_all add: loop_inv_def)
  ultimately show ?thesis using arrive assms(4,5) by (simp add: loop_inv_def GetCorosSize_def fine)
next
  case round
  then show ?thesis using stress_round_ok [OF assms(2,4,5), of entry 0] assms(3) by auto
qed



text \<open>C39: a failure sticks. The coroutines of the stress test share one controller, which nobody resets. Once a call has failed,
a later call that succeeds is counted as a failure too: when its response arrives, the count of failures goes up (unless the
statistics are printed and reset at that moment), and the controller still says failed.\<close>

theorem stress_failure_sticks:
  assumes w: "winv w" "awaiting (view w) c coroId env (md_Echo reqs rsps) (stress_done beginTime) dl" "subscribed (w_conn w)" "link_up sid (w_conn w)"
    and q: "env_ok env" "is_int coroId" "is_response q sid (md_Echo reqs rsps) coroId [] rsp" "codec_fits rsps rsp" "length (pk_data q) + 8192 \<le> 2 ^ 31"
    and g: "g = w_globals w" "ctl_isFailed (st_cntl g)" "st_micros g (st_reads g) - st_printTime g < 1000000"
  shows "\<exists>w'. HandleEvent 1 env svcs (DataArrival q) w = Ok w' \<and> st_rpcCallCount (w_globals w') = st_rpcCallCount g + 1
     \<and> st_failCount (w_globals w') = st_failCount g + 1 \<and> ctl_isFailed (st_cntl (w_globals w')) \<and> st_rsp (w_globals w') = rsp"
proof -
  have fits: "codec_fits (md_rsp (md_Echo reqs rsps)) rsp" using q(4) by simp
  obtain w' o2 where w': "HandleEvent (Suc 0) env svcs (DataArrival q) w = Ok w'"
    "view w' = v_Forget (v_exec c o2 (stress_done beginTime None (Some rsp)) (view w))"
    using response_event [OF w(1,2) q(1,2) w(3,4) q(3) fits q(5), of 0 svcs] by auto
  have "w_globals w' = stress_count beginTime (st_micros g (st_reads g)) (g\<lparr>st_rsp := rsp, st_reads := st_reads g + 1\<rparr>)"
    using arg_cong [OF w'(2), of v_globals] g
    by (simp add: v_Forget_def v_exec_def stress_done_def GetMicroSeconds_def Let_def settle_def stress_count_def)
  then show ?thesis using w'(1) g(2) by (simp add: stress_count_def Let_def)
qed

theorem stress_failure_sticks_witness:
  "\<exists>(w :: stress_vars world) q w'. ctl_isFailed (st_cntl (w_globals w)) \<and> st_failCount (w_globals w) = 0
     \<and> is_response q 1 (md_Echo (demo_string_codec 10) (demo_string_codec 18)) 1 [] (Some [104])
     \<and> HandleEvent 1 demo_rpc_env no_services (DataArrival q) w = Ok w' \<and> st_failCount (w_globals w') = 1"
proof -
  let ?md = "md_Echo (demo_string_codec 10) (demo_string_codec 18)"
  let ?g = "(stress_init (\<lambda>_. 0))\<lparr>st_cntl := SetFailed [69] RpcController_new\<rparr>" let ?w = "demo_world ?g"
  have fits: "codec_fits (md_req ?md) (Some [104])" "codec_fits (md_rsp ?md) (Some [104])" by (simp_all add: demo_string_codec)
  have l: "w_maxCoroId ?w < 2 ^ 31 - 1" "link_up 1 (w_conn ?w)" by (simp_all add: demo_ok)
  obtain w c p where w: "winv w" "w_conn w = posted p (w_conn ?w)" "w_globals w = ?g" "awaiting (view w) c 1 demo_rpc_env ?md (stress_done 0) 5000"
    using call_starts [OF demo_ok(5) l(1) demo_ok(1) echo_methods_ok(1) fits(1) l(2), where k = "stress_done 0" and args = 0 and n = 0] good_stress
    by (fastforce simp: demo_ok CoroTimeoutTime_def)
  have c: "subscribed (w_conn w)" "link_up 1 (w_conn w)" using w(2) by (simp_all add: demo_ok)
  have "fits_str (ctl_errorText RpcController_new)" by (simp add: fits_str_def RpcController_new_def)
  then obtain q where q: "is_response q 1 ?md 1 [] (Some [104])"
    using rsp_packet_is_response [OF demo_ok(1) _ fits(2)] by (fastforce simp: RpcController_new_def)
  have len: "is_int 1" "codec_fits (demo_string_codec 18) (Some [104])" "length (pk_data q) + 8192 \<le> 2 ^ 31"
    using q fits by (simp_all add: is_int_def is_response_def rsp_data_def) (simp add: demo_string_codec_def)
  have g: "ctl_isFailed (st_cntl ?g)" "st_micros ?g (st_reads ?g) - st_printTime ?g < 1000000" "st_failCount ?g = 0"
    by (simp_all add: SetFailed_def) (simp_all add: stress_init_def)
  obtain w' where "HandleEvent 1 demo_rpc_env no_services (DataArrival q) w = Ok w'" "st_failCount (w_globals w') = st_failCount ?g + 1"
    using stress_failure_sticks [OF w(1,4) c demo_ok(1) len(1) q len(2,3) w(3) [symmetric] g(1,2), of no_services] by (elim exE conjE)
  then show ?thesis using g(1,3) w(3) q by (intro exI [of _ w] exI [of _ q] exI [of _ w']) simp
qed

end
