(* ===== verification/Libco_Link.thy ===== *)
theory Libco_Link
  imports Prelude
begin

text \<open>
  The intrusive doubly linked lists of libco (libco/co_routine.cpp: \<open>RemoveFromLink\<close>, \<open>AddTail\<close>, \<open>PopHead\<close>,
  \<open>Join\<close>) on an explicit heap, and their refinement to a family of lists in which no element is twice.

  A node has the members \<open>pPrev\<close>, \<open>pNext\<close> and \<open>pLink\<close>; a link has \<open>head\<close> and \<open>tail\<close>. Links are allocated with
  \<open>calloc\<close> and are never freed while they are in use; nodes can be freed.
\<close>

section \<open>The heap\<close>

record lnode =
  ln_prev :: "nat option"
  ln_next :: "nat option"
  ln_link :: "nat option"

record lheap =
  lh_node :: "nat \<rightharpoonup> lnode"
  lh_head :: "nat \<Rightarrow> nat option"
  lh_tail :: "nat \<Rightarrow> nat option"

definition free_node :: lnode where
  "free_node = \<lparr>ln_prev = None, ln_next = None, ln_link = None\<rparr>"

definition node_at :: "nat \<Rightarrow> 'b lheap_scheme \<Rightarrow> lnode outcome" where
  "node_at a h = (case lh_node h a of None \<Rightarrow> Fault UseAfterFree | Some n \<Rightarrow> Ok n)"

definition upd_node :: "nat \<Rightarrow> (lnode \<Rightarrow> lnode) \<Rightarrow> 'b lheap_scheme \<Rightarrow> 'b lheap_scheme outcome" where
  "upd_node a f h = obind (node_at a h) (\<lambda>n. Ok (h\<lparr>lh_node := (lh_node h)(a \<mapsto> f n)\<rparr>))"

definition set_head :: "nat \<Rightarrow> nat option \<Rightarrow> 'b lheap_scheme \<Rightarrow> 'b lheap_scheme" where
  "set_head l p h = h\<lparr>lh_head := (lh_head h)(l := p)\<rparr>"

definition set_tail :: "nat \<Rightarrow> nat option \<Rightarrow> 'b lheap_scheme \<Rightarrow> 'b lheap_scheme" where
  "set_tail l p h = h\<lparr>lh_tail := (lh_tail h)(l := p)\<rparr>"

section \<open>Operations\<close>

definition RemoveFromLink :: "nat \<Rightarrow> 'b lheap_scheme \<Rightarrow> 'b lheap_scheme outcome" where
  "RemoveFromLink ap h = obind (node_at ap h) (\<lambda>n. case ln_link n of None \<Rightarrow> Ok h
     | Some lst \<Rightarrow> if lh_head h lst = None \<or> lh_tail h lst = None then Fault AssertFail
         else obind (if lh_head h lst = Some ap
                then let h1 = set_head lst (ln_next n) h in
                  (case ln_next n of None \<Rightarrow> Ok h1 | Some b \<Rightarrow> upd_node b (\<lambda>m. m\<lparr>ln_prev := None\<rparr>) h1)
                else (case ln_prev n of None \<Rightarrow> Ok h | Some b \<Rightarrow> upd_node b (\<lambda>m. m\<lparr>ln_next := ln_next n\<rparr>) h)) (\<lambda>h1.
              obind (node_at ap h1) (\<lambda>n1.
              obind (if lh_tail h1 lst = Some ap
                then let h2 = set_tail lst (ln_prev n1) h1 in
                  (case ln_prev n1 of None \<Rightarrow> Ok h2 | Some b \<Rightarrow> upd_node b (\<lambda>m. m\<lparr>ln_next := None\<rparr>) h2)
                else (case ln_next n1 of None \<Rightarrow> Fault NullDeref | Some b \<Rightarrow> upd_node b (\<lambda>m. m\<lparr>ln_prev := ln_prev n1\<rparr>) h1))
              (upd_node ap (\<lambda>_. free_node)))))"

definition AddTail :: "nat \<Rightarrow> nat \<Rightarrow> 'b lheap_scheme \<Rightarrow> 'b lheap_scheme outcome" where
  "AddTail apLink ap h = obind (node_at ap h) (\<lambda>n. if ln_link n \<noteq> None then Ok h
     else obind (case lh_tail h apLink of
         Some t \<Rightarrow> obind (upd_node t (\<lambda>m. m\<lparr>ln_next := Some ap\<rparr>) h) (\<lambda>h1.
           obind (upd_node ap (\<lambda>m. m\<lparr>ln_next := None, ln_prev := Some t\<rparr>) h1) (\<lambda>h2. Ok (set_tail apLink (Some ap) h2)))
       | None \<Rightarrow> upd_node ap (\<lambda>m. m\<lparr>ln_next := None, ln_prev := None\<rparr>) (set_tail apLink (Some ap) (set_head apLink (Some ap) h)))
       (upd_node ap (\<lambda>m. m\<lparr>ln_link := Some apLink\<rparr>)))"

definition PopHead :: "nat \<Rightarrow> 'b lheap_scheme \<Rightarrow> 'b lheap_scheme outcome" where
  "PopHead apLink h = (case lh_head h apLink of None \<Rightarrow> Ok h
     | Some lp \<Rightarrow> obind (if lh_head h apLink = lh_tail h apLink then Ok (set_tail apLink None (set_head apLink None h))
             else obind (node_at lp h) (\<lambda>n. Ok (set_head apLink (ln_next n) h))) (\<lambda>h1.
         obind (upd_node lp (\<lambda>_. free_node) h1) (\<lambda>h2.
         case lh_head h2 apLink of None \<Rightarrow> Ok h2 | Some b \<Rightarrow> upd_node b (\<lambda>m. m\<lparr>ln_prev := None\<rparr>) h2)))"

text \<open>The loop of \<open>Join\<close> over the nodes; the fuel bounds the length of the list.\<close>

primrec relink :: "nat \<Rightarrow> nat \<Rightarrow> nat option \<Rightarrow> 'b lheap_scheme \<Rightarrow> 'b lheap_scheme outcome" where
  "relink 0 apLink lp h = Fuel"
| "relink (Suc n) apLink lp h = (case lp of None \<Rightarrow> Ok h
     | Some a \<Rightarrow> obind (upd_node a (\<lambda>m. m\<lparr>ln_link := Some apLink\<rparr>) h) (\<lambda>h1.
         obind (node_at a h1) (\<lambda>m. relink n apLink (ln_next m) h1)))"

definition Join :: "nat \<Rightarrow> nat \<Rightarrow> nat \<Rightarrow> 'b lheap_scheme \<Rightarrow> 'b lheap_scheme outcome" where
  "Join fuel apLink apOther h = (case lh_head h apOther of None \<Rightarrow> Ok h
     | Some lp \<Rightarrow> obind (relink fuel apLink (Some lp) h) (\<lambda>h1.
         obind (case lh_tail h1 apLink of
             Some t \<Rightarrow> obind (upd_node t (\<lambda>m. m\<lparr>ln_next := Some lp\<rparr>) h1) (\<lambda>h2.
               obind (upd_node lp (\<lambda>m. m\<lparr>ln_prev := Some t\<rparr>) h2) (\<lambda>h3. Ok (set_tail apLink (lh_tail h3 apOther) h3)))
           | None \<Rightarrow> Ok (set_tail apLink (lh_tail h1 apOther) (set_head apLink (lh_head h1 apOther) h1)))
         (\<lambda>h4. Ok (set_tail apOther None (set_head apOther None h4)))))"

section \<open>Lists in the heap\<close>

definition first :: "nat list \<Rightarrow> nat option \<Rightarrow> nat option" where
  "first xs e = (case xs of [] \<Rightarrow> e | x # _ \<Rightarrow> Some x)"

definition final :: "nat list \<Rightarrow> nat option \<Rightarrow> nat option" where
  "final xs s = (if xs = [] then s else Some (last xs))"

lemma first_simps [simp]: "first [] e = e" "first (x # xs) e = Some x" "first (xs @ ys) e = first xs (first ys e)"
  by (simp_all add: first_def split: list.splits)

lemma final_simps [simp]: "final [] s = s" "final (x # xs) s = final xs (Some x)" "final (xs @ ys) s = final ys (final xs s)"
  by (simp_all add: final_def)

lemma end_Some [simp]: "\<exists>y. first xs (Some b) = Some y" "\<exists>y. final xs (Some b) = Some y"
  by (simp_all add: first_def final_def split: list.splits)

text \<open>The nodes \<open>xs\<close> are chained: the first has the predecessor \<open>s\<close> and the last the successor \<open>e\<close>.\<close>

primrec chain :: "(nat \<rightharpoonup> lnode) \<Rightarrow> nat \<Rightarrow> nat option \<Rightarrow> nat list \<Rightarrow> nat option \<Rightarrow> bool" where
  "chain nd l s [] e = True"
| "chain nd l s (x # xs) e = (nd x = Some \<lparr>ln_prev = s, ln_next = first xs e, ln_link = Some l\<rparr> \<and> chain nd l (Some x) xs e)"

lemma chain_append [simp]: "chain nd l s (xs @ ys) e \<longleftrightarrow> chain nd l s xs (first ys e) \<and> chain nd l (final xs s) ys e"
  by (induction xs arbitrary: s) auto

lemma chain_cong: "(\<And>x. x \<in> set xs \<Longrightarrow> nd' x = nd x) \<Longrightarrow> chain nd' l s xs e = chain nd l s xs e"
  by (induction xs arbitrary: s) auto

lemma chain_other [simp]: "a \<notin> set xs \<Longrightarrow> chain (nd(a := v)) l s xs e = chain nd l s xs e"
  by (rule chain_cong) auto

definition is_link :: "'b lheap_scheme \<Rightarrow> nat \<Rightarrow> nat list \<Rightarrow> bool" where
  "is_link h l xs \<longleftrightarrow> distinct xs \<and> chain (lh_node h) l None xs None \<and> lh_head h l = first xs None \<and> lh_tail h l = final xs None"

text \<open>The heap holds the lists \<open>A\<close>; a node says in which one it is.\<close>

definition links :: "'b lheap_scheme \<Rightarrow> (nat \<Rightarrow> nat list) \<Rightarrow> bool" where
  "links h A \<longleftrightarrow> (\<forall>l. is_link h l (A l)) \<and> (\<forall>a n l. lh_node h a = Some n \<longrightarrow> (ln_link n = Some l \<longleftrightarrow> a \<in> set (A l)))"

definition same_rest :: "'b lheap_scheme \<Rightarrow> 'b lheap_scheme \<Rightarrow> bool" where
  "same_rest h h' \<longleftrightarrow> dom (lh_node h') = dom (lh_node h) \<and> lheap.more h' = lheap.more h"

lemma chain_node: "chain nd l s xs e \<Longrightarrow> x \<in> set xs \<Longrightarrow> \<exists>n. nd x = Some n \<and> ln_link n = Some l"
  by (induction xs arbitrary: s) auto

lemma linksD:
  assumes "links h A"
  shows "distinct (A l)" "chain (lh_node h) l None (A l) None" "lh_head h l = first (A l) None" "lh_tail h l = final (A l) None"
    "a \<in> set (A l) \<Longrightarrow> \<exists>n. lh_node h a = Some n \<and> ln_link n = Some l" "a \<in> set (A l) \<Longrightarrow> a \<in> set (A m) \<Longrightarrow> l = m"
    "lh_node h a = Some n \<Longrightarrow> ln_link n = Some l \<longleftrightarrow> a \<in> set (A l)"
proof -
  show "distinct (A l)" "chain (lh_node h) l None (A l) None" "lh_head h l = first (A l) None" "lh_tail h l = final (A l) None"
    using assms by (simp_all add: links_def is_link_def)
  have nd: "\<exists>n. lh_node h a = Some n \<and> ln_link n = Some l" if "a \<in> set (A l)" for a l
    using assms chain_node [of "lh_node h" l None "A l" None a] that by (simp add: links_def is_link_def)
  then show "a \<in> set (A l) \<Longrightarrow> \<exists>n. lh_node h a = Some n \<and> ln_link n = Some l" .
  show "a \<in> set (A l) \<Longrightarrow> a \<in> set (A m) \<Longrightarrow> l = m" using nd [of a l] nd [of a m] by auto
  show "lh_node h a = Some n \<Longrightarrow> ln_link n = Some l \<longleftrightarrow> a \<in> set (A l)" using assms by (simp add: links_def)
qed

text \<open>The lists \<open>L\<close> change, the others stay.\<close>

lemma links_change:
  assumes A: "links h A" and L: "\<And>l. l \<in> L \<Longrightarrow> is_link h' l (A' l)"
    and others: "\<And>m. m \<notin> L \<Longrightarrow> A' m = A m \<and> lh_head h' m = lh_head h m \<and> lh_tail h' m = lh_tail h m"
    and disj: "\<And>l m. l \<in> L \<Longrightarrow> m \<notin> L \<Longrightarrow> set (A' l) \<inter> set (A m) = {}"
    and same: "\<And>a. \<forall>l\<in>L. a \<notin> set (A l) \<and> a \<notin> set (A' l) \<Longrightarrow> lh_node h' a = lh_node h a"
    and gone: "\<And>a l n. l \<in> L \<Longrightarrow> a \<in> set (A l) \<Longrightarrow> \<forall>m\<in>L. a \<notin> set (A' m) \<Longrightarrow> lh_node h' a = Some n \<Longrightarrow> ln_link n = None"
  shows "links h' A'"
proof -
  have "is_link h' m (A m)" if "m \<notin> L" for m
  proof -
    have "lh_node h' x = lh_node h x" if "x \<in> set (A m)" for x
      using linksD(6) [OF A that] disj [OF _ \<open>m \<notin> L\<close>] that \<open>m \<notin> L\<close> by (intro same) blast
    then show ?thesis using linksD [OF A, of m] others [OF that] by (simp add: is_link_def cong: chain_cong)
  qed
  moreover have "ln_link n = Some m \<longleftrightarrow> a \<in> set (A' m)" if "lh_node h' a = Some n" for a n m
  proof -
    have in_new: "ln_link n = Some l" if "l \<in> L" "a \<in> set (A' l)" for l
      using L [OF that(1)] chain_node [of "lh_node h'" l None "A' l" None a] that(2) \<open>lh_node h' a = Some n\<close> by (simp add: is_link_def)
    consider l where "l \<in> L" "a \<in> set (A' l)" | l where "\<forall>m\<in>L. a \<notin> set (A' m)" "l \<in> L" "a \<in> set (A l)"
      | "\<forall>l\<in>L. a \<notin> set (A l) \<and> a \<notin> set (A' l)" by blast
    then show ?thesis
    proof cases
      case 1
      then show ?thesis using in_new [OF 1] in_new [of m] others [of m] disj [OF 1(1), of m] by (cases "m \<in> L") auto
    next
      case 2
      have "ln_link n = None" using gone [OF 2(2,3,1) that] .
      then show ?thesis using 2 linksD(6) [OF A 2(3), of m] others [of m] by (cases "m \<in> L") auto
    next
      case 3
      then have "lh_node h a = Some n" using same that by simp
      then show ?thesis using 3 linksD(7) [OF A, of a n m] others [of m] by (cases "m \<in> L") auto
    qed
  qed
  ultimately show ?thesis unfolding links_def using L others by metis
qed

lemma links_update:
  assumes A: "links h A" and l: "is_link h' l xs"
    and others: "\<And>m. m \<noteq> l \<Longrightarrow> lh_head h' m = lh_head h m \<and> lh_tail h' m = lh_tail h m \<and> set xs \<inter> set (A m) = {}"
    and same: "\<And>a. a \<notin> set (A l) \<Longrightarrow> a \<notin> set xs \<Longrightarrow> lh_node h' a = lh_node h a"
    and gone: "\<And>a n. a \<in> set (A l) \<Longrightarrow> a \<notin> set xs \<Longrightarrow> lh_node h' a = Some n \<Longrightarrow> ln_link n = None"
  shows "links h' (A(l := xs))"
  by (rule links_change [OF A, where L = "{l}"]) (use assms in auto)

section \<open>Refinement\<close>

lemma node_simps [simp]:
  "node_at a h = Ok n \<longleftrightarrow> lh_node h a = Some n" "lh_node h a = Some n \<Longrightarrow> upd_node a f h = Ok (h\<lparr>lh_node := (lh_node h)(a \<mapsto> f n)\<rparr>)"
  by (simp_all add: node_at_def upd_node_def split: option.splits)

lemma set_end_simps [simp]:
  "lh_node (set_head l p h) = lh_node h" "lh_head (set_head l p h) = (lh_head h)(l := p)" "lh_tail (set_head l p h) = lh_tail h"
  "lh_node (set_tail l p h) = lh_node h" "lh_tail (set_tail l p h) = (lh_tail h)(l := p)" "lh_head (set_tail l p h) = lh_head h"
  "lheap.more (set_head l p h) = lheap.more h" "lheap.more (set_tail l p h) = lheap.more h"
  by (simp_all add: set_head_def set_tail_def)

lemma AddTail_links:
  assumes A: "links h A" and a: "lh_node h a \<noteq> None" "\<And>m. a \<notin> set (A m)"
  shows "\<exists>h'. AddTail l a h = Ok h' \<and> links h' (A(l := A l @ [a])) \<and> same_rest h h'"
proof -
  obtain n where n: "lh_node h a = Some n" "ln_link n = None"
    using a linksD(7) [OF A] by (metis not_None_eq)
  have at: "node_at a h = Ok n" using n(1) by simp
  show ?thesis
  proof (cases "A l" rule: rev_cases)
    case Nil
    let ?h = "(set_tail l (Some a) (set_head l (Some a) h))\<lparr>lh_node := (lh_node h)(a \<mapsto> n\<lparr>ln_next := None, ln_prev := None, ln_link := Some l\<rparr>)\<rparr>"
    have "AddTail l a h = Ok ?h" using n at linksD(4) [OF A, of l] Nil by (simp add: AddTail_def)
    moreover have "links ?h (A(l := A l @ [a]))"
      by (rule links_update [OF A]) (use a Nil in \<open>auto simp: is_link_def\<close>)
    ultimately show ?thesis using n(1) by (auto simp: same_rest_def)
  next
    case (snoc ys t)
    obtain nt where t: "lh_node h t = Some nt" "t \<noteq> a" using linksD(5) [OF A, of t l] snoc a(2) [of l] by auto
    let ?nd = "(lh_node h)(t \<mapsto> nt\<lparr>ln_next := Some a\<rparr>, a \<mapsto> n\<lparr>ln_next := None, ln_prev := Some t, ln_link := Some l\<rparr>)"
    let ?h = "(set_tail l (Some a) h)\<lparr>lh_node := ?nd\<rparr>"
    have "AddTail l a h = Ok ?h" using n at linksD(4) [OF A, of l] snoc t by (simp add: AddTail_def set_tail_def)
    moreover have "is_link ?h l (A l @ [a])"
      using linksD(1-4) [OF A, of l] a(2) [of l] t unfolding snoc by (auto simp: is_link_def)
    then have "links ?h (A(l := A l @ [a]))"
      by (rule links_update [OF A]) (use a linksD(6) [OF A] snoc in \<open>auto simp: set_eq_iff\<close>)
    ultimately show ?thesis using n(1) t(1) by (auto simp: same_rest_def)
  qed
qed

lemma AddTail_linked:
  assumes "links h A" "a \<in> set (A m)"
  shows "AddTail l a h = Ok h"
  using linksD(5) [OF assms] by (auto simp: AddTail_def node_at_def)

lemma PopHead_links:
  assumes A: "links h A"
  shows "\<exists>h'. PopHead l h = Ok h' \<and> links h' (A(l := tl (A l))) \<and> same_rest h h'"
proof (cases "A l")
  case Nil
  have "A(l := tl (A l)) = A" using Nil by (simp add: fun_eq_iff)
  then show ?thesis using A Nil linksD(3) [OF A, of l] by (simp add: PopHead_def same_rest_def)
next
  case (Cons a xs)
  note d = linksD(1-4) [OF A, of l, unfolded Cons]
  show ?thesis
  proof (cases xs)
    case Nil
    let ?h = "(set_tail l None (set_head l None h))\<lparr>lh_node := (lh_node h)(a \<mapsto> free_node)\<rparr>"
    have "PopHead l h = Ok ?h" using d Nil by (simp add: PopHead_def)
    moreover have "links ?h (A(l := tl (A l)))"
      by (rule links_update [OF A]) (use Cons Nil in \<open>auto simp: is_link_def free_node_def\<close>)
    ultimately show ?thesis using d(2) by (auto simp: same_rest_def)
  next
    case (Cons b ys)
    let ?h = "(set_head l (Some b) h)\<lparr>lh_node := (lh_node h)(a \<mapsto> free_node, b \<mapsto> \<lparr>ln_prev = None, ln_next = first ys None, ln_link = Some l\<rparr>)\<rparr>"
    have ne: "Some a \<noteq> final (b # ys) (Some a)" using d(1) Cons by (auto simp: final_def split: if_splits)
    have "PopHead l h = Ok ?h"
      using d Cons ne by (simp add: PopHead_def set_head_def)
    moreover have "is_link ?h l (tl (A l))" using d Cons unfolding \<open>A l = a # xs\<close> by (auto simp: is_link_def)
    then have "links ?h (A(l := tl (A l)))"
      by (rule links_update [OF A]) (use \<open>A l = a # xs\<close> Cons d(1) linksD(6) [OF A] in \<open>auto simp: free_node_def\<close>)
    ultimately show ?thesis using d(2) Cons by (auto simp: same_rest_def)
  qed
qed

lemma RemoveFromLink_links:
  assumes A: "links h A" and a: "a \<in> set (A l)"
  shows "\<exists>h'. RemoveFromLink a h = Ok h' \<and> links h' (A(l := remove1 a (A l))) \<and> same_rest h h'"
proof -
  obtain xs ys where xs: "A l = xs @ a # ys" using a by (meson split_list)
  note d = linksD(1-4) [OF A, of l, unfolded xs]
  let ?n = "\<lparr>ln_prev = final xs None, ln_next = first ys None, ln_link = Some l\<rparr>"
  have n: "lh_node h a = Some ?n" using d(2) by simp
  have at: "node_at a h = Ok ?n" using n by simp
  have upd: "links h' (A(l := xs @ ys))"
    if "is_link h' l (xs @ ys)" "\<And>m. m \<noteq> l \<Longrightarrow> lh_head h' m = lh_head h m \<and> lh_tail h' m = lh_tail h m" "lh_node h' a = Some free_node"
      "\<And>x. x \<notin> set (A l) \<Longrightarrow> lh_node h' x = lh_node h x" for h' :: "'a lheap_scheme"
    by (rule links_update [OF A that(1)]) (use that(2-4) linksD(6) [OF A] xs in \<open>auto simp: free_node_def\<close>)
  have eq: "remove1 a (A l) = xs @ ys" using d(1) xs by (simp add: remove1_append)
  show ?thesis
  proof (cases xs rule: rev_cases)
    case Nil
    note xs0 = this
    show ?thesis
    proof (cases ys)
      case Nil
      let ?h = "(set_tail l None (set_head l None h))\<lparr>lh_node := (lh_node h)(a \<mapsto> free_node)\<rparr>"
      have "RemoveFromLink a h = Ok ?h" using at n d Nil xs0 by (simp add: RemoveFromLink_def set_tail_def set_head_def)
      moreover have "links ?h (A(l := xs @ ys))" by (rule upd) (use xs0 Nil xs in \<open>auto simp: is_link_def\<close>)
      ultimately show ?thesis using n by (auto simp: eq same_rest_def)
    next
      case (Cons c zs)
      let ?h = "(set_head l (Some c) h)\<lparr>lh_node := (lh_node h)(c \<mapsto> \<lparr>ln_prev = None, ln_next = first zs None, ln_link = Some l\<rparr>, a \<mapsto> free_node)\<rparr>"
      have ne: "final zs (Some c) \<noteq> Some a" using d(1) Cons xs0 by (auto simp: final_def split: if_splits)
      have "RemoveFromLink a h = Ok ?h" using at n d Cons xs0 ne by (auto simp: RemoveFromLink_def set_head_def fun_upd_twist)
      moreover have "links ?h (A(l := xs @ ys))" by (rule upd) (use xs0 Cons xs d in \<open>auto simp: is_link_def\<close>)
      ultimately show ?thesis using n d(2) Cons xs0 by (auto simp: eq same_rest_def)
    qed
  next
    case (snoc us b)
    note xs1 = this
    have ne: "first us (Some b) \<noteq> Some a" using d(1) snoc by (auto simp: first_def split: list.splits)
    show ?thesis
    proof (cases ys)
      case Nil
      let ?h = "(set_tail l (Some b) h)\<lparr>lh_node := (lh_node h)(b \<mapsto> \<lparr>ln_prev = final us None, ln_next = None, ln_link = Some l\<rparr>, a \<mapsto> free_node)\<rparr>"
      have "RemoveFromLink a h = Ok ?h" using at n d Nil xs1 ne by (auto simp: RemoveFromLink_def set_tail_def fun_upd_twist)
      moreover have "links ?h (A(l := xs @ ys))" by (rule upd) (use xs1 Nil xs d in \<open>auto simp: is_link_def\<close>)
      ultimately show ?thesis using n d(2) Nil xs1 by (auto simp: eq same_rest_def)
    next
      case (Cons c zs)
      let ?h = "h\<lparr>lh_node := (lh_node h)(b \<mapsto> \<lparr>ln_prev = final us None, ln_next = Some c, ln_link = Some l\<rparr>,
          c \<mapsto> \<lparr>ln_prev = Some b, ln_next = first zs None, ln_link = Some l\<rparr>, a \<mapsto> free_node)\<rparr>"
      have ne': "final zs (Some c) \<noteq> Some a" using d(1) Cons xs1 by (auto simp: final_def split: if_splits)
      have "RemoveFromLink a h = Ok ?h" using at n d Cons xs1 ne ne' by (auto simp: RemoveFromLink_def)
      moreover have "links ?h (A(l := xs @ ys))" by (rule upd) (use xs1 Cons xs d in \<open>auto simp: is_link_def\<close>)
      ultimately show ?thesis using n d(2) Cons xs1 by (auto simp: eq same_rest_def)
    qed
  qed
qed

lemma RemoveFromLink_free: "lh_node h a = Some n \<Longrightarrow> ln_link n = None \<Longrightarrow> RemoveFromLink a h = Ok h"
  by (simp add: RemoveFromLink_def node_at_def)

text \<open>The loop of \<open>Join\<close> gives the nodes their new list.\<close>

lemma relink_chain:
  "chain (lh_node h) m s ys None \<Longrightarrow> distinct ys \<Longrightarrow> length ys < n \<Longrightarrow>
   \<exists>h'. relink n l (first ys None) h = Ok h' \<and> chain (lh_node h') l s ys None \<and> (\<forall>a. a \<notin> set ys \<longrightarrow> lh_node h' a = lh_node h a)
     \<and> lh_head h' = lh_head h \<and> lh_tail h' = lh_tail h \<and> same_rest h h'"
proof (induction ys arbitrary: n s h)
  case Nil
  then show ?case by (cases n) (simp_all add: same_rest_def)
next
  case (Cons a ys)
  obtain k where n: "n = Suc k" "length ys < k" using Cons.prems(3) by (cases n) auto
  have a: "lh_node h a = Some \<lparr>ln_prev = s, ln_next = first ys None, ln_link = Some m\<rparr>" "chain (lh_node h) m (Some a) ys None"
    using Cons.prems(1) by simp_all
  let ?h = "h\<lparr>lh_node := (lh_node h)(a \<mapsto> \<lparr>ln_prev = s, ln_next = first ys None, ln_link = Some l\<rparr>)\<rparr>"
  have "chain (lh_node ?h) m (Some a) ys None" using a(2) Cons.prems(2) by simp
  from Cons.IH [OF this _ n(2)] Cons.prems(2) obtain h' where h': "relink k l (first ys None) ?h = Ok h'" "chain (lh_node h') l (Some a) ys None"
    "\<forall>x. x \<notin> set ys \<longrightarrow> lh_node h' x = lh_node ?h x" "lh_head h' = lh_head ?h" "lh_tail h' = lh_tail ?h" "same_rest ?h h'" by auto
  have "node_at a ?h = Ok \<lparr>ln_prev = s, ln_next = first ys None, ln_link = Some l\<rparr>" by simp
  then have "relink n l (first (a # ys) None) h = Ok h'" using n(1) a(1) h'(1) by simp
  moreover have "chain (lh_node h') l s (a # ys) None" using h'(2,3) Cons.prems(2) by simp
  moreover have "same_rest h h'" using h'(6) a(1) by (auto simp: same_rest_def)
  ultimately show ?case using h'(3-5) by (intro exI [of _ h']) simp
qed

lemma Join_links:
  assumes A: "links h A" and lm: "l \<noteq> m" and fuel: "length (A m) < n"
  shows "\<exists>h'. Join n l m h = Ok h' \<and> links h' (A(l := A l @ A m, m := [])) \<and> same_rest h h'"
proof (cases "A m")
  case Nil
  have "A(l := A l @ A m, m := []) = A" using Nil by (auto simp: fun_eq_iff)
  then show ?thesis using A Nil linksD(3) [OF A, of m] by (simp add: Join_def same_rest_def)
next
  case (Cons b ys)
  obtain h1 where h1: "relink n l (Some b) h = Ok h1" "chain (lh_node h1) l None (A m) None" "\<And>a. a \<notin> set (A m) \<Longrightarrow> lh_node h1 a = lh_node h a"
    "lh_head h1 = lh_head h" "lh_tail h1 = lh_tail h" "same_rest h h1"
    using relink_chain [OF linksD(2,1) [OF A, of m] fuel, of l] Cons by auto
  have dis: "a \<notin> set (A m)" if "a \<in> set (A l)" for a using linksD(6) [OF A that, of m] lm by auto
  have chl: "chain (lh_node h1) l None (A l) None" using linksD(2) [OF A, of l] h1(3) dis by (simp cong: chain_cong)
  have upd: "links h' (A(l := A l @ A m, m := []))"
    if "is_link h' l (A l @ A m)" "lh_head h' m = None" "lh_tail h' m = None"
      "\<And>k. k \<noteq> l \<Longrightarrow> k \<noteq> m \<Longrightarrow> lh_head h' k = lh_head h k \<and> lh_tail h' k = lh_tail h k"
      "\<And>a. a \<notin> set (A l) \<Longrightarrow> a \<notin> set (A m) \<Longrightarrow> lh_node h' a = lh_node h a" for h' :: "'a lheap_scheme"
    by (rule links_change [OF A, where L = "{l, m}"]) (use that lm linksD(6) [OF A] in \<open>auto simp: is_link_def\<close>)
  have rest: "dom (lh_node h1) = dom (lh_node h)" "lheap.more h1 = lheap.more h" using h1(6) by (simp_all add: same_rest_def)
  have d: "distinct (A l @ A m)" using linksD(1) [OF A] dis by auto
  show ?thesis
  proof (cases "A l" rule: rev_cases)
    case Nil
    let ?h = "set_tail m None (set_head m None (set_tail l (lh_tail h1 m) (set_head l (lh_head h1 m) h1)))"
    have "Join n l m h = Ok ?h" using Cons Nil h1(1,5) linksD(3,4) [OF A] by (simp add: Join_def)
    moreover have "links ?h (A(l := A l @ A m, m := []))"
      by (rule upd) (use Nil h1 lm linksD(1,3,4) [OF A] in \<open>auto simp: is_link_def\<close>)
    ultimately show ?thesis using rest by (auto simp: same_rest_def)
  next
    case (snoc us t)
    have nt: "lh_node h1 t = Some \<lparr>ln_prev = final us None, ln_next = None, ln_link = Some l\<rparr>" "t \<noteq> b" "t \<notin> set ys" "t \<notin> set us"
      "lh_node h1 b = Some \<lparr>ln_prev = None, ln_next = first ys None, ln_link = Some l\<rparr>"
      using chl h1(2) d snoc Cons by auto
    let ?nd = "(lh_node h1)(t \<mapsto> \<lparr>ln_prev = final us None, ln_next = Some b, ln_link = Some l\<rparr>, b \<mapsto> \<lparr>ln_prev = Some t, ln_next = first ys None, ln_link = Some l\<rparr>)"
    let ?h = "(set_tail m None (set_head m None (set_tail l (lh_tail h1 m) h1)))\<lparr>lh_node := ?nd\<rparr>"
    have "Join n l m h = Ok ?h"
      using Cons snoc h1(1,5) linksD(3,4) [OF A] nt by (simp add: Join_def set_tail_def set_head_def)
    moreover have "is_link ?h l (A l @ A m)"
      using d chl h1(2,4,5) snoc Cons linksD(3,4) [OF A] nt lm by (auto simp: is_link_def)
    then have "links ?h (A(l := A l @ A m, m := []))"
      by (rule upd) (use snoc Cons h1 lm in auto)
    moreover have "same_rest h ?h" using rest nt(1,5) by (auto simp: same_rest_def)
    ultimately show ?thesis by blast
  qed
qed

text \<open>A node that is in no list may be removed, too.\<close>

lemma RemoveFromLink_rep:
  assumes A: "links h A" and a: "a \<in> dom (lh_node h)"
  shows "\<exists>h'. RemoveFromLink a h = Ok h' \<and> links h' (\<lambda>l. remove1 a (A l)) \<and> same_rest h h'"
proof -
  obtain n where n: "lh_node h a = Some n" using a by auto
  show ?thesis
  proof (cases "ln_link n")
    case None
    then have "a \<notin> set (A l)" for l using linksD(7) [OF A n] by auto
    then have "(\<lambda>l. remove1 a (A l)) = A" by (simp add: remove1_idem)
    then show ?thesis using RemoveFromLink_free [OF n None] A by (simp add: same_rest_def)
  next
    case (Some l)
    then have a: "a \<in> set (A l)" using linksD(7) [OF A n] by blast
    have "(\<lambda>m. remove1 a (A m)) = A(l := remove1 a (A l))"
    proof
      show "remove1 a (A m) = (A(l := remove1 a (A l))) m" for m using linksD(6) [OF A a, of m] by (cases "m = l") (auto intro: remove1_idem)
    qed
    then show ?thesis using RemoveFromLink_links [OF A a] by simp
  qed
qed

section \<open>The interface\<close>

text \<open>What the users of the lists rely on: a family of lists in which a node is at most once, to the ends of which nodes are added and
from which they are removed. A node is moved to the end of another list by removing and adding it.\<close>

definition moved :: "nat \<Rightarrow> nat \<Rightarrow> (nat \<Rightarrow> nat list) \<Rightarrow> nat \<Rightarrow> nat list" where
  "moved l a A = (\<lambda>m. remove1 a (A m) @ (if m = l then [a] else []))"

locale node_lists =
  fixes rep :: "'h \<Rightarrow> (nat \<Rightarrow> nat list) \<Rightarrow> bool" and nodes :: "'h \<Rightarrow> nat set" and frame :: "'h \<Rightarrow> 'h \<Rightarrow> bool"
    and add :: "nat \<Rightarrow> nat \<Rightarrow> 'h \<Rightarrow> 'h outcome" and remove :: "nat \<Rightarrow> 'h \<Rightarrow> 'h outcome"
  assumes rep_distinct: "rep h A \<Longrightarrow> distinct (A l)"
    and add_rep: "rep h A \<Longrightarrow> a \<in> nodes h \<Longrightarrow> (\<And>m. a \<notin> set (A m)) \<Longrightarrow> \<exists>h'. add l a h = Ok h' \<and> rep h' (A(l := A l @ [a])) \<and> frame h h'"
    and remove_rep: "rep h A \<Longrightarrow> a \<in> nodes h \<Longrightarrow> \<exists>h'. remove a h = Ok h' \<and> rep h' (\<lambda>l. remove1 a (A l)) \<and> frame h h'"
    and frame_nodes: "frame h h' \<Longrightarrow> nodes h' = nodes h" and frame_trans: "frame h h1 \<Longrightarrow> frame h1 h2 \<Longrightarrow> frame h h2"
begin

lemma move:
  assumes "rep h A" "a \<in> nodes h"
  shows "\<exists>h1 h2. remove a h = Ok h1 \<and> frame h h1 \<and> add l a h1 = Ok h2 \<and> frame h h2 \<and> rep h2 (moved l a A)"
proof -
  obtain h1 where 1: "remove a h = Ok h1" "rep h1 (\<lambda>l. remove1 a (A l))" "frame h h1" using remove_rep [OF assms] by blast
  have "a \<in> nodes h1" "\<And>m. a \<notin> set (remove1 a (A m))" using frame_nodes [OF 1(3)] assms rep_distinct [OF assms(1)] by auto
  from add_rep [OF 1(2) this, of l] obtain h2
    where 2: "add l a h1 = Ok h2" "rep h2 ((\<lambda>l. remove1 a (A l))(l := remove1 a (A l) @ [a]))" "frame h1 h2" by blast
  have "(\<lambda>l. remove1 a (A l))(l := remove1 a (A l) @ [a]) = moved l a A" by (auto simp: moved_def fun_eq_iff)
  then show ?thesis using 1 2 frame_trans by auto
qed

end

interpretation nl: node_lists links "\<lambda>h. dom (lh_node h)" same_rest AddTail RemoveFromLink
proof (unfold_locales, goal_cases)
  case (1 h A l)
  then show ?case by (rule linksD(1))
next
  case (2 h A a l)
  then show ?case using AddTail_links [of h A a l] by blast
next
  case (3 h A a)
  then show ?case by (rule RemoveFromLink_rep)
qed (simp_all add: same_rest_def)

section \<open>Properties\<close>

datatype link_op = Op_AddTail nat nat | Op_PopHead nat | Op_Remove nat | Op_Join nat nat

primrec run_op :: "nat \<Rightarrow> link_op \<Rightarrow> 'b lheap_scheme \<Rightarrow> 'b lheap_scheme outcome" where
  "run_op n (Op_AddTail l a) h = AddTail l a h"
| "run_op n (Op_PopHead l) h = PopHead l h"
| "run_op n (Op_Remove a) h = RemoveFromLink a h"
| "run_op n (Op_Join l m) h = Join n l m h"

primrec run_ops :: "nat \<Rightarrow> link_op list \<Rightarrow> 'b lheap_scheme \<Rightarrow> 'b lheap_scheme outcome" where
  "run_ops n [] h = Ok h"
| "run_ops n (p # ps) h = obind (run_op n p h) (run_ops n ps)"

text \<open>The same on lists.\<close>

primrec list_op :: "link_op \<Rightarrow> (nat \<Rightarrow> nat list) \<Rightarrow> nat \<Rightarrow> nat list" where
  "list_op (Op_AddTail l a) A = (if \<exists>m. a \<in> set (A m) then A else A(l := A l @ [a]))"
| "list_op (Op_PopHead l) A = A(l := tl (A l))"
| "list_op (Op_Remove a) A = (\<lambda>l. remove1 a (A l))"
| "list_op (Op_Join l m) A = A(l := A l @ A m, m := [])"

primrec op_ok :: "nat set \<Rightarrow> link_op \<Rightarrow> bool" where
  "op_ok D (Op_AddTail l a) = (a \<in> D)"
| "op_ok D (Op_PopHead l) = True"
| "op_ok D (Op_Remove a) = (a \<in> D)"
| "op_ok D (Op_Join l m) = (l \<noteq> m)"

lemma length_le_nodes:
  assumes "links h A" "finite (dom (lh_node h))"
  shows "length (A l) \<le> card (dom (lh_node h))"
proof -
  have "set (A l) \<subseteq> dom (lh_node h)" using linksD(5) [OF assms(1)] by blast
  then show ?thesis using card_mono [OF assms(2)] distinct_card [OF linksD(1) [OF assms(1)]] by metis
qed

lemma run_op_links:
  assumes A: "links h A" and fin: "finite (dom (lh_node h))" "card (dom (lh_node h)) < n" and ok: "op_ok (dom (lh_node h)) p"
  shows "\<exists>h'. run_op n p h = Ok h' \<and> links h' (list_op p A) \<and> same_rest h h'"
proof (cases p)
  case (Op_AddTail l a)
  then have "lh_node h a \<noteq> None" using ok by auto
  then show ?thesis
    using Op_AddTail AddTail_links [OF A, of a l] AddTail_linked [OF A, of a _ l] A by (cases "\<exists>m. a \<in> set (A m)") (auto simp: same_rest_def)
next
  case (Op_PopHead l)
  then show ?thesis using PopHead_links [OF A] by simp
next
  case (Op_Remove a)
  then show ?thesis using RemoveFromLink_rep [OF A] ok by auto
next
  case (Op_Join l m)
  then show ?thesis using Join_links [OF A, of l m n] ok length_le_nodes [OF A fin(1), of m] fin(2) by auto
qed

text \<open>C11: the linked lists of libco are lists. Any sequence of \<open>AddTail\<close>, \<open>PopHead\<close>, \<open>RemoveFromLink\<close> and \<open>Join\<close> (of
two different lists) on nodes that have not been freed runs without a null dereference or a failed assertion, the
loop of \<open>Join\<close> ends, and the pointers represent at any time the lists that the operations on plain lists give: a
node that is in a list already is not added again.\<close>

theorem link_ops_refine_lists:
  assumes "links h A" "finite (dom (lh_node h))" "card (dom (lh_node h)) < n" "list_all (op_ok (dom (lh_node h))) ps"
  shows "\<exists>h'. run_ops n ps h = Ok h' \<and> links h' (fold list_op ps A) \<and> same_rest h h'"
  using assms
proof (induction ps arbitrary: h A)
  case (Cons p ps)
  have "op_ok (dom (lh_node h)) p" using Cons.prems(4) by simp
  from run_op_links [OF Cons.prems(1-3) this] obtain h1 where h1: "run_op n p h = Ok h1" "links h1 (list_op p A)" "same_rest h h1" by blast
  have dom: "dom (lh_node h1) = dom (lh_node h)" using h1(3) by (simp add: same_rest_def)
  obtain h' where "run_ops n ps h1 = Ok h'" "links h' (fold list_op ps (list_op p A))" "same_rest h1 h'"
    using Cons.IH [OF h1(2)] Cons.prems(2-4) dom by auto
  then show ?case using h1 by (auto simp: same_rest_def)
qed (simp add: same_rest_def)

definition demo_links :: lheap where
  "demo_links = \<lparr>lh_node = (\<lambda>a. if a < 3 then Some free_node else None), lh_head = (\<lambda>_. None), lh_tail = (\<lambda>_. None)\<rparr>"

theorem link_ops_refine_lists_witness:
  "\<exists>h'. run_ops 4 [Op_AddTail 7 0, Op_AddTail 7 1, Op_AddTail 8 2, Op_AddTail 8 0, Op_Join 8 7, Op_Remove 0] demo_links = Ok h'
     \<and> links h' ((\<lambda>_. [])(8 := [2, 1]))"
proof -
  have d: "dom (lh_node demo_links) = {..<3}" by (auto simp: demo_links_def split: if_splits)
  have "links demo_links (\<lambda>_. [])" by (simp add: links_def is_link_def demo_links_def free_node_def)
  from link_ops_refine_lists [OF this, of 4 "[Op_AddTail 7 0, Op_AddTail 7 1, Op_AddTail 8 2, Op_AddTail 8 0, Op_Join 8 7, Op_Remove 0]"]
  obtain h' where h': "run_ops 4 [Op_AddTail 7 0, Op_AddTail 7 1, Op_AddTail 8 2, Op_AddTail 8 0, Op_Join 8 7, Op_Remove 0] demo_links = Ok h'"
    "links h' (fold list_op [Op_AddTail 7 0, Op_AddTail 7 1, Op_AddTail 8 2, Op_AddTail 8 0, Op_Join 8 7, Op_Remove 0] (\<lambda>_. []))"
    unfolding d by auto
  have "fold list_op [Op_AddTail 7 0, Op_AddTail 7 1, Op_AddTail 8 2, Op_AddTail 8 0, Op_Join 8 7, Op_Remove 0] (\<lambda>_. []) = (\<lambda>_. [])(8 := [2, 1])"
    by (simp add: fun_eq_iff)
  then show ?thesis using h' by metis
qed

end
