(* ===== verification/Libco_Timeout.thy ===== *)
theory Libco_Timeout
  imports Libco_Link
begin

text \<open>
  Timeouts of libco (libco/co_routine.cpp): the timing wheel (\<open>AddTimeout\<close>, \<open>TakeAllTimeout\<close>), a round of
  \<open>co_eventloop\<close>, and condition variables (\<open>co_cond_*\<close>), on the linked lists of \<open>Libco_Link\<close>.

  Times are milliseconds, \<open>unsigned long long\<close>s far from their bound; the narrowing to \<open>int\<close> in
  \<open>TakeAllTimeout\<close> is written out. What the event loop calls through pointers (\<open>pfnPrepare\<close>, \<open>pfnProcess\<close>) is a
  parameter.
\<close>

section \<open>State\<close>

text \<open>\<open>stCoEpoll_t\<close> with its wheel \<open>stTimeout_t\<close>, and the members \<open>ullExpireTime\<close> and \<open>bTimeout\<close> of the items. The links
\<open>tm_pItems\<close>, \<open>tm_pItems + 1\<close>, \<open>...\<close> are the slots of the wheel.\<close>

record coepoll = lheap +
  tm_pItems :: nat
  tm_iItemSize :: nat
  tm_ullStart :: nat
  tm_llStartIdx :: int
  ep_pstTimeoutList :: nat
  ep_pstActiveList :: nat
  ti_ullExpireTime :: "nat \<Rightarrow> nat"
  ti_bTimeout :: "nat \<Rightarrow> bool"

definition AllocTimeout :: "nat \<Rightarrow> nat \<Rightarrow> nat \<Rightarrow> 'b coepoll_scheme \<Rightarrow> 'b coepoll_scheme" where
  "AllocTimeout items iSize now st = st\<lparr>tm_pItems := items, tm_iItemSize := iSize, tm_ullStart := now, tm_llStartIdx := 0,
     lh_head := (\<lambda>l. if items \<le> l \<and> l < items + iSize then None else lh_head st l),
     lh_tail := (\<lambda>l. if items \<le> l \<and> l < items + iSize then None else lh_tail st l)\<rparr>"

section \<open>The wheel\<close>

definition start_wheel :: "nat \<Rightarrow> 'b coepoll_scheme \<Rightarrow> 'b coepoll_scheme" where
  "start_wheel allNow st = (if tm_ullStart st = 0 then st\<lparr>tm_ullStart := allNow, tm_llStartIdx := 0\<rparr> else st)"

text \<open>The errors are the line numbers of the returns.\<close>

definition AddTimeout :: "nat \<Rightarrow> nat \<Rightarrow> 'b coepoll_scheme \<Rightarrow> (nat \<times> 'b coepoll_scheme) outcome" where
  "AddTimeout apItem allNow st0 = (let st = start_wheel allNow st0 in
     if allNow < tm_ullStart st then Ok (390, st)
     else if ti_ullExpireTime st apItem < allNow then Ok (397, st)
     else let diff = ti_ullExpireTime st apItem - tm_ullStart st;
              diff1 = (if tm_iItemSize st \<le> diff then tm_iItemSize st - 1 else diff)
          in obind (AddTail (tm_pItems st + nat ((tm_llStartIdx st + int diff1) mod 2 ^ 64) mod tm_iItemSize st) apItem st) (\<lambda>st1. Ok (0, st1)))"

definition to_int32 :: "nat \<Rightarrow> int" where
  "to_int32 x = (let r = int x mod 2 ^ 32 in if r < 2 ^ 31 then r else r - 2 ^ 32)"

primrec take_slots :: "nat \<Rightarrow> nat \<Rightarrow> nat list \<Rightarrow> 'b coepoll_scheme \<Rightarrow> 'b coepoll_scheme outcome" where
  "take_slots n apResult [] st = Ok st"
| "take_slots n apResult (i # is) st = (let idx = (tm_llStartIdx st + int i) smod int (tm_iItemSize st) in
     if idx < 0 then Fault OutOfBounds
     else obind (Join n apResult (tm_pItems st + nat idx) st) (take_slots n apResult is))"

definition TakeAllTimeout :: "nat \<Rightarrow> nat \<Rightarrow> nat \<Rightarrow> 'b coepoll_scheme \<Rightarrow> 'b coepoll_scheme outcome" where
  "TakeAllTimeout n allNow apResult st0 = (let st = start_wheel allNow st0 in
     if allNow < tm_ullStart st then Ok st
     else let cnt0 = to_int32 (allNow - tm_ullStart st + 1); cnt = (if int (tm_iItemSize st) < cnt0 then int (tm_iItemSize st) else cnt0)
          in if cnt < 0 then Ok st
             else obind (take_slots n apResult [0..<nat cnt] st) (\<lambda>st1.
               Ok (st1\<lparr>tm_ullStart := allNow, tm_llStartIdx := tm_llStartIdx st1 + (cnt - 1)\<rparr>)))"

section \<open>The event loop\<close>

text \<open>The walk along \<open>pNext\<close> that marks the items that have timed out.\<close>

primrec mark_timeouts :: "nat \<Rightarrow> nat option \<Rightarrow> 'b coepoll_scheme \<Rightarrow> 'b coepoll_scheme outcome" where
  "mark_timeouts 0 lp st = Fuel"
| "mark_timeouts (Suc n) lp st = (case lp of None \<Rightarrow> Ok st
     | Some a \<Rightarrow> obind (node_at a st) (\<lambda>m. mark_timeouts n (ln_next m) (st\<lparr>ti_bTimeout := (ti_bTimeout st)(a := True)\<rparr>)))"

text \<open>The loop over the active list, as long as there is an item in it.\<close>

primrec run_active :: "nat \<Rightarrow> (nat \<Rightarrow> 'b coepoll_scheme \<Rightarrow> 'b coepoll_scheme outcome) \<Rightarrow> nat \<Rightarrow> 'b coepoll_scheme \<Rightarrow> 'b coepoll_scheme outcome" where
  "run_active 0 process now st = Fuel"
| "run_active (Suc n) process now st = (case lh_head st (ep_pstActiveList st) of None \<Rightarrow> Ok st
     | Some lp \<Rightarrow> obind (PopHead (ep_pstActiveList st) st) (\<lambda>st1.
         if ti_bTimeout st1 lp \<and> now < ti_ullExpireTime st1 lp
         then obind (AddTimeout lp now st1) (\<lambda>(ret, st2).
           if ret = 0 then run_active n process now (st2\<lparr>ti_bTimeout := (ti_bTimeout st2)(lp := False)\<rparr>)
           else obind (process lp st2) (run_active n process now))
         else obind (process lp st1) (run_active n process now)))"

text \<open>The events that \<open>co_epoll_wait\<close> has reported: an item with a \<open>pfnPrepare\<close> is given to it, any other becomes active.\<close>

primrec raise_events :: "(nat \<Rightarrow> ('e \<Rightarrow> 'b coepoll_scheme \<Rightarrow> 'b coepoll_scheme outcome) option) \<Rightarrow> (nat \<times> 'e) list
    \<Rightarrow> 'b coepoll_scheme \<Rightarrow> 'b coepoll_scheme outcome" where
  "raise_events prepare [] st = Ok st"
| "raise_events prepare (ev # evs) st = obind (case prepare (fst ev) of Some f \<Rightarrow> f (snd ev) st | None \<Rightarrow> AddTail (ep_pstActiveList st) (fst ev) st)
     (raise_events prepare evs)"

definition eventloop_round :: "nat \<Rightarrow> (nat \<Rightarrow> ('e \<Rightarrow> 'b coepoll_scheme \<Rightarrow> 'b coepoll_scheme outcome) option)
    \<Rightarrow> (nat \<Rightarrow> 'b coepoll_scheme \<Rightarrow> 'b coepoll_scheme outcome) \<Rightarrow> (nat \<times> 'e) list \<Rightarrow> nat \<Rightarrow> 'b coepoll_scheme \<Rightarrow> 'b coepoll_scheme outcome" where
  "eventloop_round n prepare process evs now st =
     (let st0 = set_tail (ep_pstTimeoutList st) None (set_head (ep_pstTimeoutList st) None st) in
      obind (raise_events prepare evs st0) (\<lambda>st1.
      obind (TakeAllTimeout n now (ep_pstTimeoutList st1) st1) (\<lambda>st2.
      obind (mark_timeouts n (lh_head st2 (ep_pstTimeoutList st2)) st2) (\<lambda>st3.
      obind (Join n (ep_pstActiveList st3) (ep_pstTimeoutList st3) st3) (run_active n process now)))))"

section \<open>Condition variables\<close>

text \<open>A \<open>stCoCondItem_t\<close> is a node with a \<open>stTimeoutItem_t\<close> inside, which is a node of its own (\<open>ci_timeout\<close>).\<close>

definition co_cond_pop :: "nat \<Rightarrow> 'b lheap_scheme \<Rightarrow> (nat option \<times> 'b lheap_scheme) outcome" where
  "co_cond_pop lnk st = (case lh_head st lnk of None \<Rightarrow> Ok (None, st) | Some p \<Rightarrow> obind (PopHead lnk st) (\<lambda>st1. Ok (Some p, st1)))"

definition co_cond_signal :: "(nat \<Rightarrow> nat) \<Rightarrow> nat \<Rightarrow> 'b coepoll_scheme \<Rightarrow> 'b coepoll_scheme outcome" where
  "co_cond_signal ci_timeout si st = obind (co_cond_pop si st) (\<lambda>(sp, st1). case sp of None \<Rightarrow> Ok st1
     | Some p \<Rightarrow> obind (RemoveFromLink (ci_timeout p) st1) (\<lambda>st2. AddTail (ep_pstActiveList st2) (ci_timeout p) st2))"

primrec co_cond_broadcast :: "nat \<Rightarrow> (nat \<Rightarrow> nat) \<Rightarrow> nat \<Rightarrow> 'b coepoll_scheme \<Rightarrow> 'b coepoll_scheme outcome" where
  "co_cond_broadcast 0 ci_timeout si st = Fuel"
| "co_cond_broadcast (Suc n) ci_timeout si st = obind (co_cond_pop si st) (\<lambda>(sp, st1). case sp of None \<Rightarrow> Ok st1
     | Some p \<Rightarrow> obind (RemoveFromLink (ci_timeout p) st1) (\<lambda>st2.
         obind (AddTail (ep_pstActiveList st2) (ci_timeout p) st2) (co_cond_broadcast n ci_timeout si)))"

text \<open>\<open>co_cond_timedwait\<close> up to its yield: the new item \<open>psi\<close> waits, or the error of \<open>AddTimeout\<close> is returned; and
behind it, when the coroutine goes on.\<close>

definition alloc_item :: "(nat \<Rightarrow> nat) \<Rightarrow> nat \<Rightarrow> 'b coepoll_scheme \<Rightarrow> 'b coepoll_scheme" where
  "alloc_item ci_timeout psi st = st\<lparr>lh_node := (lh_node st)(psi \<mapsto> free_node, ci_timeout psi \<mapsto> free_node),
     ti_ullExpireTime := (ti_ullExpireTime st)(ci_timeout psi := 0), ti_bTimeout := (ti_bTimeout st)(ci_timeout psi := False)\<rparr>"

definition free_item :: "(nat \<Rightarrow> nat) \<Rightarrow> nat \<Rightarrow> 'b lheap_scheme \<Rightarrow> 'b lheap_scheme" where
  "free_item ci_timeout psi st = st\<lparr>lh_node := (lh_node st)(psi := None, ci_timeout psi := None)\<rparr>"

definition timedwait_enter :: "(nat \<Rightarrow> nat) \<Rightarrow> nat \<Rightarrow> int \<Rightarrow> nat \<Rightarrow> nat \<Rightarrow> 'b coepoll_scheme \<Rightarrow> (nat \<times> 'b coepoll_scheme) outcome" where
  "timedwait_enter ci_timeout lnk ms now psi st0 = (let st = alloc_item ci_timeout psi st0 in
     obind (if 0 < ms then AddTimeout (ci_timeout psi) now (st\<lparr>ti_ullExpireTime := (ti_ullExpireTime st)(ci_timeout psi := now + nat ms)\<rparr>)
            else Ok (0, st)) (\<lambda>(ret, st1).
     if ret \<noteq> 0 then Ok (ret, free_item ci_timeout psi st1)
     else obind (AddTail lnk psi st1) (\<lambda>st2. Ok (0, st2))))"

definition timedwait_leave :: "(nat \<Rightarrow> nat) \<Rightarrow> nat \<Rightarrow> 'b coepoll_scheme \<Rightarrow> 'b coepoll_scheme outcome" where
  "timedwait_leave ci_timeout psi st = obind (RemoveFromLink psi st) (\<lambda>st1. Ok (free_item ci_timeout psi st1))"

section \<open>The wheel as a list\<close>

definition slot :: "'b coepoll_scheme \<Rightarrow> nat \<Rightarrow> nat" where
  "slot st d = tm_pItems st + (nat (tm_llStartIdx st) + d) mod tm_iItemSize st"

text \<open>The items of the wheel with the times at which they will be taken, in this order.\<close>

definition wheel_part :: "'b coepoll_scheme \<Rightarrow> (nat \<Rightarrow> nat list) \<Rightarrow> nat list \<Rightarrow> (nat \<times> nat) list" where
  "wheel_part st A ds = concat (map (\<lambda>d. map (Pair (tm_ullStart st + d)) (A (slot st d))) ds)"

definition wheel_list :: "'b coepoll_scheme \<Rightarrow> (nat \<Rightarrow> nat list) \<Rightarrow> (nat \<times> nat) list" where
  "wheel_list st A = wheel_part st A [0..<tm_iItemSize st]"

definition wheel_ok :: "'b coepoll_scheme \<Rightarrow> (nat \<Rightarrow> nat list) \<Rightarrow> bool" where
  "wheel_ok st A \<longleftrightarrow> links st A \<and> finite (dom (lh_node st)) \<and> 1 < tm_iItemSize st \<and> tm_iItemSize st < 2 ^ 31
     \<and> 0 \<le> tm_llStartIdx st \<and> tm_llStartIdx st + int (tm_iItemSize st) < 2 ^ 63 \<and> 0 < tm_ullStart st"

text \<open>A link that is not a slot.\<close>

definition outside :: "'b coepoll_scheme \<Rightarrow> nat \<Rightarrow> bool" where
  "outside st l \<longleftrightarrow> l < tm_pItems st \<or> tm_pItems st + tm_iItemSize st \<le> l"

definition insert_due :: "nat \<times> nat \<Rightarrow> (nat \<times> nat) list \<Rightarrow> (nat \<times> nat) list" where
  "insert_due e xs = takeWhile (\<lambda>x. fst x \<le> fst e) xs @ e # dropWhile (\<lambda>x. fst x \<le> fst e) xs"

lemma rest_fields:
  assumes "same_rest st st'"
  shows "tm_pItems st' = tm_pItems st" "tm_iItemSize st' = tm_iItemSize st" "tm_ullStart st' = tm_ullStart st" "tm_llStartIdx st' = tm_llStartIdx st"
    "ep_pstTimeoutList st' = ep_pstTimeoutList st" "ep_pstActiveList st' = ep_pstActiveList st" "ti_ullExpireTime st' = ti_ullExpireTime st"
    "ti_bTimeout st' = ti_bTimeout st" "coepoll.more st' = coepoll.more st" "dom (lh_node st') = dom (lh_node st)"
  using assms by (cases st; cases st'; simp add: same_rest_def)+

lemma same_rest_trans: "same_rest st st1 \<Longrightarrow> same_rest st1 st2 \<Longrightarrow> same_rest st st2"
  by (simp add: same_rest_def)

lemma slot_cong:
  assumes "same_rest st st'"
  shows "slot st' = slot st" "outside st' = outside st" "wheel_part st' = wheel_part st" "wheel_list st' = wheel_list st"
  using rest_fields [OF assms] by (simp_all add: slot_def wheel_part_def wheel_list_def outside_def fun_eq_iff)

lemma wheel_ok_cong: "wheel_ok st A \<Longrightarrow> same_rest st st' \<Longrightarrow> links st' A' \<Longrightarrow> wheel_ok st' A'"
  using rest_fields [of st st'] by (simp add: wheel_ok_def)

lemma slot_range: "0 < tm_iItemSize st \<Longrightarrow> tm_pItems st \<le> slot st d \<and> slot st d < tm_pItems st + tm_iItemSize st"
  by (simp add: slot_def)

lemma outside_slot: "0 < tm_iItemSize st \<Longrightarrow> outside st l \<Longrightarrow> slot st d \<noteq> l"
  using slot_range [of st d] by (auto simp: outside_def)

lemma wheel_slot_inj:
  assumes "d < tm_iItemSize st" "e < tm_iItemSize st"
  shows "slot st d = slot st e \<longleftrightarrow> d = e"
proof -
  let ?n = "tm_iItemSize st" and ?k = "nat (tm_llStartIdx st)"
  have "(?k + d) mod ?n = (?k + e) mod ?n \<Longrightarrow> d mod ?n = e mod ?n" by (simp add: nat_mod_eq_iff)
  then show ?thesis using assms by (auto simp: slot_def)
qed

lemma wheel_part_simps [simp]:
  "wheel_part st A [] = []" "wheel_part st A (d # ds) = map (Pair (tm_ullStart st + d)) (A (slot st d)) @ wheel_part st A ds"
  "wheel_part st A (ds @ es) = wheel_part st A ds @ wheel_part st A es"
  by (simp_all add: wheel_part_def)

lemma wheel_part_times: "e \<in> set (wheel_part st A ds) \<Longrightarrow> \<exists>d\<in>set ds. fst e = tm_ullStart st + d"
  by (auto simp: wheel_part_def)

lemma wheel_part_cong: "(\<And>d. d \<in> set ds \<Longrightarrow> A' (slot st d) = A (slot st d)) \<Longrightarrow> wheel_part st A' ds = wheel_part st A ds"
  by (simp add: wheel_part_def cong: map_cong)

lemma wheel_split:
  assumes "d < tm_iItemSize st"
  shows "wheel_list st A = wheel_part st A [0..<d] @ map (Pair (tm_ullStart st + d)) (A (slot st d)) @ wheel_part st A [Suc d..<tm_iItemSize st]"
proof -
  have "[0..<tm_iItemSize st] = [0..<d] @ d # [Suc d..<tm_iItemSize st]" using assms by (metis less_imp_le_nat upt_add_eq_append upt_conv_Cons le_add_diff_inverse zero_le)
  then show ?thesis by (simp add: wheel_list_def)
qed

lemma take_drop_split:
  fixes t :: nat
  assumes "\<forall>x\<in>set xs. fst x \<le> t" "\<forall>y\<in>set ys. t < fst y"
  shows "takeWhile (\<lambda>x. fst x \<le> t) (xs @ ys) = xs" "dropWhile (\<lambda>x. fst x \<le> t) (xs @ ys) = ys"
proof -
  have ys: "takeWhile (\<lambda>x. fst x \<le> t) ys = []" "dropWhile (\<lambda>x. fst x \<le> t) ys = ys"
    using assms(2) by (cases ys; auto)+
  show "takeWhile (\<lambda>x. fst x \<le> t) (xs @ ys) = xs" using takeWhile_append2 [of xs "\<lambda>x. fst x \<le> t" ys] assms(1) ys(1) by simp
  show "dropWhile (\<lambda>x. fst x \<le> t) (xs @ ys) = ys" using dropWhile_append2 [of xs "\<lambda>x. fst x \<le> t" ys] assms(1) ys(2) by simp
qed

lemma insert_due_split:
  assumes "\<forall>x\<in>set xs. fst x \<le> t" "\<forall>y\<in>set ys. t < fst y"
  shows "insert_due (t, a) (xs @ ys) = xs @ (t, a) # ys"
  using take_drop_split [OF assms] by (simp add: insert_due_def)

lemma wheel_insert:
  assumes d: "d < tm_iItemSize st"
  shows "wheel_list st (A(slot st d := A (slot st d) @ [a])) = insert_due (tm_ullStart st + d, a) (wheel_list st A)"
proof -
  let ?A = "A(slot st d := A (slot st d) @ [a])"
  have eq: "wheel_part st ?A [0..<d] = wheel_part st A [0..<d]" "wheel_part st ?A [Suc d..<tm_iItemSize st] = wheel_part st A [Suc d..<tm_iItemSize st]"
    using d wheel_slot_inj [of _ st d] by (intro wheel_part_cong; simp)+
  have "wheel_list st ?A = (wheel_part st A [0..<d] @ map (Pair (tm_ullStart st + d)) (A (slot st d))) @ (tm_ullStart st + d, a) # wheel_part st A [Suc d..<tm_iItemSize st]"
    unfolding wheel_split [OF d] eq by simp
  also have "\<dots> = insert_due (tm_ullStart st + d, a) (wheel_list st A)"
    unfolding wheel_split [OF d, of A] append_assoc [symmetric]
    by (rule insert_due_split [symmetric]) (auto dest: wheel_part_times)
  finally show ?thesis .
qed

lemma AddTimeout_ok:
  assumes w: "wheel_ok st A" and a: "lh_node st a \<noteq> None" "\<And>l. a \<notin> set (A l)"
    and now: "tm_ullStart st \<le> now" "now \<le> ti_ullExpireTime st a"
  shows "\<exists>st' A'. AddTimeout a now st = Ok (0, st') \<and> wheel_ok st' A' \<and> same_rest st st'
     \<and> wheel_list st' A' = insert_due (min (ti_ullExpireTime st a) (tm_ullStart st + tm_iItemSize st - 1), a) (wheel_list st A)
     \<and> (\<forall>l. outside st l \<longrightarrow> A' l = A l)"
proof -
  define d where "d = (if tm_iItemSize st \<le> ti_ullExpireTime st a - tm_ullStart st then tm_iItemSize st - 1 else ti_ullExpireTime st a - tm_ullStart st)"
  have st: "links st A" "1 < tm_iItemSize st" "0 \<le> tm_llStartIdx st" "tm_llStartIdx st + int (tm_iItemSize st) < 2 ^ 63" "0 < tm_ullStart st"
    using w by (simp_all add: wheel_ok_def)
  have d: "d < tm_iItemSize st" "tm_ullStart st + d = min (ti_ullExpireTime st a) (tm_ullStart st + tm_iItemSize st - 1)"
    using st(2) now by (auto simp: d_def)
  have "nat ((tm_llStartIdx st + int d) mod 2 ^ 64) = nat (tm_llStartIdx st) + d"
    using st(3,4) d(1) by (simp add: nat_add_distrib)
  then have slot: "tm_pItems st + nat ((tm_llStartIdx st + int d) mod 2 ^ 64) mod tm_iItemSize st = slot st d" by (simp add: slot_def)
  obtain st' where st': "AddTail (slot st d) a st = Ok st'" "links st' (A(slot st d := A (slot st d) @ [a]))" "same_rest st st'"
    using AddTail_links [OF st(1) a] by blast
  have start: "start_wheel now st = st" "\<not> now < tm_ullStart st" "\<not> ti_ullExpireTime st a < now" using st(5) now by (simp_all add: start_wheel_def)
  have "AddTimeout a now st = Ok (0, st')"
    unfolding AddTimeout_def Let_def start(1) d_def [symmetric] slot st'(1) using start(2,3) by simp
  moreover have "\<forall>l. outside st l \<longrightarrow> (A(slot st d := A (slot st d) @ [a])) l = A l" using outside_slot [of st] st(2) by auto
  ultimately show ?thesis
    using wheel_ok_cong [OF w st'(3,2)] st'(3) wheel_insert [OF d(1), of A a] slot_cong(4) [OF st'(3)] d(2) by metis
qed

text \<open>Taking slots.\<close>

definition taken :: "'b coepoll_scheme \<Rightarrow> nat \<Rightarrow> nat list \<Rightarrow> (nat \<Rightarrow> nat list) \<Rightarrow> nat \<Rightarrow> nat list" where
  "taken st r is A = (\<lambda>l. if l = r then A r @ concat (map (\<lambda>i. A (slot st i)) is) else if l \<in> slot st ` set is then [] else A l)"

lemma take_slots_ok:
  "wheel_ok st A \<Longrightarrow> outside st r \<Longrightarrow> distinct is \<Longrightarrow> set is \<subseteq> {..<tm_iItemSize st} \<Longrightarrow> card (dom (lh_node st)) < n \<Longrightarrow>
   \<exists>st'. take_slots n r is st = Ok st' \<and> wheel_ok st' (taken st r is A) \<and> same_rest st st'"
proof (induction "is" arbitrary: st A)
  case Nil
  have "taken st r [] A = A" by (simp add: taken_def fun_eq_iff)
  then show ?case using Nil by (simp add: same_rest_def)
next
  case (Cons i "is")
  have st: "links st A" "1 < tm_iItemSize st" "0 \<le> tm_llStartIdx st" "finite (dom (lh_node st))" using Cons.prems(1) by (simp_all add: wheel_ok_def)
  have idx: "(tm_llStartIdx st + int i) smod int (tm_iItemSize st) = int ((nat (tm_llStartIdx st) + i) mod tm_iItemSize st)"
    using st(2,3) by (simp add: smod_nonneg zmod_int)
  have ne: "r \<noteq> slot st i" using outside_slot [OF _ Cons.prems(2)] st(2) by (metis less_trans zero_less_one)
  have "length (A (slot st i)) < n" using length_le_nodes [OF st(1,4)] Cons.prems(5) by (meson le_less_trans)
  from Join_links [OF st(1) ne this] obtain st1 where
    st1: "Join n r (slot st i) st = Ok st1" "links st1 (A(r := A r @ A (slot st i), slot st i := []))" "same_rest st st1" by blast
  note f = rest_fields [OF st1(3)] slot_cong [OF st1(3)]
  let ?A = "A(r := A r @ A (slot st i), slot st i := [])"
  have "outside st1 r" "distinct is" "set is \<subseteq> {..<tm_iItemSize st1}" "card (dom (lh_node st1)) < n" using Cons.prems f by simp_all
  from Cons.IH [OF wheel_ok_cong [OF Cons.prems(1) st1(3,2)] this] obtain st' where
    st': "take_slots n r is st1 = Ok st'" "wheel_ok st' (taken st1 r is ?A)" "same_rest st1 st'" by blast
  have "slot st j \<noteq> slot st i" "slot st j \<noteq> r" if "j \<in> set is" for j
    using that Cons.prems(3,4) wheel_slot_inj [of j st i] outside_slot [OF _ Cons.prems(2)] st(2) by auto
  then have "concat (map (\<lambda>j. ?A (slot st j)) is) = concat (map (\<lambda>j. A (slot st j)) is)"
    by (intro arg_cong [where f = concat] map_cong) auto
  then have "taken st1 r is ?A = taken st r (i # is) A"
    using ne f by (auto simp: taken_def fun_eq_iff)
  moreover have "take_slots n r (i # is) st = Ok st'" using st1(1) st'(1) idx by (simp add: slot_def)
  ultimately show ?case using st'(2) same_rest_trans [OF st1(3) st'(3)] by auto
qed

text \<open>When the wheel turns by \<open>k\<close>, the slots keep their times; those that have been emptied come last.\<close>

lemma wheel_turn:
  assumes st: "1 < tm_iItemSize st" "0 \<le> tm_llStartIdx st" and k: "k < tm_iItemSize st" "now = tm_ullStart st + k \<or> Suc k = tm_iItemSize st"
    and A: "\<And>i. i \<le> k \<Longrightarrow> A (slot st i) = []"
  shows "wheel_list (st\<lparr>tm_ullStart := now, tm_llStartIdx := tm_llStartIdx st + int k\<rparr>) A = wheel_part st A [Suc k..<tm_iItemSize st]"
proof -
  let ?st = "st\<lparr>tm_ullStart := now, tm_llStartIdx := tm_llStartIdx st + int k\<rparr>" and ?n = "tm_iItemSize st"
  have shift: "slot ?st d = slot st (d + k)" for d using st(2) by (simp add: slot_def nat_add_distrib algebra_simps)
  have wrap: "slot st (d + ?n) = slot st d" for d using st(1) by (simp add: slot_def add.assoc [symmetric])
  have parts: "[0..<?n] = [0..<1] @ map Suc [0..<?n - Suc k] @ [?n - k..<?n]"
  proof -
    have "[0..<?n - k] = 0 # map Suc [0..<?n - Suc k]" using k(1) by (simp add: upt_conv_Cons map_Suc_upt Suc_diff_Suc del: upt_Suc)
    moreover have "[0..<?n] = [0..<?n - k] @ [?n - k..<?n]" using upt_add_eq_append [of 0 "?n - k" k] k(1) by simp
    ultimately show ?thesis by simp
  qed
  have "wheel_part ?st A [0..<1] = []" using A [of k] shift [of 0] by simp
  moreover have "wheel_part ?st A [?n - k..<?n] = []"
  proof -
    have "A (slot ?st d) = []" if "?n - k \<le> d" "d < ?n" for d
      using A [of "d + k - ?n"] wrap [of "d + k - ?n"] shift [of d] that k(1) by simp
    then show ?thesis by (simp add: wheel_part_def)
  qed
  moreover have "wheel_part ?st A (map Suc [0..<?n - Suc k]) = wheel_part st A [Suc k..<?n]"
  proof -
    have "[Suc k..<?n] = map (\<lambda>d. d + Suc k) [0..<?n - Suc k]" using k(1) map_add_upt [of "Suc k" "?n - Suc k"] by simp
    have "[0..<?n - Suc k] = [] \<or> now = tm_ullStart st + k" using k(2) by auto
    then have "[0..<?n - Suc k] = [] \<or> (\<forall>d. tm_ullStart ?st + Suc d = tm_ullStart st + (d + Suc k))" by auto
    moreover have "slot ?st (Suc d) = slot st (d + Suc k)" for d using shift [of "Suc d"] by simp
    ultimately show ?thesis unfolding wheel_part_def \<open>[Suc k..<?n] = _\<close> map_map o_def by (elim disjE) (simp_all add: ac_simps)
  qed
  ultimately show ?thesis unfolding wheel_list_def by (simp add: parts del: upt_Suc)
qed

text \<open>What a turn leaves of the other members.\<close>

definition same_items :: "'b coepoll_scheme \<Rightarrow> 'b coepoll_scheme \<Rightarrow> bool" where
  "same_items st st' \<longleftrightarrow> dom (lh_node st') = dom (lh_node st) \<and> tm_pItems st' = tm_pItems st \<and> tm_iItemSize st' = tm_iItemSize st
     \<and> ep_pstTimeoutList st' = ep_pstTimeoutList st \<and> ep_pstActiveList st' = ep_pstActiveList st
     \<and> ti_ullExpireTime st' = ti_ullExpireTime st \<and> ti_bTimeout st' = ti_bTimeout st \<and> coepoll.more st' = coepoll.more st"

text \<open>What is due at \<open>now\<close> is what is in the slots that the turn of the wheel goes over.\<close>

lemma wheel_due:
  assumes "k < tm_iItemSize st" "now = tm_ullStart st + k \<or> Suc k = tm_iItemSize st" "tm_ullStart st + k \<le> now"
  shows "takeWhile (\<lambda>e. fst e \<le> now) (wheel_list st A) = wheel_part st A [0..<Suc k]"
    "dropWhile (\<lambda>e. fst e \<le> now) (wheel_list st A) = wheel_part st A [Suc k..<tm_iItemSize st]"
proof -
  have list: "wheel_list st A = wheel_part st A [0..<Suc k] @ wheel_part st A [Suc k..<tm_iItemSize st]"
    using wheel_split [OF assms(1), of A] by simp
  have "\<forall>e\<in>set (wheel_part st A [0..<Suc k]). fst e \<le> now" using assms(3) by (fastforce dest: wheel_part_times)
  moreover have "\<forall>e\<in>set (wheel_part st A [Suc k..<tm_iItemSize st]). now < fst e"
    using assms(2) by (cases "Suc k = tm_iItemSize st") (auto dest!: wheel_part_times)
  ultimately show "takeWhile (\<lambda>e. fst e \<le> now) (wheel_list st A) = wheel_part st A [0..<Suc k]"
    "dropWhile (\<lambda>e. fst e \<le> now) (wheel_list st A) = wheel_part st A [Suc k..<tm_iItemSize st]"
    unfolding list by (rule take_drop_split; assumption)+
qed

lemma TakeAllTimeout_ok:
  assumes w: "wheel_ok st A" "outside st r" "card (dom (lh_node st)) < n" and now: "tm_ullStart st \<le> now" "now - tm_ullStart st + 1 < 2 ^ 31"
    and idx: "tm_llStartIdx st + 2 * int (tm_iItemSize st) < 2 ^ 63"
  shows "\<exists>st' A'. TakeAllTimeout n now r st = Ok st' \<and> wheel_ok st' A' \<and> same_items st st' \<and> tm_ullStart st' = now
     \<and> A' r = A r @ map snd (takeWhile (\<lambda>e. fst e \<le> now) (wheel_list st A))
     \<and> wheel_list st' A' = dropWhile (\<lambda>e. fst e \<le> now) (wheel_list st A)
     \<and> (\<forall>l. outside st l \<longrightarrow> l \<noteq> r \<longrightarrow> A' l = A l) \<and> tm_llStartIdx st' < tm_llStartIdx st + int (tm_iItemSize st)"
proof -
  let ?n = "tm_iItemSize st"
  define k where "k = min (now - tm_ullStart st) (?n - 1)"
  have st: "links st A" "1 < ?n" "?n < 2 ^ 31" "0 \<le> tm_llStartIdx st" "0 < tm_ullStart st" using w(1) by (simp_all add: wheel_ok_def)
  have k: "k < ?n" "now = tm_ullStart st + k \<or> Suc k = ?n" "tm_ullStart st + k \<le> now" using st(2) now(1) by (auto simp: k_def)
  have "to_int32 (now - tm_ullStart st + 1) = int (now - tm_ullStart st + 1)" using now(2) by (simp add: to_int32_def Let_def)
  then have cnt: "(if int ?n < to_int32 (now - tm_ullStart st + 1) then int ?n else to_int32 (now - tm_ullStart st + 1)) = int k + 1"
    using st(2) by (auto simp: k_def)
  obtain st1 where st1: "take_slots n r [0..<Suc k] st = Ok st1" "wheel_ok st1 (taken st r [0..<Suc k] A)" "same_rest st st1"
  proof -
    have "set [0..<Suc k] \<subseteq> {..<?n}" using k(1) by auto
    then show ?thesis using take_slots_ok [OF w(1,2) distinct_upt _ w(3)] that by blast
  qed
  note f = rest_fields [OF st1(3)] slot_cong [OF st1(3)]
  let ?A = "taken st r [0..<Suc k] A" and ?st = "st1\<lparr>tm_ullStart := now, tm_llStartIdx := tm_llStartIdx st1 + int k\<rparr>"
  have start: "start_wheel now st = st" "\<not> now < tm_ullStart st" "\<not> int k + 1 < 0" "nat (int k + 1) = Suc k" using st(5) now(1) by (simp_all add: start_wheel_def)
  have take: "TakeAllTimeout n now r st = Ok ?st"
    unfolding TakeAllTimeout_def Let_def start(1) cnt start(4) st1(1) using start(2,3) by simp
  have out: "slot st i \<noteq> r" for i using outside_slot [OF _ w(2)] st(2) by simp
  have empty: "?A (slot st i) = []" if "i \<le> k" for i using that out [of i] unfolding taken_def by (simp add: less_Suc_eq_le del: upt_Suc)
  have rest: "wheel_part st ?A [Suc k..<?n] = wheel_part st A [Suc k..<?n]"
  proof (rule wheel_part_cong)
    fix d
    assume "d \<in> set [Suc k..<?n]"
    then have "slot st d \<noteq> slot st i" if "i < Suc k" for i using wheel_slot_inj [of d st i] k(1) that by auto
    then have "slot st d \<notin> slot st ` {..<Suc k}" by blast
    then show "?A (slot st d) = A (slot st d)" using out [of d] by (simp add: taken_def lessThan_atLeast0 del: upt_Suc)
  qed
  note td = wheel_due [OF k, of A]
  have turn: "wheel_list ?st ?A = wheel_part st A [Suc k..<?n]"
    using wheel_turn [of st1 k now ?A] st k(1,2) empty rest f by (simp del: upt_Suc)
  have "?A r = A r @ map snd (wheel_part st A [0..<Suc k])" by (simp add: taken_def wheel_part_def map_concat o_def del: upt_Suc)
  moreover have "wheel_ok ?st ?A" using st1(2) idx k(1) now st(5) f by (auto simp: wheel_ok_def links_def is_link_def)
  moreover have "\<forall>l. outside st l \<longrightarrow> l \<noteq> r \<longrightarrow> ?A l = A l" using outside_slot [of st] st(2) by (auto simp: taken_def)
  moreover have "same_items st ?st" using f by (simp add: same_items_def)
  ultimately show ?thesis using take td turn k(1) f by (intro exI [of _ ?st] exI [of _ ?A]) simp
qed

text \<open>The number of slots to take is an \<open>int\<close>: between 2^31 and 2^32 ms after the last turn it is negative, and nothing is
taken, whatever is due.\<close>

lemma TakeAllTimeout_stalls:
  assumes "0 < tm_ullStart st" "tm_ullStart st \<le> now" "2 ^ 31 \<le> now - tm_ullStart st + 1" "now - tm_ullStart st + 1 < 2 ^ 32"
  shows "TakeAllTimeout n now r st = Ok st"
proof -
  have "to_int32 (now - tm_ullStart st + 1) < 0" using assms(2-4) by (simp add: to_int32_def Let_def) arith
  then show ?thesis using assms(1,2) by (simp add: TakeAllTimeout_def start_wheel_def Let_def)
qed

lemma AllocTimeout_ok:
  assumes "links st A" "finite (dom (lh_node st))" "1 < k" "k < 2 ^ 31" "0 < now" "\<And>l. items \<le> l \<Longrightarrow> l < items + k \<Longrightarrow> A l = []"
  shows "wheel_ok (AllocTimeout items k now st) A \<and> wheel_list (AllocTimeout items k now st) A = []"
proof -
  have "links (AllocTimeout items k now st) A" using assms(1,6) by (auto simp: links_def is_link_def AllocTimeout_def)
  moreover have "A (slot (AllocTimeout items k now st) d) = []" for d using assms(3) by (intro assms(6)) (simp_all add: slot_def AllocTimeout_def)
  ultimately show ?thesis using assms(2-5) by (simp add: wheel_ok_def wheel_list_def wheel_part_def) (simp add: AllocTimeout_def)
qed

section \<open>A round of the event loop\<close>

lemma links_irrelevant [simp]:
  "links (st\<lparr>ti_bTimeout := b\<rparr>) A = links st A" "links (coepoll.more_update g st) A = links st A"
  "links (st\<lparr>ti_ullExpireTime := e\<rparr>) A = links st A"
  by (simp_all add: links_def is_link_def)

lemma wheel_irrelevant [simp]:
  "wheel_ok (st\<lparr>ti_ullExpireTime := e\<rparr>) A = wheel_ok st A" "wheel_list (st\<lparr>ti_ullExpireTime := e\<rparr>) A = wheel_list st A"
  "outside (st\<lparr>ti_ullExpireTime := e\<rparr>) = outside st"
  "wheel_ok (st\<lparr>ti_bTimeout := b\<rparr>) A = wheel_ok st A" "wheel_ok (coepoll.more_update g st) A = wheel_ok st A"
  "wheel_list (st\<lparr>ti_bTimeout := b\<rparr>) A = wheel_list st A" "wheel_list (coepoll.more_update g st) A = wheel_list st A"
  "outside (st\<lparr>ti_bTimeout := b\<rparr>) = outside st" "outside (coepoll.more_update g st) = outside st"
  by (simp_all add: wheel_ok_def wheel_list_def wheel_part_def slot_def outside_def fun_eq_iff)

lemma mark_timeouts_ok:
  "chain (lh_node st) l s xs None \<Longrightarrow> length xs < n \<Longrightarrow>
   mark_timeouts n (first xs None) st = Ok (st\<lparr>ti_bTimeout := (\<lambda>a. a \<in> set xs \<or> ti_bTimeout st a)\<rparr>)"
proof (induction xs arbitrary: n s st)
  case Nil
  then show ?case by (cases n) simp_all
next
  case (Cons a xs)
  obtain k where n: "n = Suc k" "length xs < k" using Cons.prems(2) by (cases n) auto
  have a: "node_at a st = Ok \<lparr>ln_prev = s, ln_next = first xs None, ln_link = Some l\<rparr>" using Cons.prems(1) by simp
  let ?st = "st\<lparr>ti_bTimeout := (ti_bTimeout st)(a := True)\<rparr>"
  have "mark_timeouts k (first xs None) ?st = Ok (?st\<lparr>ti_bTimeout := (\<lambda>b. b \<in> set xs \<or> ti_bTimeout ?st b)\<rparr>)"
    using Cons.prems(1) by (intro Cons.IH [where s = "Some a", OF _ n(2)]) simp
  moreover have "(\<lambda>b. b \<in> set xs \<or> ti_bTimeout ?st b) = (\<lambda>b. b \<in> set (a # xs) \<or> ti_bTimeout st b)" by (auto simp: fun_eq_iff)
  ultimately show ?case using n(1) a by simp
qed

text \<open>An item that the wheel has given back before its time.\<close>

definition early :: "nat \<Rightarrow> 'b coepoll_scheme \<Rightarrow> nat \<Rightarrow> bool" where
  "early now st a \<longleftrightarrow> ti_bTimeout st a \<and> now < ti_ullExpireTime st a"

definition due_time :: "nat \<Rightarrow> 'b coepoll_scheme \<Rightarrow> nat \<Rightarrow> nat" where
  "due_time now st a = min (ti_ullExpireTime st a) (now + tm_iItemSize st - 1)"

text \<open>A \<open>pfnProcess\<close> that leaves the context alone: it changes only the rest of the program, by \<open>f\<close>.\<close>

definition apart :: "(nat \<Rightarrow> 'b \<Rightarrow> 'b) \<Rightarrow> nat \<Rightarrow> 'b coepoll_scheme \<Rightarrow> 'b coepoll_scheme outcome" where
  "apart f a st = Ok (coepoll.more_update (f a) st)"

text \<open>What becomes of the state when the items \<open>xs\<close> at the head of the active list have been handled.\<close>

definition ran :: "nat \<Rightarrow> nat \<Rightarrow> (nat \<Rightarrow> 'b \<Rightarrow> 'b) \<Rightarrow> 'b coepoll_scheme \<Rightarrow> (nat \<Rightarrow> nat list) \<Rightarrow> nat list \<Rightarrow> 'b coepoll_scheme \<Rightarrow> (nat \<Rightarrow> nat list) \<Rightarrow> bool" where
  "ran act now f st A xs st' A' \<longleftrightarrow> wheel_ok st' A' \<and> A act = xs @ A' act
     \<and> coepoll.more st' = fold f (filter (\<lambda>a. \<not> early now st a) xs) (coepoll.more st)
     \<and> wheel_list st' A' = fold (\<lambda>a. insert_due (due_time now st a, a)) (filter (early now st) xs) (wheel_list st A)
     \<and> (\<forall>l. outside st l \<longrightarrow> l \<noteq> act \<longrightarrow> A' l = A l)
     \<and> tm_ullStart st' = tm_ullStart st \<and> tm_iItemSize st' = tm_iItemSize st \<and> ti_ullExpireTime st' = ti_ullExpireTime st
     \<and> ep_pstActiveList st' = ep_pstActiveList st \<and> outside st' = outside st
     \<and> (\<forall>a. a \<notin> set xs \<longrightarrow> ti_bTimeout st' a = ti_bTimeout st a)"

lemma ran_Nil: "wheel_ok st A \<Longrightarrow> ran act now f st A [] st A"
  by (simp add: ran_def)

lemma ran_trans:
  assumes 1: "ran act now f st A xs st1 A1" and 2: "ran act now f st1 A1 ys st2 A2" and "distinct (xs @ ys)"
  shows "ran act now f st A (xs @ ys) st2 A2"
proof -
  have "early now st1 a \<longleftrightarrow> early now st a" if "a \<in> set ys" for a using 1 that assms(3) by (auto simp: ran_def early_def)
  then have "filter (\<lambda>b. \<not> early now st1 b) ys = filter (\<lambda>b. \<not> early now st b) ys" "filter (early now st1) ys = filter (early now st) ys"
    by (auto intro: filter_cong)
  moreover have "due_time now st1 = due_time now st" using 1 by (simp add: ran_def due_time_def fun_eq_iff)
  ultimately show ?thesis using 1 2 by (simp add: ran_def)
qed

lemma run_active_step:
  assumes w: "wheel_ok st A" "outside st (ep_pstActiveList st)" "A (ep_pstActiveList st) = a # xs" "tm_ullStart st = now"
  shows "\<exists>st' A'. (\<forall>k. run_active (Suc k) (apart f) now st = run_active k (apart f) now st') \<and> ran (ep_pstActiveList st) now f st A [a] st' A'"
proof -
  let ?act = "ep_pstActiveList st"
  have A: "links st A" using w(1) by (simp add: wheel_ok_def)
  have head: "lh_head st ?act = Some a" "a \<notin> set xs" using linksD(1,3) [OF A, of ?act] w(3) by simp_all
  obtain st1 where st1: "PopHead ?act st = Ok st1" "links st1 (A(?act := xs))" "same_rest st st1"
    using PopHead_links [OF A, of ?act] w(3) by auto
  note r = rest_fields [OF st1(3)] slot_cong [OF st1(3)]
  have w1: "wheel_ok st1 (A(?act := xs))" using wheel_ok_cong [OF w(1) st1(3,2)] .
  have list1: "wheel_list st1 (A(?act := xs)) = wheel_list st A"
    unfolding r(14) wheel_list_def using outside_slot [OF _ w(2)] w(1) by (intro wheel_part_cong) (simp add: wheel_ok_def)
  show ?thesis
  proof (cases "early now st a")
    case True
    have a: "lh_node st1 a \<noteq> None" "\<And>l. a \<notin> set ((A(?act := xs)) l)"
    proof -
      show "lh_node st1 a \<noteq> None" using linksD(5) [OF A, of a ?act] w(3) r(10) by auto
      show "a \<notin> set ((A(?act := xs)) l)" for l using linksD(6) [OF A, of a ?act l] head(2) w(3) by (cases "l = ?act") auto
    qed
    have now: "tm_ullStart st1 \<le> now" "now \<le> ti_ullExpireTime st1 a" using w(4) r True by (simp_all add: early_def)
    obtain st2 A2 where st2: "AddTimeout a now st1 = Ok (0, st2)" "wheel_ok st2 A2" "same_rest st1 st2"
      "wheel_list st2 A2 = insert_due (due_time now st a, a) (wheel_list st A)" "\<forall>l. outside st l \<longrightarrow> A2 l = (A(?act := xs)) l"
      using AddTimeout_ok [OF w1 a now] unfolding r list1 [unfolded r] w(4) due_time_def by (elim exE conjE)
    let ?st = "st2\<lparr>ti_bTimeout := (ti_bTimeout st2)(a := False)\<rparr>"
    note r2 = rest_fields [OF st2(3)] slot_cong [OF st2(3)]
    have "run_active (Suc k) (apart f) now st = run_active k (apart f) now ?st" for k using head(1) st1(1) st2(1) True r by (simp add: early_def)
    moreover have "ran ?act now f st A [a] ?st A2" using st2(2,4,5) True r r2 w(2,3) by (simp add: ran_def)
    ultimately show ?thesis by blast
  next
    case False
    let ?st = "coepoll.more_update (f a) st1"
    have "run_active (Suc k) (apart f) now st = run_active k (apart f) now ?st" for k using head(1) st1(1) False r by (auto simp: early_def apart_def)
    moreover have "ran ?act now f st A [a] ?st (A(?act := xs))" using w1 False r list1 w(3) by (simp add: ran_def)
    ultimately show ?thesis by blast
  qed
qed

lemma run_active_ok:
  "wheel_ok st A \<Longrightarrow> outside st (ep_pstActiveList st) \<Longrightarrow> A (ep_pstActiveList st) = xs \<Longrightarrow> tm_ullStart st = now \<Longrightarrow> length xs < n \<Longrightarrow>
   \<exists>st' A'. run_active n (apart f) now st = Ok st' \<and> ran (ep_pstActiveList st) now f st A xs st' A'"
proof (induction xs arbitrary: n st A)
  case Nil
  then obtain k where n: "n = Suc k" by (cases n) auto
  have "lh_head st (ep_pstActiveList st) = None" using Nil.prems linksD(3) [of st A "ep_pstActiveList st"] by (simp add: wheel_ok_def)
  then show ?case using Nil.prems(1) n by (intro exI [of _ st] exI [of _ A]) (simp add: ran_Nil)
next
  case (Cons a xs)
  obtain k where n: "n = Suc k" "length xs < k" using Cons.prems(5) by (cases n) auto
  have d: "distinct ([a] @ xs)" using linksD(1) [of st A "ep_pstActiveList st"] Cons.prems(1,3) by (simp add: wheel_ok_def)
  obtain st1 A1 where 1: "\<forall>k. run_active (Suc k) (apart f) now st = run_active k (apart f) now st1" "ran (ep_pstActiveList st) now f st A [a] st1 A1"
    using run_active_step [OF Cons.prems(1-4)] by blast
  have act: "ep_pstActiveList st1 = ep_pstActiveList st" using 1(2) by (simp add: ran_def)
  obtain st' A' where 2: "run_active k (apart f) now st1 = Ok st'" "ran (ep_pstActiveList st) now f st1 A1 xs st' A'"
    using Cons.IH [OF _ _ _ _ n(2), of st1 A1] 1(2) Cons.prems(2-4) by (auto simp: ran_def [of _ _ _ st] act)
  show ?case using 1(1) 2(1) n(1) ran_trans [OF 1(2) 2(2) d] by auto
qed

text \<open>The loop takes what is due from the wheel, marks it and puts it behind what is active already.\<close>

lemma collect_ok:
  assumes w: "wheel_ok st A" "outside st (ep_pstActiveList st)" "outside st (ep_pstTimeoutList st)" "ep_pstActiveList st \<noteq> ep_pstTimeoutList st"
    and A: "A (ep_pstTimeoutList st) = []" and fuel: "card (dom (lh_node st)) < n"
    and now: "tm_ullStart st \<le> now" "now - tm_ullStart st + 1 < 2 ^ 31" "tm_llStartIdx st + 2 * int (tm_iItemSize st) < 2 ^ 63"
  defines "due \<equiv> map snd (takeWhile (\<lambda>e. fst e \<le> now) (wheel_list st A))"
  shows "\<exists>st' A'. eventloop_round n prepare process [] now st = run_active n process now st' \<and> wheel_ok st' A'
     \<and> A' (ep_pstActiveList st) = A (ep_pstActiveList st) @ due \<and> A' (ep_pstTimeoutList st) = []
     \<and> wheel_list st' A' = dropWhile (\<lambda>e. fst e \<le> now) (wheel_list st A) \<and> tm_ullStart st' = now
     \<and> same_items (st\<lparr>ti_bTimeout := (\<lambda>a. a \<in> set due \<or> ti_bTimeout st a)\<rparr>) st'"
proof -
  let ?act = "ep_pstActiveList st" and ?tmo = "ep_pstTimeoutList st"
  have "lh_head st ?tmo = None" "lh_tail st ?tmo = None" using w(1) A linksD(3,4) [of st A ?tmo] by (simp_all add: wheel_ok_def)
  then have st0: "set_tail ?tmo None (set_head ?tmo None st) = st" by (simp add: set_head_def set_tail_def fun_upd_idem)
  obtain st2 A2 where st2: "TakeAllTimeout n now ?tmo st = Ok st2" "wheel_ok st2 A2" "same_items st st2" "tm_ullStart st2 = now" "A2 ?tmo = due"
      "wheel_list st2 A2 = dropWhile (\<lambda>e. fst e \<le> now) (wheel_list st A)" "A2 ?act = A ?act"
    using TakeAllTimeout_ok [OF w(1,3) fuel now] A w(2,4) unfolding due_def by auto
  have l2: "links st2 A2" "finite (dom (lh_node st2))" using st2(2) by (simp_all add: wheel_ok_def)
  have fuel2: "length (A2 l) < n" for l using length_le_nodes [OF l2, of l] fuel st2(3) by (simp add: same_items_def)
  define st3 where "st3 = st2\<lparr>ti_bTimeout := (\<lambda>a. a \<in> set due \<or> ti_bTimeout st2 a)\<rparr>"
  have st3: "mark_timeouts n (lh_head st2 ?tmo) st2 = Ok st3"
    using mark_timeouts_ok [OF linksD(2) [OF l2(1)] fuel2, of ?tmo] linksD(3) [OF l2(1), of ?tmo] st2(5) by (simp add: st3_def)
  have l3: "links st3 A2" "wheel_ok st3 A2" using l2(1) st2(2) by (simp_all add: st3_def)
  obtain st4 where st4: "Join n ?act ?tmo st3 = Ok st4" "links st4 (A2(?act := A ?act @ due, ?tmo := []))" "same_rest st3 st4"
    using Join_links [OF l3(1) w(4) fuel2] st2(5,7) by auto
  note r = rest_fields [OF st4(3)] slot_cong [OF st4(3)]
  have "outside st3 ?act" "outside st3 ?tmo" using w(2,3) st2(3) by (simp_all add: outside_def st3_def same_items_def)
  then have "wheel_list st4 (A2(?act := A ?act @ due, ?tmo := [])) = wheel_list st3 A2"
    unfolding r(14) wheel_list_def using outside_slot [of st3 ?act] outside_slot [of st3 ?tmo] l3(2) by (intro wheel_part_cong) (simp add: wheel_ok_def)
  moreover have "eventloop_round n prepare process [] now st = run_active n process now st4"
    using st0 st2(1,3) st3 st4(1) by (simp add: eventloop_round_def Let_def same_items_def st3_def)
  ultimately show ?thesis
    using wheel_ok_cong [OF l3(2) st4(3,2)] st2(3,4,6) r w(4)
    by (intro exI [of _ st4] exI [of _ "A2(?act := A ?act @ due, ?tmo := [])"]) (simp add: st3_def same_items_def)
qed

text \<open>No item waits in the wheel for longer than it wants to.\<close>

definition in_time :: "'b coepoll_scheme \<Rightarrow> (nat \<Rightarrow> nat list) \<Rightarrow> bool" where
  "in_time st A \<longleftrightarrow> (\<forall>e\<in>set (wheel_list st A). fst e \<le> ti_ullExpireTime st (snd e))"

definition waiting :: "'b coepoll_scheme \<Rightarrow> (nat \<Rightarrow> nat list) \<Rightarrow> nat set" where
  "waiting st A = snd ` set (wheel_list st A)"

lemma set_insert_due [simp]: "set (insert_due e xs) = insert e (set xs)"
proof -
  have "set xs = set (takeWhile (\<lambda>x. fst x \<le> fst e) xs) \<union> set (dropWhile (\<lambda>x. fst x \<le> fst e) xs)"
    by (metis set_append takeWhile_dropWhile_id)
  then show ?thesis by (auto simp: insert_due_def)
qed

lemma set_insert_dues: "set (fold (\<lambda>a. insert_due (g a, a)) xs ys) = (\<lambda>a. (g a, a)) ` set xs \<union> set ys"
  by (induction xs arbitrary: ys) auto

lemma wheel_links: "wheel_ok st A \<Longrightarrow> a \<in> waiting st A \<Longrightarrow> \<exists>l. \<not> outside st l \<and> a \<in> set (A l)"
  using outside_slot [of st] by (fastforce simp: waiting_def wheel_list_def wheel_part_def wheel_ok_def)

lemma wheel_sorted: "sorted (map fst (wheel_part st A [0..<k]))"
proof (induction k)
  case (Suc k)
  have "fst e \<le> tm_ullStart st + k" if "e \<in> set (wheel_part st A [0..<k])" for e using wheel_part_times [OF that] by auto
  then show ?case using Suc by (auto simp: sorted_append comp_def map_replicate_const)
qed simp

lemma due_split:
  fixes t :: nat
  assumes "sorted (map fst xs)"
  shows "set (takeWhile (\<lambda>e. fst e \<le> t) xs) = {e \<in> set xs. fst e \<le> t}" "set (dropWhile (\<lambda>e. fst e \<le> t) xs) = {e \<in> set xs. t < fst e}"
  using assms by (induction xs) force+

lemma fold_filter_none: "(\<forall>a\<in>set xs. \<not> P a) \<Longrightarrow> filter (\<lambda>a. \<not> P a) xs = xs \<and> filter P xs = []"
  by (auto simp: filter_empty_conv filter_id_conv)

lemma event_round_ok:
  assumes w: "wheel_ok st A" "outside st (ep_pstActiveList st)" "outside st (ep_pstTimeoutList st)" "ep_pstActiveList st \<noteq> ep_pstTimeoutList st"
    and A: "A (ep_pstTimeoutList st) = []" "\<forall>a\<in>set (A (ep_pstActiveList st)). \<not> ti_bTimeout st a" and fuel: "card (dom (lh_node st)) < n"
    and now: "tm_ullStart st \<le> now" "now - tm_ullStart st + 1 < 2 ^ 31" "tm_llStartIdx st + 2 * int (tm_iItemSize st) < 2 ^ 63"
  defines "due \<equiv> map snd (takeWhile (\<lambda>e. fst e \<le> now) (wheel_list st A))"
  shows "\<exists>st' A'. eventloop_round n prepare (apart f) [] now st = Ok st' \<and> wheel_ok st' A' \<and> A' (ep_pstActiveList st) = []
     \<and> coepoll.more st' = fold f (A (ep_pstActiveList st) @ filter (\<lambda>a. ti_ullExpireTime st a \<le> now) due) (coepoll.more st)
     \<and> wheel_list st' A' = fold (\<lambda>a. insert_due (due_time now st a, a)) (filter (\<lambda>a. now < ti_ullExpireTime st a) due)
         (dropWhile (\<lambda>e. fst e \<le> now) (wheel_list st A))
     \<and> distinct (A (ep_pstActiveList st) @ due) \<and> tm_ullStart st' = now \<and> ti_ullExpireTime st' = ti_ullExpireTime st"
proof -
  let ?act = "ep_pstActiveList st" and ?P = "\<lambda>e. fst e \<le> now" and ?ex = "ti_ullExpireTime st"
  obtain st1 A1 where 1: "eventloop_round n prepare (apart f) [] now st = run_active n (apart f) now st1" "wheel_ok st1 A1" "A1 ?act = A ?act @ due"
      "wheel_list st1 A1 = dropWhile ?P (wheel_list st A)" "tm_ullStart st1 = now"
      and it: "same_items (st\<lparr>ti_bTimeout := (\<lambda>a. a \<in> set due \<or> ti_bTimeout st a)\<rparr>) st1"
    using collect_ok [OF w A(1) fuel now, of prepare "apart f"] unfolding due_def by blast
  have act: "outside st1 ?act" "ep_pstActiveList st1 = ?act" using it w(2) by (simp_all add: same_items_def outside_def)
  have l1: "links st1 A1" "finite (dom (lh_node st1))" using 1(2) by (simp_all add: wheel_ok_def)
  have d: "distinct (A ?act @ due)" using linksD(1) [OF l1(1), of ?act] 1(3) by simp
  have fuel1: "length (A ?act @ due) < n" using length_le_nodes [OF l1, of ?act] 1(3) fuel it by (simp add: same_items_def)
  obtain st' A' where 2: "run_active n (apart f) now st1 = Ok st'" "ran ?act now f st1 A1 (A ?act @ due) st' A'"
    using run_active_ok [OF 1(2) _ _ 1(5) fuel1, of f] act 1(3) by auto
  have early: "early now st1 a \<longleftrightarrow> a \<in> set due \<and> now < ?ex a" if "a \<in> set (A ?act @ due)" for a
    using A(2) that it by (auto simp: early_def same_items_def)
  then have "filter (\<lambda>a. \<not> early now st1 a) due = filter (\<lambda>a. ?ex a \<le> now) due" "filter (early now st1) due = filter (\<lambda>a. now < ?ex a) due"
    by (auto intro!: filter_cong)
  moreover have "\<forall>a\<in>set (A ?act). \<not> early now st1 a" using early d by auto
  ultimately have fl: "filter (\<lambda>a. \<not> early now st1 a) (A ?act @ due) = A ?act @ filter (\<lambda>a. ?ex a \<le> now) due"
    "filter (early now st1) (A ?act @ due) = filter (\<lambda>a. now < ?ex a) due" using fold_filter_none [of "A ?act" "early now st1"] by simp_all
  have "due_time now st1 = due_time now st" "coepoll.more st1 = coepoll.more st" "ti_ullExpireTime st1 = ?ex"
    using it by (simp_all add: due_time_def same_items_def fun_eq_iff)
  then show ?thesis using 1 2 d unfolding ran_def fl by (intro exI [of _ st'] exI [of _ A']) simp
qed


section \<open>The wheel as a sorted list\<close>

text \<open>An item is given its time and added, as \<open>co_poll_inner\<close> and \<open>co_cond_timedwait\<close> do it, or a turn of the wheel takes
into the list \<open>r\<close> what is due.\<close>

datatype wheel_op = W_Add nat nat nat | W_Take nat

primrec run_wop :: "nat \<Rightarrow> nat \<Rightarrow> wheel_op \<Rightarrow> 'b coepoll_scheme \<Rightarrow> (nat \<times> 'b coepoll_scheme) outcome" where
  "run_wop n r (W_Add a e now) st = AddTimeout a now (st\<lparr>ti_ullExpireTime := (ti_ullExpireTime st)(a := e)\<rparr>)"
| "run_wop n r (W_Take now) st = obind (TakeAllTimeout n now r st) (\<lambda>st'. Ok (0, st'))"

primrec run_wops :: "nat \<Rightarrow> nat \<Rightarrow> wheel_op list \<Rightarrow> 'b coepoll_scheme \<Rightarrow> (nat list \<times> 'b coepoll_scheme) outcome" where
  "run_wops n r [] st = Ok ([], st)"
| "run_wops n r (p # ps) st = obind (run_wop n r p st) (\<lambda>(ret, st1). obind (run_wops n r ps st1) (\<lambda>(rets, st2). Ok (ret # rets, st2)))"

text \<open>The wheel as it is seen from outside: the time of the last turn, the items in the order in which they are due, and what
has been taken. A wheel of \<open>k\<close> slots looks at most \<open>k - 1\<close> ms ahead.\<close>

record wheel_view =
  wv_start :: nat
  wv_items :: "(nat \<times> nat) list"
  wv_taken :: "nat list"

primrec v_wop :: "nat \<Rightarrow> wheel_op \<Rightarrow> wheel_view \<Rightarrow> nat \<times> wheel_view" where
  "v_wop k (W_Add a e now) v = (if now < wv_start v then (390, v) else if e < now then (397, v)
     else if a \<in> snd ` set (wv_items v) \<union> set (wv_taken v) then (0, v)
     else (0, v\<lparr>wv_items := insert_due (min e (wv_start v + k - 1), a) (wv_items v)\<rparr>))"
| "v_wop k (W_Take now) v = (if now < wv_start v then (0, v)
     else (0, \<lparr>wv_start = now, wv_items = dropWhile (\<lambda>e. fst e \<le> now) (wv_items v),
               wv_taken = wv_taken v @ map snd (takeWhile (\<lambda>e. fst e \<le> now) (wv_items v))\<rparr>))"

primrec v_wops :: "nat \<Rightarrow> wheel_op list \<Rightarrow> wheel_view \<Rightarrow> nat list \<times> wheel_view" where
  "v_wops k [] v = ([], v)"
| "v_wops k (p # ps) v = (let (ret, v1) = v_wop k p v; (rets, v2) = v_wops k ps v1 in (ret # rets, v2))"

definition wheel_view :: "nat \<Rightarrow> 'b coepoll_scheme \<Rightarrow> (nat \<Rightarrow> nat list) \<Rightarrow> wheel_view" where
  "wheel_view r st A = \<lparr>wv_start = tm_ullStart st, wv_items = wheel_list st A, wv_taken = A r\<rparr>"

text \<open>The wheel with nothing but the list \<open>r\<close> beside it.\<close>

definition wheel_alone :: "nat \<Rightarrow> 'b coepoll_scheme \<Rightarrow> (nat \<Rightarrow> nat list) \<Rightarrow> bool" where
  "wheel_alone r st A \<longleftrightarrow> wheel_ok st A \<and> outside st r \<and> (\<forall>l. outside st l \<longrightarrow> l \<noteq> r \<longrightarrow> A l = [])"

primrec wop_ok :: "nat set \<Rightarrow> nat \<Rightarrow> wheel_op \<Rightarrow> bool" where
  "wop_ok D t (W_Add a e now) \<longleftrightarrow> a \<in> D"
| "wop_ok D t (W_Take now) \<longleftrightarrow> now < t + 2 ^ 31 - 1"

lemma slot_surj:
  assumes "0 < tm_iItemSize st" "\<not> outside st l"
  shows "\<exists>d<tm_iItemSize st. slot st d = l"
proof -
  let ?n = "tm_iItemSize st" and ?R = "{tm_pItems st..<tm_pItems st + tm_iItemSize st}"
  have "inj_on (slot st) {..<?n}" using wheel_slot_inj by (auto intro: inj_onI)
  moreover have "slot st ` {..<?n} \<subseteq> ?R" using slot_range [OF assms(1)] by auto
  ultimately have "slot st ` {..<?n} = ?R" by (intro card_subset_eq) (simp_all add: card_image)
  moreover have "l \<in> ?R" using assms(2) by (simp add: outside_def not_less not_le)
  ultimately have "l \<in> slot st ` {..<?n}" by (simp only:)
  then show ?thesis by (elim imageE) (simp only: lessThan_iff, rule exI, simp)
qed

lemma slot_waiting:
  assumes "wheel_ok st A" "\<not> outside st l" "a \<in> set (A l)"
  shows "a \<in> waiting st A"
proof -
  obtain d where "d < tm_iItemSize st" "slot st d = l" using slot_surj [of st l] assms(1,2) by (auto simp: wheel_ok_def)
  then show ?thesis using assms(3) by (force simp: waiting_def wheel_list_def wheel_part_def)
qed

lemma alone_linked:
  assumes "wheel_alone r st A"
  shows "a \<in> waiting st A \<union> set (A r) \<longleftrightarrow> (\<exists>l. a \<in> set (A l))"
proof
  have w: "wheel_ok st A" "0 < tm_iItemSize st" "\<And>l. outside st l \<Longrightarrow> l \<noteq> r \<Longrightarrow> A l = []"
    using assms by (simp_all add: wheel_alone_def wheel_ok_def)
  show "\<exists>l. a \<in> set (A l)" if "a \<in> waiting st A \<union> set (A r)" using that wheel_links [OF w(1)] by blast
  assume "\<exists>l. a \<in> set (A l)"
  then obtain l where l: "a \<in> set (A l)" by blast
  then show "a \<in> waiting st A \<union> set (A r)" using w(3) [of l] slot_waiting [OF w(1) _ l] by (cases "outside st l"; cases "l = r") auto
qed

lemma AddTimeout_rejects:
  assumes "0 < tm_ullStart st"
  shows "now < tm_ullStart st \<Longrightarrow> AddTimeout a now st = Ok (390, st)"
    "tm_ullStart st \<le> now \<Longrightarrow> ti_ullExpireTime st a < now \<Longrightarrow> AddTimeout a now st = Ok (397, st)"
    "tm_ullStart st \<le> now \<Longrightarrow> now \<le> ti_ullExpireTime st a \<Longrightarrow> links st A \<Longrightarrow> a \<in> set (A l) \<Longrightarrow> AddTimeout a now st = Ok (0, st)"
  using assms by (simp_all add: AddTimeout_def start_wheel_def AddTail_linked Let_def)

definition wop_simulated :: "nat \<Rightarrow> nat \<Rightarrow> wheel_op \<Rightarrow> 'b coepoll_scheme \<Rightarrow> (nat \<Rightarrow> nat list) \<Rightarrow> bool" where
  "wop_simulated n r p st A \<longleftrightarrow> (\<exists>ret st' A'. run_wop n r p st = Ok (ret, st') \<and> wheel_alone r st' A' \<and> v_wop (tm_iItemSize st) p (wheel_view r st A) = (ret, wheel_view r st' A')
    \<and> dom (lh_node st') = dom (lh_node st) \<and> tm_iItemSize st' = tm_iItemSize st \<and> tm_ullStart st \<le> tm_ullStart st'
    \<and> tm_llStartIdx st' < tm_llStartIdx st + int (tm_iItemSize st))"

lemma W_Add_simulated:
  assumes w: "wheel_alone r st A" and ok: "a \<in> dom (lh_node st)"
  shows "wop_simulated n r (W_Add a e now) st A"
proof -
  have st: "wheel_ok st A" "links st A" "0 < tm_ullStart st" "0 < tm_iItemSize st" "outside st r" using w by (simp_all add: wheel_alone_def wheel_ok_def)
  let ?st = "st\<lparr>ti_ullExpireTime := (ti_ullExpireTime st)(a := e)\<rparr>"
  have w': "wheel_alone r ?st A" "wheel_view r ?st A = wheel_view r st A" "0 < tm_ullStart ?st" "links ?st A" "wheel_ok ?st A"
    using w st by (simp_all add: wheel_alone_def wheel_view_def)
  note rej = AddTimeout_rejects [OF w'(3)]
  consider "now < tm_ullStart st" | "tm_ullStart st \<le> now" "e < now" | l where "tm_ullStart st \<le> now" "now \<le> e" "a \<in> set (A l)"
    | "tm_ullStart st \<le> now" "now \<le> e" "\<And>l. a \<notin> set (A l)" by fastforce
  then show ?thesis
  proof cases
    case 1
    then show ?thesis unfolding wop_simulated_def using w' st rej(1) [of now a] by (intro exI [of _ 390] exI [of _ ?st] exI [of _ A]) (simp add: wheel_view_def)
  next
    case 2
    then show ?thesis unfolding wop_simulated_def using w' st rej(2) [of now a] by (intro exI [of _ 397] exI [of _ ?st] exI [of _ A]) (simp add: wheel_view_def)
  next
    case 3
    have "a \<in> snd ` set (wheel_list st A) \<union> set (A r)" using alone_linked [OF w, of a] 3(3) unfolding waiting_def by blast
    then show ?thesis unfolding wop_simulated_def using 3 w' st rej(3) [of now a A l] by (intro exI [of _ 0] exI [of _ ?st] exI [of _ A]) (simp add: wheel_view_def)
  next
    case 4
    have a: "a \<notin> snd ` set (wheel_list st A) \<union> set (A r)" using alone_linked [OF w, of a] 4(3) unfolding waiting_def by blast
    have nd: "lh_node ?st a \<noteq> None" using ok by auto
    obtain st' A' where st': "AddTimeout a now ?st = Ok (0, st')" "wheel_ok st' A'" "same_rest ?st st'"
        "wheel_list st' A' = insert_due (min e (tm_ullStart st + tm_iItemSize st - 1), a) (wheel_list st A)" "\<forall>l. outside st l \<longrightarrow> A' l = A l"
      using AddTimeout_ok [OF w'(5) nd 4(3), of now] 4(1,2) by auto
    note r = rest_fields [OF st'(3)] slot_cong [OF st'(3)]
    have "wheel_alone r st' A'" using st'(2,5) w r by (simp add: wheel_alone_def)
    then show ?thesis unfolding wop_simulated_def using st' a 4(1,2) r st(4,5) by (intro exI [of _ 0] exI [of _ st'] exI [of _ A']) (simp add: wheel_view_def)
  qed
qed

lemma W_Take_simulated:
  assumes w: "wheel_alone r st A" and fuel: "card (dom (lh_node st)) < n" and ok: "now < tm_ullStart st + 2 ^ 31 - 1"
    and idx: "tm_llStartIdx st + 2 * int (tm_iItemSize st) < 2 ^ 63"
  shows "wop_simulated n r (W_Take now) st A"
proof -
  have st: "wheel_ok st A" "links st A" "0 < tm_ullStart st" "0 < tm_iItemSize st" "outside st r" using w by (simp_all add: wheel_alone_def wheel_ok_def)
  show ?thesis
  proof (cases "now < tm_ullStart st")
    case True
    then show ?thesis unfolding wop_simulated_def using w st by (intro exI [of _ 0] exI [of _ st] exI [of _ A]) (simp add: TakeAllTimeout_def start_wheel_def wheel_view_def)
  next
    case False
    have now: "tm_ullStart st \<le> now" "now - tm_ullStart st + 1 < 2 ^ 31" using False ok by simp_all
    obtain st' A' where st': "TakeAllTimeout n now r st = Ok st'" "wheel_ok st' A'" "same_items st st'" "tm_ullStart st' = now"
        "A' r = A r @ map snd (takeWhile (\<lambda>e. fst e \<le> now) (wheel_list st A))" "wheel_list st' A' = dropWhile (\<lambda>e. fst e \<le> now) (wheel_list st A)"
        "\<forall>l. outside st l \<longrightarrow> l \<noteq> r \<longrightarrow> A' l = A l" "tm_llStartIdx st' < tm_llStartIdx st + int (tm_iItemSize st)"
      using TakeAllTimeout_ok [OF st(1,5) fuel now idx] by blast
    have "outside st' = outside st" using st'(3) by (simp add: same_items_def outside_def fun_eq_iff)
    then have "wheel_alone r st' A'" using st'(2,7) w by (simp add: wheel_alone_def)
    then show ?thesis unfolding wop_simulated_def using st' now(1) by (intro exI [of _ 0] exI [of _ st'] exI [of _ A']) (simp add: wheel_view_def same_items_def)
  qed
qed

text \<open>C8: the timing wheel is a list sorted by the time at which an item is due. For any sequence of additions and turns
less than 2^31 ms after the first, on items that have not been freed, the wheel does what the list does: an addition before the last
turn or of an item whose time has passed returns its error and changes nothing, an item that waits already stays where it is,
any other is inserted behind what is due no later, at its time or at the end of the wheel; and a turn takes
exactly the items that are due, in this order.\<close>

theorem timing_wheel_is_sorted_list:
  assumes "wheel_alone r st A" "card (dom (lh_node st)) < n" "list_all (wop_ok (dom (lh_node st)) (tm_ullStart st)) ps"
    "tm_llStartIdx st + int (length ps + 2) * int (tm_iItemSize st) < 2 ^ 63"
  shows "\<exists>rets st' A'. run_wops n r ps st = Ok (rets, st') \<and> wheel_alone r st' A'
    \<and> v_wops (tm_iItemSize st) ps (wheel_view r st A) = (rets, wheel_view r st' A')"
  using assms
proof (induction ps arbitrary: st A)
  case (Cons p ps)
  have sz: "int (length (p # ps) + 2) * int (tm_iItemSize st) = int (length ps + 2) * int (tm_iItemSize st) + int (tm_iItemSize st)"
    "2 * int (tm_iItemSize st) \<le> int (length ps + 2) * int (tm_iItemSize st)" by (simp_all add: distrib_right)
  have idx: "tm_llStartIdx st + 2 * int (tm_iItemSize st) < 2 ^ 63" using Cons.prems(4) sz by linarith
  have sim: "wop_simulated n r p st A"
    using Cons.prems(3) by (cases p) (auto intro!: W_Add_simulated W_Take_simulated Cons.prems(1,2) idx)
  obtain ret st1 A1 where 1: "run_wop n r p st = Ok (ret, st1)" "wheel_alone r st1 A1"
      "v_wop (tm_iItemSize st) p (wheel_view r st A) = (ret, wheel_view r st1 A1)" "dom (lh_node st1) = dom (lh_node st)" "tm_iItemSize st1 = tm_iItemSize st"
      "tm_ullStart st \<le> tm_ullStart st1" "tm_llStartIdx st1 < tm_llStartIdx st + int (tm_iItemSize st)"
    using sim unfolding wop_simulated_def by blast
  have "list_all (wop_ok (dom (lh_node st1)) (tm_ullStart st1)) ps"
  proof (rule list.pred_mono_strong)
    show "list_all (wop_ok (dom (lh_node st)) (tm_ullStart st)) ps" using Cons.prems(3) by simp
    show "wop_ok (dom (lh_node st1)) (tm_ullStart st1) q" if "wop_ok (dom (lh_node st)) (tm_ullStart st) q" for q
      using that 1(4,6) by (cases q) auto
  qed
  moreover have "tm_llStartIdx st1 + int (length ps + 2) * int (tm_iItemSize st1) < 2 ^ 63"
    using Cons.prems(4) sz(1) 1(7) unfolding 1(5) by linarith
  ultimately obtain rets st' A' where "run_wops n r ps st1 = Ok (rets, st')" "wheel_alone r st' A'"
      "v_wops (tm_iItemSize st) ps (wheel_view r st1 A1) = (rets, wheel_view r st' A')"
    using Cons.IH [OF 1(2)] Cons.prems(2) unfolding 1(4,5) by blast
  then show ?case using 1(1,3) by auto
qed auto

section \<open>Waiting and waking\<close>

text \<open>The timeout of the first waiter leaves the list that it is in and becomes active.\<close>

lemma signal_step:
  assumes A: "links st A" and p: "A si = p # ps" and t: "ci_timeout p \<in> dom (lh_node st)"
  shows "\<exists>st' st1 st2. co_cond_pop si st = Ok (Some p, st1) \<and> RemoveFromLink (ci_timeout p) st1 = Ok st2
     \<and> AddTail (ep_pstActiveList st2) (ci_timeout p) st2 = Ok st'
     \<and> links st' (moved (ep_pstActiveList st) (ci_timeout p) (A(si := ps))) \<and> same_rest st st'"
proof -
  let ?t = "ci_timeout p" and ?act = "ep_pstActiveList st"
  obtain st1 where 1: "PopHead si st = Ok st1" "links st1 (A(si := ps))" "same_rest st st1" using PopHead_links [OF A, of si] p by auto
  have "?t \<in> dom (lh_node st1)" using t rest_fields(10) [OF 1(3)] by simp
  from nl.move [OF 1(2) this, of ?act] obtain st2 st'
    where 2: "RemoveFromLink ?t st1 = Ok st2" "same_rest st1 st2" "AddTail ?act ?t st2 = Ok st'" "same_rest st1 st'" "links st' (moved ?act ?t (A(si := ps)))" by blast
  have "ep_pstActiveList st2 = ?act" using rest_fields(6) [OF 1(3)] rest_fields(6) [OF 2(2)] by simp
  moreover have "co_cond_pop si st = Ok (Some p, st1)" using linksD(3) [OF A, of si] p 1(1) by (simp add: co_cond_pop_def)
  ultimately show ?thesis using 2 same_rest_trans [OF 1(3) 2(4)] by auto
qed

lemma pop_empty: "links st A \<Longrightarrow> A si = [] \<Longrightarrow> co_cond_pop si st = Ok (None, st)"
  using linksD(3) [of st A si] by (simp add: co_cond_pop_def)

lemma moved_other: "si \<noteq> act \<Longrightarrow> ci \<notin> set (A si) \<Longrightarrow> moved act ci A si = A si"
  by (simp add: moved_def remove1_idem)

lemma broadcast_links:
  "links st A \<Longrightarrow> finite (dom (lh_node st)) \<Longrightarrow> A si = ps \<Longrightarrow> ci_timeout ` set ps \<subseteq> dom (lh_node st) - set ps \<Longrightarrow> si \<noteq> ep_pstActiveList st \<Longrightarrow> length ps < n \<Longrightarrow>
   \<exists>st'. co_cond_broadcast n ci_timeout si st = Ok st' \<and> same_rest st st'
     \<and> links st' (fold (\<lambda>p. moved (ep_pstActiveList st) (ci_timeout p)) ps (A(si := [])))"
proof (induction ps arbitrary: st A n)
  case Nil
  then show ?case by (cases n) (auto simp: pop_empty same_rest_def fun_upd_idem)
next
  case (Cons p ps)
  let ?act = "ep_pstActiveList st" and ?t = "ci_timeout p"
  obtain k where n: "n = Suc k" "length ps < k" using Cons.prems(6) by (cases n) auto
  obtain st' st1 st2 where 1: "co_cond_pop si st = Ok (Some p, st1)" "RemoveFromLink ?t st1 = Ok st2" "AddTail (ep_pstActiveList st2) ?t st2 = Ok st'"
      "links st' (moved ?act ?t (A(si := ps)))" "same_rest st st'"
    using signal_step [OF Cons.prems(1,3), of ci_timeout] Cons.prems(4) by auto
  note r = rest_fields(6,10) [OF 1(5)]
  have si: "moved ?act ?t (A(si := ps)) si = ps" using Cons.prems(4,5) by (simp add: moved_other)
  have eq: "(moved ?act ?t (A(si := ps)))(si := []) = moved ?act ?t (A(si := []))"
    using Cons.prems(5) by (auto simp: moved_def fun_eq_iff)
  have pre: "finite (dom (lh_node st'))" "ci_timeout ` set ps \<subseteq> dom (lh_node st') - set ps" "si \<noteq> ep_pstActiveList st'"
    using Cons.prems(2,4,5) r by auto
  obtain st'' where "co_cond_broadcast k ci_timeout si st' = Ok st''" "same_rest st' st''"
      "links st'' (fold (\<lambda>p. moved ?act (ci_timeout p)) ps (moved ?act ?t (A(si := []))))"
    using Cons.IH [OF 1(4) pre(1) si pre(2,3) n(2)] unfolding r eq by blast
  then show ?case using n(1) 1(1-3) same_rest_trans [OF 1(5)] by (intro exI [of _ st'']) (simp del: fun_upd_apply)
qed

lemma fold_moved:
  assumes "distinct (map ci ps)" "\<And>l. distinct (A l)"
  shows "fold (\<lambda>p. moved act (ci p)) ps A l = filter (\<lambda>a. a \<notin> ci ` set ps) (A l) @ (if l = act then map ci ps else [])"
  using assms
proof (induction ps arbitrary: A)
  case (Cons p ps)
  have "distinct (moved act (ci p) A m)" for m using Cons.prems(2) by (auto simp: moved_def distinct_remove1)
  from Cons.IH [OF _ this] show ?case using Cons.prems by (auto simp: moved_def distinct_remove1_removeAll removeAll_filter_not_eq image_iff intro: filter_cong)
qed simp

text \<open>C23: condition variables wake in the order of waiting. A signal moves the timeout of the first waiter, from wherever it
waits, to the end of the active list, and does nothing when nobody waits; a broadcast ends and does so for all the waiters in
their order, so that no timeout of theirs is left in the wheel.\<close>

theorem cond_wakes_in_order:
  assumes A: "links st A" "finite (dom (lh_node st))" "si \<noteq> ep_pstActiveList st"
    and ci: "distinct (map ci_timeout (A si))" "ci_timeout ` set (A si) \<subseteq> dom (lh_node st) - set (A si)" and n: "length (A si) < n"
  shows "(case A si of [] \<Rightarrow> co_cond_signal ci_timeout si st = Ok st
     | p # ps \<Rightarrow> \<exists>st' A'. co_cond_signal ci_timeout si st = Ok st' \<and> links st' A' \<and> same_rest st st' \<and> A' si = ps
         \<and> A' (ep_pstActiveList st) = remove1 (ci_timeout p) (A (ep_pstActiveList st)) @ [ci_timeout p]
         \<and> (\<forall>l. l \<noteq> si \<longrightarrow> l \<noteq> ep_pstActiveList st \<longrightarrow> A' l = remove1 (ci_timeout p) (A l)))
   \<and> (\<exists>st' A'. co_cond_broadcast n ci_timeout si st = Ok st' \<and> links st' A' \<and> same_rest st st' \<and> A' si = []
     \<and> A' (ep_pstActiveList st) = filter (\<lambda>a. a \<notin> ci_timeout ` set (A si)) (A (ep_pstActiveList st)) @ map ci_timeout (A si)
     \<and> (\<forall>l. l \<noteq> si \<longrightarrow> l \<noteq> ep_pstActiveList st \<longrightarrow> A' l = filter (\<lambda>a. a \<notin> ci_timeout ` set (A si)) (A l)))"
  (is "?signal \<and> ?broadcast")
proof
  show ?signal
  proof (cases "A si")
    case Nil
    then show ?thesis using pop_empty [OF A(1), of si] by (simp add: co_cond_signal_def)
  next
    case (Cons p ps)
    have "ci_timeout p \<in> dom (lh_node st)" using ci(2) Cons by simp
    from signal_step [OF A(1) Cons, of ci_timeout] this obtain st' where "co_cond_signal ci_timeout si st = Ok st'" "same_rest st st'"
      "links st' (moved (ep_pstActiveList st) (ci_timeout p) (A(si := ps)))" by (auto simp: co_cond_signal_def)
    then show ?thesis using Cons A(3) ci(2)
      by (simp del: fun_upd_apply, intro exI [of _ "moved (ep_pstActiveList st) (ci_timeout p) (A(si := ps))"]) (simp add: moved_def remove1_idem)
  qed
  have d: "distinct ((A(si := [])) l)" for l using linksD(1) [OF A(1)] by simp
  show ?broadcast
    using broadcast_links [OF A(1,2) refl ci(2) A(3) n] A(3)
    by (elim exE conjE, intro exI conjI) (assumption | simp add: fold_moved [OF ci(1), of "A(si := [])", OF d])+
qed

text \<open>Waiting: an item is appended to the condition's list, and its timeout goes into the wheel.\<close>

lemma links_alloc:
  assumes "links st A" "lh_node st psi = None" "lh_node st (ci_timeout psi) = None"
  shows "links (alloc_item ci_timeout psi st) A" "psi \<notin> set (A l)" "ci_timeout psi \<notin> set (A l)"
proof -
  show free: "psi \<notin> set (A l)" "ci_timeout psi \<notin> set (A l)" for l using linksD(5) [OF assms(1)] assms(2,3) by fastforce+
  then have "is_link (alloc_item ci_timeout psi st) l (A l)" for l
    using assms(1) by (simp add: links_def is_link_def alloc_item_def)
  then show "links (alloc_item ci_timeout psi st) A"
    using assms(1) free by (auto simp: links_def alloc_item_def free_node_def split: if_splits)
qed

lemma alloc_fields [simp]:
  "wheel_list (alloc_item ci_timeout psi st) A = wheel_list st A" "outside (alloc_item ci_timeout psi st) = outside st"
  "tm_ullStart (alloc_item ci_timeout psi st) = tm_ullStart st" "tm_iItemSize (alloc_item ci_timeout psi st) = tm_iItemSize st"
  "dom (lh_node (alloc_item ci_timeout psi st)) = insert psi (insert (ci_timeout psi) (dom (lh_node st)))"
  by (auto simp: alloc_item_def wheel_list_def wheel_part_def slot_def outside_def fun_eq_iff)

lemma wheel_alloc:
  "wheel_ok st A \<Longrightarrow> lh_node st psi = None \<Longrightarrow> lh_node st (ci_timeout psi) = None \<Longrightarrow> wheel_ok (alloc_item ci_timeout psi st) A"
  using links_alloc(1) [of st A psi ci_timeout] by (simp add: wheel_ok_def) (simp add: alloc_item_def)

lemma timedwait_enter_ok:
  assumes w: "wheel_ok st A" "lh_node st psi = None" "lh_node st (ci_timeout psi) = None" "ci_timeout psi \<noteq> psi" "outside st lnk"
    and now: "tm_ullStart st \<le> now"
  shows "\<exists>st' A'. timedwait_enter ci_timeout lnk ms now psi st = Ok (0, st') \<and> wheel_ok st' A' \<and> A' lnk = A lnk @ [psi]
     \<and> (\<forall>l. outside st l \<longrightarrow> l \<noteq> lnk \<longrightarrow> A' l = A l)
     \<and> wheel_list st' A' = (if 0 < ms then insert_due (min (now + nat ms) (tm_ullStart st + tm_iItemSize st - 1), ci_timeout psi) (wheel_list st A)
                            else wheel_list st A)"
proof -
  let ?t = "ci_timeout psi" and ?st = "alloc_item ci_timeout psi st"
  have free: "psi \<notin> set (A l)" "?t \<notin> set (A l)" for l using links_alloc(2,3) [of st A psi ci_timeout] w(1-3) by (simp_all add: wheel_ok_def)
  define st0 where "st0 = (if 0 < ms then ?st\<lparr>ti_ullExpireTime := (ti_ullExpireTime ?st)(?t := now + nat ms)\<rparr> else ?st)"
  have st0: "wheel_ok st0 A" "lh_node st0 = lh_node ?st" "outside st0 = outside st" "wheel_list st0 A = wheel_list st A"
    "tm_ullStart st0 = tm_ullStart st" "tm_iItemSize st0 = tm_iItemSize st" using wheel_alloc [of st A psi ci_timeout] w(1-3) by (simp_all add: st0_def)
  obtain st1 A1 where 1: "(if 0 < ms then AddTimeout ?t now st0 else Ok (0, ?st)) = Ok (0, st1)" "wheel_ok st1 A1" "same_rest st0 st1"
      "wheel_list st1 A1 = (if 0 < ms then insert_due (min (now + nat ms) (tm_ullStart st + tm_iItemSize st - 1), ?t) (wheel_list st A) else wheel_list st A)"
      "\<forall>l. outside st l \<longrightarrow> A1 l = A l"
  proof (cases "0 < ms")
    case True
    have nd: "lh_node st0 ?t \<noteq> None" "now \<le> ti_ullExpireTime st0 ?t" "ti_ullExpireTime st0 ?t = now + nat ms" using True st0(2) by (simp_all add: st0_def alloc_item_def)
    show ?thesis using AddTimeout_ok [OF st0(1) nd(1) free(2) _ nd(2)] now that True unfolding st0(3-6) nd(3) by auto
  next
    case False
    then show ?thesis using that [of st0 A] st0 by (simp add: st0_def same_rest_def)
  qed
  note r = rest_fields [OF 1(3)] slot_cong [OF 1(3)]
  have "psi \<notin> set (A1 l)" for l
  proof
    assume l: "psi \<in> set (A1 l)"
    then have "\<not> outside st1 l" using 1(5) free(1) [of l] st0(3) r by auto
    then have "psi \<in> waiting st1 A1" using l slot_waiting 1(2) by blast
    then have "psi \<in> waiting st A" using w(4) unfolding waiting_def 1(4) by (auto split: if_splits)
    then show False using wheel_links [OF w(1)] free(1) by blast
  qed
  moreover have "lh_node st1 psi \<noteq> None" using r(10) st0(2) by (auto simp: alloc_item_def)
  ultimately obtain st2 where 2: "AddTail lnk psi st1 = Ok st2" "links st2 (A1(lnk := A1 lnk @ [psi]))" "same_rest st1 st2"
    using AddTail_links [of st1 A1 psi lnk] 1(2) unfolding wheel_ok_def by blast
  note r2 = slot_cong [OF 2(3)]
  have "timedwait_enter ci_timeout lnk ms now psi st = Ok (0, st2)" using 1(1) 2(1) by (simp add: timedwait_enter_def Let_def st0_def split: if_splits)
  moreover have "wheel_list st2 (A1(lnk := A1 lnk @ [psi])) = wheel_list st1 A1"
    unfolding r2(4) wheel_list_def using outside_slot [of st1 lnk] w(5) 1(2) r st0(3) by (intro wheel_part_cong) (simp add: wheel_ok_def)
  ultimately show ?thesis
    using wheel_ok_cong [OF 1(2) 2(3,2)] 1(4,5) w(5) by (intro exI [of _ st2] exI [of _ "A1(lnk := A1 lnk @ [psi])"]) simp
qed

text \<open>When the clock has gone back behind the last turn of the wheel, the wait fails, and the item has been freed.\<close>

lemma timedwait_enter_fails:
  assumes "0 < tm_ullStart st" "lh_node st psi = None" "lh_node st (ci_timeout psi) = None" "now < tm_ullStart st" "0 < ms"
  shows "\<exists>st'. timedwait_enter ci_timeout lnk ms now psi st = Ok (390, st') \<and> lh_node st' = lh_node st \<and> lh_head st' = lh_head st"
  using assms by (auto simp: timedwait_enter_def AddTimeout_def start_wheel_def alloc_item_def free_item_def fun_eq_iff)

lemma timedwait_leave_ok:
  assumes "links st A" "psi \<in> dom (lh_node st)"
  shows "\<exists>st'. timedwait_leave ci_timeout psi st = Ok st' \<and> lh_node st' psi = None \<and> lh_node st' (ci_timeout psi) = None"
proof -
  obtain st1 where "RemoveFromLink psi st = Ok st1" using nl.remove_rep [OF assms] by blast
  then show ?thesis by (simp add: timedwait_leave_def free_item_def)
qed

section \<open>Witnesses\<close>

text \<open>A wheel of four slots, the items 5 and 6 in it - the second far beyond its end -, 7 free, and two waiters.\<close>

definition demo_epoll :: "nat list coepoll_scheme" where
  "demo_epoll = \<lparr>lh_node = [5 \<mapsto> \<lparr>ln_prev = None, ln_next = None, ln_link = Some 12\<rparr>, 6 \<mapsto> \<lparr>ln_prev = None, ln_next = None, ln_link = Some 13\<rparr>,
       7 \<mapsto> free_node, 20 \<mapsto> \<lparr>ln_prev = None, ln_next = Some 21, ln_link = Some 3\<rparr>, 21 \<mapsto> \<lparr>ln_prev = Some 20, ln_next = None, ln_link = Some 3\<rparr>],
     lh_head = [12 \<mapsto> 5, 13 \<mapsto> 6, 3 \<mapsto> 20], lh_tail = [12 \<mapsto> 5, 13 \<mapsto> 6, 3 \<mapsto> 21],
     tm_pItems = 10, tm_iItemSize = 4, tm_ullStart = 100, tm_llStartIdx = 0, ep_pstTimeoutList = 1, ep_pstActiveList = 2,
     ti_ullExpireTime = (\<lambda>_. 0)(5 := 102, 6 := 150), ti_bTimeout = (\<lambda>_. False), \<dots> = []\<rparr>"

definition demo_lists :: "nat \<Rightarrow> nat list" where
  "demo_lists = (\<lambda>_. [])(12 := [5], 13 := [6], 3 := [20, 21])"

lemma demo_epoll_ok:
  "links demo_epoll demo_lists" "wheel_ok demo_epoll demo_lists" "wheel_list demo_epoll demo_lists = [(102, 5), (103, 6)]"
  "dom (lh_node demo_epoll) = {5, 6, 7, 20, 21}" "in_time demo_epoll demo_lists"
proof -
  show l: "links demo_epoll demo_lists"
    by (auto simp: links_def is_link_def demo_epoll_def demo_lists_def free_node_def split: if_splits)
  show d: "dom (lh_node demo_epoll) = {5, 6, 7, 20, 21}" by (auto simp: demo_epoll_def split: if_splits)
  show "wheel_ok demo_epoll demo_lists" using l by (simp add: wheel_ok_def d) (simp add: demo_epoll_def)
  have "[0..<4] = [0, 1, 2, 3::nat]" by (simp add: upt_rec)
  then show w: "wheel_list demo_epoll demo_lists = [(102, 5), (103, 6)]"
    by (simp add: wheel_list_def slot_def demo_epoll_def demo_lists_def)
  show "in_time demo_epoll demo_lists" by (simp add: in_time_def w) (simp add: demo_epoll_def)
qed


theorem timing_wheel_is_sorted_list_witness:
  "\<exists>st' A'. run_wops 6 3 [W_Add 7 101 100, W_Add 6 90 100, W_Add 7 300 50, W_Take 102] demo_epoll = Ok ([0, 397, 390, 0], st')
     \<and> wheel_view 3 st' A' = \<lparr>wv_start = 102, wv_items = [(103, 6)], wv_taken = [20, 21, 7, 5]\<rparr>"
proof -
  have "wheel_alone 3 demo_epoll demo_lists" using demo_epoll_ok(2) by (auto simp: wheel_alone_def outside_def demo_lists_def demo_epoll_def)
  from timing_wheel_is_sorted_list [OF this, of 6 "[W_Add 7 101 100, W_Add 6 90 100, W_Add 7 300 50, W_Take 102]"]
  obtain rets st' A' where "run_wops 6 3 [W_Add 7 101 100, W_Add 6 90 100, W_Add 7 300 50, W_Take 102] demo_epoll = Ok (rets, st')"
      "v_wops 4 [W_Add 7 101 100, W_Add 6 90 100, W_Add 7 300 50, W_Take 102] (wheel_view 3 demo_epoll demo_lists) = (rets, wheel_view 3 st' A')"
    by (auto simp: demo_epoll_ok(4) demo_epoll_def)
  moreover have "wheel_view 3 demo_epoll demo_lists = \<lparr>wv_start = 100, wv_items = [(102, 5), (103, 6)], wv_taken = [20, 21]\<rparr>"
    by (simp add: wheel_view_def demo_epoll_ok(3)) (simp add: demo_epoll_def demo_lists_def)
  ultimately show ?thesis by (auto simp: insert_due_def)
qed

theorem cond_wakes_in_order_witness:
  "\<exists>st' A'. co_cond_broadcast 3 (\<lambda>p. p - 15) 3 demo_epoll = Ok st' \<and> links st' A' \<and> A' 3 = [] \<and> A' 2 = [5, 6] \<and> A' 12 = [] \<and> A' 13 = []"
proof -
  have f: "ep_pstActiveList demo_epoll = 2" "demo_lists 3 = [20, 21]" "demo_lists 2 = []" "demo_lists 12 = [5]" "demo_lists 13 = [6]"
    by (simp_all add: demo_epoll_def demo_lists_def)
  from cond_wakes_in_order [OF demo_epoll_ok(1), of 3 "\<lambda>p. p - 15" 3]
  have "\<exists>st' A'. co_cond_broadcast 3 (\<lambda>p. p - 15) 3 demo_epoll = Ok st' \<and> links st' A' \<and> A' 3 = [] \<and> A' 2 = [5, 6]
     \<and> (\<forall>l. l \<noteq> 3 \<longrightarrow> l \<noteq> 2 \<longrightarrow> A' l = filter (\<lambda>a. a \<notin> {5, 6}) (demo_lists l))" by (simp add: demo_epoll_ok(4) f) blast
  then show ?thesis by (force simp: f)
qed

end
