(* ===== verification/Libco_Stack.thy ===== *)
theory Libco_Stack
  imports Prelude
begin

unbundle bit_operations_syntax

text \<open>
  Shared stacks of libco (libco/co_routine.cpp): several coroutines run on the same memory, and \<open>co_swap\<close> copies the
  frames of one out before another runs, and back when it goes on.

  A stack is its bytes, from \<open>stack_buffer\<close> up to \<open>stack_bp\<close>; a stack pointer is an offset into it. The context
  switch itself is assembler (coctx_swap.S): \<open>co_swap\<close> is modelled by what it does before, in the routine that leaves, and
  behind it, in the routine that goes on. The other aspects of the same functions - what the coroutines compute - are
  in \<open>Coroutine\<close>.

  The result is that a routine finds its frames as it left them (\<open>shared_stack_preserved\<close>), as long as the routine that
  occupies a stack is not released or reset while others wait for it; otherwise they are lost (\<open>freed_occupant_loses_stack\<close>).
\<close>

section \<open>State\<close>

record stack_mem =
  sm_occupy_co :: "nat option"
  sm_buffer :: "byte list"

record share_stack =
  sh_alloc_idx :: "32 word"
  sh_stack_size :: nat
  sh_stack_array :: "nat list"

record sroutine =
  sr_cStart :: bool
  sr_cEnd :: bool
  sr_cIsMain :: bool
  sr_cIsShareStack :: bool
  sr_stack_mem :: nat
  sr_stack_sp :: nat
  sr_save_buffer :: "byte list option"
  sr_save_size :: nat

text \<open>The routines and stacks that have not been freed, and the members of \<open>stCoRoutineEnv_t\<close>; the running routine is the first
of the call stack.\<close>

record stacks =
  sk_routines :: "nat \<rightharpoonup> sroutine"
  sk_mems :: "nat \<rightharpoonup> stack_mem"
  sk_pCallStack :: "nat list"
  sk_pending_co :: "nat option"
  sk_occupy_co :: "nat option"

definition routine_at :: "nat \<Rightarrow> stacks \<Rightarrow> sroutine outcome" where
  "routine_at c st = (case sk_routines st c of None \<Rightarrow> Fault UseAfterFree | Some r \<Rightarrow> Ok r)"

definition mem_at :: "nat \<Rightarrow> stacks \<Rightarrow> stack_mem outcome" where
  "mem_at m st = (case sk_mems st m of None \<Rightarrow> Fault UseAfterFree | Some s \<Rightarrow> Ok s)"

definition put_routine :: "nat \<Rightarrow> sroutine \<Rightarrow> stacks \<Rightarrow> stacks" where
  "put_routine c r st = st\<lparr>sk_routines := (sk_routines st)(c \<mapsto> r)\<rparr>"

definition put_mem :: "nat \<Rightarrow> stack_mem \<Rightarrow> stacks \<Rightarrow> stacks" where
  "put_mem m s st = st\<lparr>sk_mems := (sk_mems st)(m \<mapsto> s)\<rparr>"

section \<open>Creating\<close>

definition co_alloc_stackmem :: "nat \<Rightarrow> nat \<Rightarrow> stacks \<Rightarrow> stacks" where
  "co_alloc_stackmem m sz st = put_mem m \<lparr>sm_occupy_co = None, sm_buffer = replicate sz junk_byte\<rparr> st"

definition co_alloc_sharestack :: "nat list \<Rightarrow> nat \<Rightarrow> stacks \<Rightarrow> share_stack \<times> stacks" where
  "co_alloc_sharestack ms sz st = (\<lparr>sh_alloc_idx = 0, sh_stack_size = sz, sh_stack_array = ms\<rparr>, fold (\<lambda>m. co_alloc_stackmem m sz) ms st)"

definition co_get_stackmem :: "share_stack \<Rightarrow> (nat \<times> share_stack) outcome" where
  "co_get_stackmem sh = (let idx = unat (sh_alloc_idx sh) mod length (sh_stack_array sh) in
     if idx < length (sh_stack_array sh) then Ok (sh_stack_array sh ! idx, sh\<lparr>sh_alloc_idx := sh_alloc_idx sh + 1\<rparr>)
     else Fault OutOfBounds)"

text \<open>The stack size that \<open>co_create_env\<close> makes of \<open>at.stack_size\<close>.\<close>

definition env_stack_size :: "int \<Rightarrow> int" where
  "env_stack_size size0 = (let size1 = (if size0 \<le> 0 then 128 * 1024 else if 1024 * 1024 * 8 < size0 then 1024 * 1024 * 8 else size0)
     in if size1 AND 0xFFF \<noteq> 0 then (size1 AND NOT 0xFFF) + 0x1000 else size1)"

definition ss_create_env :: "nat \<Rightarrow> nat \<Rightarrow> int \<Rightarrow> share_stack option \<Rightarrow> stacks \<Rightarrow> (share_stack option \<times> stacks) outcome" where
  "ss_create_env co newmem sz share st =
     (let lp = (\<lambda>shared m. \<lparr>sr_cStart = False, sr_cEnd = False, sr_cIsMain = False, sr_cIsShareStack = shared, sr_stack_mem = m,
                  sr_stack_sp = 0, sr_save_buffer = None, sr_save_size = 0\<rparr>) in
      case share of
        Some sh \<Rightarrow> obind (co_get_stackmem sh) (\<lambda>(m, sh'). Ok (Some sh', put_routine co (lp True m) st))
      | None \<Rightarrow> Ok (None, put_routine co (lp False newmem) (co_alloc_stackmem newmem (nat (env_stack_size sz)) st)))"

section \<open>Freeing\<close>

definition vacate :: "nat \<Rightarrow> nat \<Rightarrow> stacks \<Rightarrow> stacks outcome" where
  "vacate co m st = obind (mem_at m st) (\<lambda>s. Ok (if sm_occupy_co s = Some co then put_mem m (s\<lparr>sm_occupy_co := None\<rparr>) st else st))"

definition ss_free :: "nat \<Rightarrow> stacks \<Rightarrow> stacks outcome" where
  "ss_free co st = obind (routine_at co st) (\<lambda>r.
     obind (if \<not> sr_cIsShareStack r then Ok (st\<lparr>sk_mems := (sk_mems st)(sr_stack_mem r := None)\<rparr>) else vacate co (sr_stack_mem r) st) (\<lambda>st1.
     Ok (st1\<lparr>sk_routines := (sk_routines st1)(co := None)\<rparr>)))"

definition co_reset :: "nat \<Rightarrow> stacks \<Rightarrow> stacks outcome" where
  "co_reset co st = obind (routine_at co st) (\<lambda>r.
     if \<not> sr_cStart r \<or> sr_cIsMain r then Ok st
     else let r1 = r\<lparr>sr_cStart := False, sr_cEnd := False\<rparr>;
              r2 = (if sr_save_buffer r1 \<noteq> None then r1\<lparr>sr_save_buffer := None, sr_save_size := 0\<rparr> else r1)
          in vacate co (sr_stack_mem r) (put_routine co r2 st))"

section \<open>Switching\<close>

definition save_stack_buffer :: "nat \<Rightarrow> stacks \<Rightarrow> stacks outcome" where
  "save_stack_buffer co st = obind (routine_at co st) (\<lambda>r. obind (mem_at (sr_stack_mem r) st) (\<lambda>s.
     if length (sm_buffer s) < sr_stack_sp r then Fault OutOfBounds
     else Ok (put_routine co (r\<lparr>sr_save_buffer := Some (drop (sr_stack_sp r) (sm_buffer s)), sr_save_size := length (sm_buffer s) - sr_stack_sp r\<rparr>) st)))"

text \<open>\<open>co_swap\<close> up to the context switch; \<open>sp\<close> is the address of its local variable.\<close>

definition swap_out :: "nat \<Rightarrow> nat \<Rightarrow> nat \<Rightarrow> stacks \<Rightarrow> stacks outcome" where
  "swap_out cur sp pend st = obind (routine_at cur st) (\<lambda>c. let st1 = put_routine cur (c\<lparr>sr_stack_sp := sp\<rparr>) st in
     obind (routine_at pend st1) (\<lambda>p.
     if \<not> sr_cIsShareStack p then Ok (st1\<lparr>sk_pending_co := None, sk_occupy_co := None\<rparr>)
     else obind (mem_at (sr_stack_mem p) st1) (\<lambda>s.
       let occ = sm_occupy_co s;
           st2 = (put_mem (sr_stack_mem p) (s\<lparr>sm_occupy_co := Some pend\<rparr>) st1)\<lparr>sk_pending_co := Some pend, sk_occupy_co := occ\<rparr>
       in case occ of None \<Rightarrow> Ok st2 | Some oc \<Rightarrow> if oc \<noteq> pend then save_stack_buffer oc st2 else Ok st2)))"

text \<open>\<open>co_swap\<close> behind the context switch.\<close>

definition swap_in :: "stacks \<Rightarrow> stacks outcome" where
  "swap_in st = (case (sk_occupy_co st, sk_pending_co st) of
     (Some oc, Some p) \<Rightarrow> if oc = p then Ok st
       else obind (routine_at p st) (\<lambda>r. case sr_save_buffer r of
           Some b \<Rightarrow> if 0 < sr_save_size r
             then obind (mem_at (sr_stack_mem r) st) (\<lambda>s.
               if length (sm_buffer s) < sr_stack_sp r + sr_save_size r then Fault OutOfBounds
               else Ok (put_mem (sr_stack_mem r) (s\<lparr>sm_buffer := mem_write (sm_buffer s) (sr_stack_sp r) (take (sr_save_size r) b)\<rparr>) st))
             else Ok st
         | None \<Rightarrow> Ok st)
   | _ \<Rightarrow> Ok st)"

text \<open>A routine that is resumed for the first time starts in its function; any other goes on behind its own switch.\<close>

definition ss_resume :: "nat \<Rightarrow> nat \<Rightarrow> stacks \<Rightarrow> stacks outcome" where
  "ss_resume sp co st = (case sk_pCallStack st of [] \<Rightarrow> Fault OutOfBounds
     | cur # cs \<Rightarrow> if 128 \<le> length (cur # cs) then Fault CallStackFull
       else obind (routine_at co st) (\<lambda>r.
         let st1 = (put_routine co (r\<lparr>sr_cStart := True\<rparr>) st)\<lparr>sk_pCallStack := co # cur # cs\<rparr> in
         obind (swap_out cur sp co st1) (\<lambda>st2. if sr_cStart r then swap_in st2 else Ok st2)))"

definition ss_yield :: "nat \<Rightarrow> stacks \<Rightarrow> stacks outcome" where
  "ss_yield sp st = (case sk_pCallStack st of cur # prev # cs \<Rightarrow>
       obind (swap_out cur sp prev (st\<lparr>sk_pCallStack := prev # cs\<rparr>)) swap_in
     | _ \<Rightarrow> Fault OutOfBounds)"

section \<open>The invariant\<close>

text \<open>\<open>G\<close> records the frames of every routine that waits on a shared stack. They are in the stack, when the routine
occupies it, and in its save buffer otherwise.\<close>

definition kept :: "nat \<Rightarrow> byte list \<Rightarrow> sroutine \<Rightarrow> stack_mem \<Rightarrow> bool" where
  "kept c g r s \<longleftrightarrow> sr_cIsShareStack r \<and> sr_cStart r \<and> sr_stack_sp r \<le> length (sm_buffer s) \<and> length g = length (sm_buffer s) - sr_stack_sp r
     \<and> (sm_occupy_co s = Some c \<and> drop (sr_stack_sp r) (sm_buffer s) = g
        \<or> (\<exists>oc. sm_occupy_co s = Some oc \<and> oc \<noteq> c) \<and> sr_save_buffer r = Some g \<and> sr_save_size r = length g)"

text \<open>\<open>E\<close> are routines that have been started and do not wait.\<close>

definition routine_ok :: "nat set \<Rightarrow> stacks \<Rightarrow> (nat \<rightharpoonup> byte list) \<Rightarrow> nat \<Rightarrow> sroutine \<Rightarrow> bool" where
  "routine_ok E st G c r \<longleftrightarrow> (\<exists>s. sk_mems st (sr_stack_mem r) = Some s \<and> (\<forall>g. G c = Some g \<longrightarrow> kept c g r s))
     \<and> (sr_cIsShareStack r \<longrightarrow> sr_cStart r \<longrightarrow> c \<in> E \<or> c \<in> dom G)"

definition occupant_ok :: "stacks \<Rightarrow> nat \<Rightarrow> nat \<Rightarrow> bool" where
  "occupant_ok st m oc \<longleftrightarrow> (\<exists>r. sk_routines st oc = Some r \<and> sr_stack_mem r = m \<and> sr_cIsShareStack r \<and> sr_cStart r)"

definition base_inv :: "nat set \<Rightarrow> stacks \<Rightarrow> (nat \<rightharpoonup> byte list) \<Rightarrow> bool" where
  "base_inv E st G \<longleftrightarrow> dom G \<subseteq> dom (sk_routines st) \<and> (\<forall>c r. sk_routines st c = Some r \<longrightarrow> routine_ok E st G c r)
     \<and> (\<forall>m s oc. sk_mems st m = Some s \<longrightarrow> sm_occupy_co s = Some oc \<longrightarrow> occupant_ok st m oc)"

lemma base_invI:
  assumes "dom G \<subseteq> dom (sk_routines st)" "\<And>c r. sk_routines st c = Some r \<Longrightarrow> routine_ok E st G c r"
    "\<And>m s oc. sk_mems st m = Some s \<Longrightarrow> sm_occupy_co s = Some oc \<Longrightarrow> occupant_ok st m oc"
  shows "base_inv E st G"
  using assms by (simp add: base_inv_def)

lemma base_invD:
  assumes "base_inv E st G"
  shows "dom G \<subseteq> dom (sk_routines st)" "sk_routines st c = Some r \<Longrightarrow> routine_ok E st G c r"
    "sk_mems st m = Some s \<Longrightarrow> sm_occupy_co s = Some oc \<Longrightarrow> occupant_ok st m oc"
  using assms by (simp_all add: base_inv_def)

definition occupies :: "nat \<Rightarrow> stacks \<Rightarrow> bool" where
  "occupies c st \<longleftrightarrow> (\<forall>r s. sk_routines st c = Some r \<longrightarrow> sr_cIsShareStack r \<longrightarrow> sk_mems st (sr_stack_mem r) = Some s \<longrightarrow>
     sr_cStart r \<and> sm_occupy_co s = Some c)"

definition stack_inv :: "nat \<Rightarrow> stacks \<Rightarrow> (nat \<rightharpoonup> byte list) \<Rightarrow> bool" where
  "stack_inv run st G \<longleftrightarrow> base_inv {run} st G \<and> run \<in> dom (sk_routines st) - dom G \<and> occupies run st"

definition frames :: "stacks \<Rightarrow> nat \<Rightarrow> nat \<Rightarrow> byte list" where
  "frames st c sp = (case sk_routines st c of None \<Rightarrow> [] | Some r \<Rightarrow> (case sk_mems st (sr_stack_mem r) of None \<Rightarrow> [] | Some s \<Rightarrow> drop sp (sm_buffer s)))"

definition shared :: "stacks \<Rightarrow> nat \<Rightarrow> bool" where
  "shared st c \<longleftrightarrow> (\<exists>r. sk_routines st c = Some r \<and> sr_cIsShareStack r)"

lemma base_env [simp]:
  "base_inv E (st\<lparr>sk_pending_co := x\<rparr>) G = base_inv E st G" "base_inv E (st\<lparr>sk_occupy_co := x\<rparr>) G = base_inv E st G"
  "base_inv E (st\<lparr>sk_pCallStack := cs\<rparr>) G = base_inv E st G"
  by (simp_all add: base_inv_def routine_ok_def occupant_ok_def)

text \<open>The running routine leaves: its stack pointer is stored, and its frames are in the stack that it occupies.\<close>

lemma leave_inv:
  assumes inv: "base_inv (insert run E) st G" "occupies run st" and run: "sk_routines st run = Some r" "G run = None"
    and sp: "sr_cIsShareStack r \<Longrightarrow> sp \<le> length (frames st run 0)"
  shows "base_inv E (put_routine run (r\<lparr>sr_stack_sp := sp\<rparr>) st) (if shared st run then G(run \<mapsto> frames st run sp) else G)"
proof -
  obtain s where s: "sk_mems st (sr_stack_mem r) = Some s" using base_invD(2) [OF inv(1) run(1)] by (auto simp: routine_ok_def)
  have sh: "shared st run \<longleftrightarrow> sr_cIsShareStack r" "frames st run sp = drop sp (sm_buffer s)" "length (frames st run 0) = length (sm_buffer s)"
    using run(1) s by (simp_all add: shared_def frames_def)
  have k: "kept run (drop sp (sm_buffer s)) (r\<lparr>sr_stack_sp := sp\<rparr>) s" if "sr_cIsShareStack r"
    using inv(2) run(1) s that sp sh(3) by (auto simp: kept_def occupies_def)
  show ?thesis
  proof (rule base_invI)
    show "routine_ok E (put_routine run (r\<lparr>sr_stack_sp := sp\<rparr>) st) (if shared st run then G(run \<mapsto> frames st run sp) else G) c r'"
      if "sk_routines (put_routine run (r\<lparr>sr_stack_sp := sp\<rparr>) st) c = Some r'" for c r'
      using that base_invD(2) [OF inv(1), of c] run s k unfolding sh by (cases "c = run") (auto simp: routine_ok_def put_routine_def)
    show "occupant_ok (put_routine run (r\<lparr>sr_stack_sp := sp\<rparr>) st) m oc"
      if "sk_mems (put_routine run (r\<lparr>sr_stack_sp := sp\<rparr>) st) m = Some s'" "sm_occupy_co s' = Some oc" for m s' oc
      using that base_invD(3) [OF inv(1), of m s' oc] run by (auto simp: occupant_ok_def put_routine_def)
  qed (use base_invD(1) [OF inv(1)] in \<open>auto simp: put_routine_def\<close>)
qed

text \<open>A routine is started.\<close>

lemma start_inv:
  assumes "base_inv E st G" "sk_routines st co = Some r" "G co = None"
  shows "base_inv (insert co E) (put_routine co (r\<lparr>sr_cStart := True\<rparr>) st) G"
proof (rule base_invI)
  show "routine_ok (insert co E) (put_routine co (r\<lparr>sr_cStart := True\<rparr>) st) G c r'"
    if "sk_routines (put_routine co (r\<lparr>sr_cStart := True\<rparr>) st) c = Some r'" for c r'
    using that base_invD(2) [OF assms(1), of c] assms(2,3) by (cases "c = co") (auto simp: routine_ok_def put_routine_def)
  show "occupant_ok (put_routine co (r\<lparr>sr_cStart := True\<rparr>) st) m oc"
    if "sk_mems (put_routine co (r\<lparr>sr_cStart := True\<rparr>) st) m = Some s" "sm_occupy_co s = Some oc" for m s oc
    using that base_invD(3) [OF assms(1), of m s oc] assms(2) by (auto simp: occupant_ok_def put_routine_def)
qed (use base_invD(1) [OF assms(1)] in \<open>auto simp: put_routine_def\<close>)

text \<open>What a routine does to the stack that it occupies does not matter to the others.\<close>

lemma kept_write: "kept c g r s \<Longrightarrow> sm_occupy_co s \<noteq> Some c \<Longrightarrow> length b = length (sm_buffer s) \<Longrightarrow> kept c g r (s\<lparr>sm_buffer := b\<rparr>)"
  by (auto simp: kept_def)

lemma write_inv:
  assumes inv: "stack_inv run st G" and run: "sk_routines st run = Some r" "sr_cIsShareStack r" "sk_mems st (sr_stack_mem r) = Some s"
    and b: "length b = length (sm_buffer s)"
  shows "stack_inv run (put_mem (sr_stack_mem r) (s\<lparr>sm_buffer := b\<rparr>) st) G"
proof -
  let ?m = "sr_stack_mem r"
  let ?st = "put_mem ?m (s\<lparr>sm_buffer := b\<rparr>) st"
  have base: "base_inv {run} st G" "G run = None" "sm_occupy_co s = Some run" "sr_cStart r" using inv run by (auto simp: stack_inv_def occupies_def)
  have "base_inv {run} ?st G"
  proof (rule base_invI)
    show "routine_ok {run} ?st G c r'" if "sk_routines ?st c = Some r'" for c r'
    proof -
      have ok: "routine_ok {run} st G c r'" using base_invD(2) [OF base(1), of c r'] that by (simp add: put_mem_def)
      have "kept c g r' (s\<lparr>sm_buffer := b\<rparr>)" if "G c = Some g" "kept c g r' s" for g using that base(2,3) by (intro kept_write [OF _ _ b]) auto
      then show ?thesis using ok run(3) by (cases "sr_stack_mem r' = ?m") (auto simp: routine_ok_def put_mem_def)
    qed
    show "occupant_ok ?st m oc" if "sk_mems ?st m = Some s'" "sm_occupy_co s' = Some oc" for m s' oc
      using that base_invD(3) [OF base(1), of m s' oc] base_invD(3) [OF base(1) run(3), of oc] by (cases "m = ?m") (auto simp: occupant_ok_def put_mem_def)
  qed (use base_invD(1) [OF base(1)] in \<open>simp add: put_mem_def\<close>)
  then show ?thesis using inv base run by (auto simp: stack_inv_def occupies_def put_mem_def)
qed

text \<open>The next routine takes the stack over, and the frames of the one before are saved.\<close>

definition take_over :: "nat \<Rightarrow> sroutine \<Rightarrow> stack_mem \<Rightarrow> stacks \<Rightarrow> stacks" where
  "take_over pend p s st = (put_mem (sr_stack_mem p) (s\<lparr>sm_occupy_co := Some pend\<rparr>) st)\<lparr>sk_pending_co := Some pend, sk_occupy_co := sm_occupy_co s\<rparr>"

lemma kept_take_over:
  "kept c g r s \<Longrightarrow> (sm_occupy_co s = Some c \<Longrightarrow> sr_save_buffer r = Some g \<and> sr_save_size r = length g) \<Longrightarrow> c \<noteq> pend \<Longrightarrow> kept c g r (s\<lparr>sm_occupy_co := Some pend\<rparr>)"
  by (auto simp: kept_def)

lemma take_over_inv:
  assumes inv: "base_inv {pend} st G" and p: "sk_routines st pend = Some p" "sr_cIsShareStack p" "sr_cStart p" "sk_mems st (sr_stack_mem p) = Some s"
    and others: "\<And>c g r. c \<noteq> pend \<Longrightarrow> G c = Some g \<Longrightarrow> sk_routines st c = Some r \<Longrightarrow> sr_stack_mem r = sr_stack_mem p
      \<Longrightarrow> sm_occupy_co s = Some c \<Longrightarrow> sr_save_buffer r = Some g \<and> sr_save_size r = length g"
  shows "stack_inv pend (take_over pend p s st) (G(pend := None))"
proof -
  let ?st = "take_over pend p s st" and ?m = "sr_stack_mem p"
  have "base_inv {pend} ?st (G(pend := None))"
  proof (rule base_invI)
    show "routine_ok {pend} ?st (G(pend := None)) c r" if "sk_routines ?st c = Some r" for c r
    proof -
      have r: "sk_routines st c = Some r" using that by (simp add: take_over_def put_mem_def)
      have ok: "routine_ok {pend} st G c r" using base_invD(2) [OF inv r] .
      have "kept c g r (s\<lparr>sm_occupy_co := Some pend\<rparr>)" if "c \<noteq> pend" "G c = Some g" "kept c g r s" "sr_stack_mem r = ?m" for g
        using that others [OF that(1,2) r that(4)] by (intro kept_take_over)
      then show ?thesis using ok p(4) by (cases "sr_stack_mem r = ?m") (auto simp: routine_ok_def take_over_def put_mem_def)
    qed
    show "occupant_ok ?st m oc" if "sk_mems ?st m = Some s'" "sm_occupy_co s' = Some oc" for m s' oc
      using that base_invD(3) [OF inv, of m s' oc] p by (cases "m = ?m") (auto simp: occupant_ok_def take_over_def put_mem_def)
  qed (use base_invD(1) [OF inv] in \<open>auto simp: take_over_def put_mem_def\<close>)
  then show ?thesis using p by (auto simp: stack_inv_def occupies_def take_over_def put_mem_def)
qed

text \<open>The frames of a routine may be copied out at any time.\<close>

lemma save_inv:
  assumes inv: "base_inv E st G" and r: "sk_routines st oc = Some r" "sr_cIsShareStack r" "sr_cStart r" "sk_mems st (sr_stack_mem r) = Some s" "sm_occupy_co s = Some oc"
    and oc: "oc \<notin> E"
  shows "\<exists>r'. save_stack_buffer oc st = Ok (put_routine oc r' st) \<and> base_inv E (put_routine oc r' st) G \<and> (\<forall>g. G oc = Some g \<longrightarrow> sr_save_buffer r' = Some g \<and> sr_save_size r' = length g)
     \<and> sr_stack_mem r' = sr_stack_mem r \<and> sr_stack_sp r' = sr_stack_sp r \<and> sr_cIsShareStack r' \<and> sr_cStart r' \<and> G oc \<noteq> None"
proof -
  let ?r = "r\<lparr>sr_save_buffer := Some (drop (sr_stack_sp r) (sm_buffer s)), sr_save_size := length (sm_buffer s) - sr_stack_sp r\<rparr>"
  have "routine_ok E st G oc r" using base_invD(2) [OF inv r(1)] .
  then obtain g where g: "G oc = Some g" "kept oc g r s" using r oc by (auto simp: routine_ok_def)
  then have d: "sr_stack_sp r \<le> length (sm_buffer s)" "drop (sr_stack_sp r) (sm_buffer s) = g" using r(5) by (auto simp: kept_def)
  have "base_inv E (put_routine oc ?r st) G"
  proof (rule base_invI)
    have "kept oc g ?r s" using g(2) r(5) by (auto simp: kept_def)
    then show "routine_ok E (put_routine oc ?r st) G c r'" if "sk_routines (put_routine oc ?r st) c = Some r'" for c r'
      using that base_invD(2) [OF inv, of c r'] r g(1) by (cases "c = oc") (auto simp: routine_ok_def put_routine_def)
    show "occupant_ok (put_routine oc ?r st) m c" if "sk_mems (put_routine oc ?r st) m = Some s'" "sm_occupy_co s' = Some c" for m s' c
      using that base_invD(3) [OF inv, of m s' c] r by (auto simp: occupant_ok_def put_routine_def)
  qed (use base_invD(1) [OF inv] r(1) in \<open>auto simp: put_routine_def\<close>)
  then show ?thesis using r d g by (intro exI [of _ ?r]) (auto simp: save_stack_buffer_def routine_at_def mem_at_def)
qed

lemma save_take_over:
  assumes "save_stack_buffer oc st = Ok (put_routine oc r' st)" "sk_mems st (sr_stack_mem p) = Some s"
  shows "save_stack_buffer oc (take_over pend p s st) = Ok (take_over pend p s (put_routine oc r' st))"
proof -
  obtain r where r: "sk_routines st oc = Some r" using assms(1) by (cases "sk_routines st oc") (simp_all add: save_stack_buffer_def routine_at_def)
  obtain s' where s': "sk_mems st (sr_stack_mem r) = Some s'" using assms(1) r by (cases "sk_mems st (sr_stack_mem r)") (simp_all add: save_stack_buffer_def routine_at_def mem_at_def)
  have "put_routine oc x st = put_routine oc y st \<Longrightarrow> x = y" for x y by (drule arg_cong [of _ _ "\<lambda>st. sk_routines st oc"]) (simp add: put_routine_def)
  then have "length (sm_buffer s') \<ge> sr_stack_sp r" "r' = r\<lparr>sr_save_buffer := Some (drop (sr_stack_sp r) (sm_buffer s')), sr_save_size := length (sm_buffer s') - sr_stack_sp r\<rparr>"
    using assms(1) r s' by (auto simp: save_stack_buffer_def routine_at_def mem_at_def split: if_splits)
  then show ?thesis using r s' assms(2)
    by (cases "sr_stack_mem r = sr_stack_mem p") (auto simp: save_stack_buffer_def routine_at_def mem_at_def take_over_def put_mem_def put_routine_def)
qed

text \<open>The first half of the switch: the stack is taken over, once the frames of its occupant are safe.\<close>

lemma enter_ok:
  assumes inv: "base_inv {pend} st G" and p: "sk_routines st pend = Some p" "sr_cIsShareStack p" "sr_cStart p" "sk_mems st (sr_stack_mem p) = Some s"
  shows "\<exists>st'. (case sm_occupy_co s of None \<Rightarrow> Ok (take_over pend p s st) | Some oc \<Rightarrow>
        if oc \<noteq> pend then save_stack_buffer oc (take_over pend p s st) else Ok (take_over pend p s st)) = Ok st'
     \<and> stack_inv pend st' (G(pend := None)) \<and> sk_routines st' pend = Some p \<and> sk_mems st' (sr_stack_mem p) = Some (s\<lparr>sm_occupy_co := Some pend\<rparr>)
     \<and> sk_pending_co st' = Some pend \<and> sk_occupy_co st' = sm_occupy_co s \<and> sk_pCallStack st' = sk_pCallStack st"
proof (cases "\<exists>oc. sm_occupy_co s = Some oc \<and> oc \<noteq> pend")
  case True
  then obtain oc where oc: "sm_occupy_co s = Some oc" "oc \<noteq> pend" by blast
  obtain r where r: "sk_routines st oc = Some r" "sr_stack_mem r = sr_stack_mem p" "sr_cIsShareStack r" "sr_cStart r"
    using base_invD(3) [OF inv p(4) oc(1)] by (auto simp: occupant_ok_def)
  have s: "sk_mems st (sr_stack_mem r) = Some s" using p(4) r(2) by simp
  obtain r' where r': "save_stack_buffer oc st = Ok (put_routine oc r' st)" "base_inv {pend} (put_routine oc r' st) G"
      "\<And>g. G oc = Some g \<Longrightarrow> sr_save_buffer r' = Some g \<and> sr_save_size r' = length g"
    using save_inv [OF inv r(1,3,4) s oc(1)] oc(2) by auto
  have p': "sk_routines (put_routine oc r' st) pend = Some p" "sk_mems (put_routine oc r' st) (sr_stack_mem p) = Some s"
    using p oc(2) by (simp_all add: put_routine_def)
  have "stack_inv pend (take_over pend p s (put_routine oc r' st)) (G(pend := None))"
    using r'(3) oc(1) by (intro take_over_inv [OF r'(2) p'(1) p(2,3) p'(2)]) (auto simp: put_routine_def split: if_splits)
  moreover have "save_stack_buffer oc (take_over pend p s st) = Ok (take_over pend p s (put_routine oc r' st))" using save_take_over [OF r'(1) p(4)] .
  ultimately show ?thesis using oc p by (intro exI [of _ "take_over pend p s (put_routine oc r' st)"]) (simp add: take_over_def put_mem_def put_routine_def)
next
  case False
  then have "stack_inv pend (take_over pend p s st) (G(pend := None))" by (intro take_over_inv [OF inv p]) auto
  then show ?thesis using False p by (intro exI [of _ "take_over pend p s st"]) (auto simp: take_over_def put_mem_def split: option.splits)
qed

text \<open>The second half: the routine that goes on finds its frames.\<close>

lemma swap_in_ok:
  assumes inv: "stack_inv pend st G" and p: "sk_routines st pend = Some p" "sr_cIsShareStack p" "sk_mems st (sr_stack_mem p) = Some (s\<lparr>sm_occupy_co := Some pend\<rparr>)"
    and env: "sk_pending_co st = Some pend" "sk_occupy_co st = sm_occupy_co s" and g: "kept pend g p s"
  shows "\<exists>st'. swap_in st = Ok st' \<and> stack_inv pend st' G \<and> frames st' pend (sr_stack_sp p) = g \<and> sk_routines st' = sk_routines st \<and> sk_pCallStack st' = sk_pCallStack st"
proof (cases "sm_occupy_co s = Some pend")
  case True
  then show ?thesis using inv p env g by (intro exI [of _ st]) (auto simp: swap_in_def frames_def kept_def)
next
  case False
  let ?s = "s\<lparr>sm_occupy_co := Some pend\<rparr>" and ?sp = "sr_stack_sp p"
  obtain oc where oc: "sm_occupy_co s = Some oc" "oc \<noteq> pend" and sv: "sr_save_buffer p = Some g" "sr_save_size p = length g"
    and len: "?sp \<le> length (sm_buffer s)" "length g = length (sm_buffer s) - ?sp" using g False by (auto simp: kept_def)
  show ?thesis
  proof (cases "g = []")
    case True
    then show ?thesis using inv p env oc sv len by (intro exI [of _ st]) (simp add: swap_in_def routine_at_def frames_def)
  next
    case False
    let ?b = "mem_write (sm_buffer s) ?sp g"
    have b: "length ?b = length (sm_buffer ?s)" "drop ?sp ?b = g" using len by (simp_all add: mem_write_def)
    let ?st = "put_mem (sr_stack_mem p) (?s\<lparr>sm_buffer := ?b\<rparr>) st"
    have "stack_inv pend ?st G" using write_inv [OF inv p(1,2,3) b(1)] .
    moreover have "0 < length g" using False by blast
    moreover have "?sp + length g = length (sm_buffer s)" using len by linarith
    ultimately have "stack_inv pend ?st G \<and> swap_in st = Ok ?st" using p env oc sv by (simp add: swap_in_def routine_at_def mem_at_def)
    moreover have "frames ?st pend ?sp = g" using p(1) b(2) by (simp add: frames_def put_mem_def)
    ultimately show ?thesis by (intro exI [of _ ?st]) (simp add: put_mem_def)
  qed
qed

lemma base_mono: "base_inv E st G \<Longrightarrow> E \<subseteq> F \<Longrightarrow> base_inv F st G"
  unfolding base_inv_def routine_ok_def by blast

definition leave :: "nat \<Rightarrow> nat \<Rightarrow> nat \<Rightarrow> stacks \<Rightarrow> (nat \<rightharpoonup> byte list) \<Rightarrow> nat \<rightharpoonup> byte list" where
  "leave run sp pend st G = (if shared st run then G(run \<mapsto> frames st run sp) else G)(pend := None)"

lemma swap_ok:
  assumes inv: "base_inv {run, pend} st G" "occupies run st" "G run = None" "run \<noteq> pend"
    and r: "sk_routines st run = Some r" "sr_cIsShareStack r \<Longrightarrow> sp \<le> length (frames st run 0)"
    and p: "sk_routines st pend = Some p" "sr_cIsShareStack p \<Longrightarrow> sr_cStart p"
  shows "\<exists>st1. swap_out run sp pend st = Ok st1 \<and> stack_inv pend st1 (leave run sp pend st G) \<and> sk_pCallStack st1 = sk_pCallStack st
     \<and> (sr_cIsShareStack p \<longrightarrow> G pend \<noteq> None \<longrightarrow> (\<exists>st2. swap_in st1 = Ok st2 \<and> stack_inv pend st2 (leave run sp pend st G)
          \<and> frames st2 pend (sr_stack_sp p) = the (G pend) \<and> sk_routines st2 pend = Some p \<and> sk_pCallStack st2 = sk_pCallStack st))
     \<and> (\<not> sr_cIsShareStack p \<longrightarrow> swap_in st1 = Ok st1)"
proof -
  let ?st = "put_routine run (r\<lparr>sr_stack_sp := sp\<rparr>) st" and ?G = "if shared st run then G(run \<mapsto> frames st run sp) else G"
  have base: "base_inv {pend} ?st ?G" using leave_inv [OF inv(1,2) r(1) inv(3) r(2)] .
  have p': "sk_routines ?st pend = Some p" using p(1) inv(4) by (simp add: put_routine_def)
  obtain s where s: "sk_mems ?st (sr_stack_mem p) = Some s" "\<And>g. ?G pend = Some g \<Longrightarrow> kept pend g p s"
    using base_invD(2) [OF base p'] by (auto simp: routine_ok_def)
  have gp: "?G pend = G pend" using inv(4) by simp
  show ?thesis
  proof (cases "sr_cIsShareStack p")
    case False
    then have "?G pend = None" using s(2) by (cases "?G pend") (auto simp: kept_def)
    then have "pend \<notin> dom ?G" by (simp only: domIff not_not)
    then have "?G(pend := None) = ?G" by (auto simp: fun_upd_idem domIff)
    then have "stack_inv pend (?st\<lparr>sk_pending_co := None, sk_occupy_co := None\<rparr>) (leave run sp pend st G)"
      using base p' False \<open>pend \<notin> dom ?G\<close> by (simp add: stack_inv_def occupies_def leave_def domIff)
    moreover have "swap_out run sp pend st = Ok (?st\<lparr>sk_pending_co := None, sk_occupy_co := None\<rparr>)"
      using r(1) p' False by (simp add: swap_out_def routine_at_def)
    ultimately show ?thesis using False by (simp add: swap_in_def put_routine_def)
  next
    case True
    obtain st1 where st1: "(case sm_occupy_co s of None \<Rightarrow> Ok (take_over pend p s ?st) | Some oc \<Rightarrow>
        if oc \<noteq> pend then save_stack_buffer oc (take_over pend p s ?st) else Ok (take_over pend p s ?st)) = Ok st1"
      "stack_inv pend st1 (leave run sp pend st G)" "sk_routines st1 pend = Some p" "sk_mems st1 (sr_stack_mem p) = Some (s\<lparr>sm_occupy_co := Some pend\<rparr>)"
      "sk_pending_co st1 = Some pend" "sk_occupy_co st1 = sm_occupy_co s" "sk_pCallStack st1 = sk_pCallStack st"
      using enter_ok [OF base p' True p(2) [OF True] s(1)] by (auto simp: leave_def put_routine_def)
    have "swap_out run sp pend st = Ok st1"
      using r(1) p' True s(1) st1(1) unfolding take_over_def by (simp add: swap_out_def routine_at_def mem_at_def Let_def)
    moreover have "\<exists>st2. swap_in st1 = Ok st2 \<and> stack_inv pend st2 (leave run sp pend st G)
          \<and> frames st2 pend (sr_stack_sp p) = the (G pend) \<and> sk_routines st2 pend = Some p \<and> sk_pCallStack st2 = sk_pCallStack st" if "G pend \<noteq> None"
      using swap_in_ok [OF st1(2,3) True st1(4-6) s(2), of "the (G pend)"] that gp st1(3,7) by auto
    ultimately show ?thesis using True st1(2,7) by blast
  qed
qed

section \<open>Runs\<close>

lemma occupies_env [simp]: "occupies c (st\<lparr>sk_pCallStack := cs\<rparr>) = occupies c st"
  by (simp add: occupies_def)

text \<open>Switching changes neither which routines there are nor on what kind of stack they run.\<close>

definition kinds :: "stacks \<Rightarrow> nat \<rightharpoonup> bool" where
  "kinds st c = map_option sr_cIsShareStack (sk_routines st c)"

lemma at_Ok: "routine_at c st = Ok r \<longleftrightarrow> sk_routines st c = Some r" "mem_at m st = Ok s \<longleftrightarrow> sk_mems st m = Some s"
  by (simp_all add: routine_at_def mem_at_def split: option.split)

lemma kinds_simps [simp]:
  "kinds (put_mem m s st) = kinds st" "kinds (st\<lparr>sk_pending_co := x\<rparr>) = kinds st" "kinds (st\<lparr>sk_occupy_co := x\<rparr>) = kinds st"
  "kinds (st\<lparr>sk_pCallStack := cs\<rparr>) = kinds st"
  by (simp_all add: kinds_def put_mem_def fun_eq_iff)

lemma kinds_put: "sk_routines st c = Some r0 \<Longrightarrow> sr_cIsShareStack r = sr_cIsShareStack r0 \<Longrightarrow> kinds (put_routine c r st) = kinds st"
  by (auto simp: kinds_def put_routine_def fun_eq_iff)

lemma save_kinds: "save_stack_buffer co st = Ok st' \<Longrightarrow> kinds st' = kinds st"
  by (auto simp: save_stack_buffer_def at_Ok kinds_put split: if_splits)

lemma swap_out_kinds:
  assumes "swap_out cur sp pend st = Ok st'"
  shows "kinds st' = kinds st"
proof -
  obtain c where c: "sk_routines st cur = Some c" using assms by (auto simp: swap_out_def at_Ok)
  let ?st = "put_routine cur (c\<lparr>sr_stack_sp := sp\<rparr>) st"
  have "kinds ?st = kinds st" using c by (simp add: kinds_put)
  moreover obtain p where p: "sk_routines ?st pend = Some p" using assms c by (auto simp: swap_out_def at_Ok Let_def)
  have "kinds st' = kinds ?st"
  proof (cases "sr_cIsShareStack p")
    case False
    then show ?thesis using assms c p by (auto simp: swap_out_def routine_at_def)
  next
    case True
    obtain s where s: "sk_mems ?st (sr_stack_mem p) = Some s" using assms c p True by (auto simp: swap_out_def at_Ok Let_def routine_at_def)
    then have "(case sm_occupy_co s of None \<Rightarrow> Ok (take_over pend p s ?st) | Some oc \<Rightarrow>
        if oc \<noteq> pend then save_stack_buffer oc (take_over pend p s ?st) else Ok (take_over pend p s ?st)) = Ok st'"
      using assms c p True unfolding take_over_def by (simp add: swap_out_def routine_at_def mem_at_def Let_def)
    moreover have "kinds (take_over pend p s ?st) = kinds ?st" by (simp add: take_over_def)
    ultimately show ?thesis using save_kinds by (cases "sm_occupy_co s") (auto split: if_splits)
  qed
  ultimately show ?thesis by simp
qed

lemma swap_in_kinds: "swap_in st = Ok st' \<Longrightarrow> kinds st' = kinds st"
  by (auto simp: swap_in_def split: if_splits option.splits)

text \<open>The routines below the running one are waiting, too.\<close>

definition calls_ok :: "nat list \<Rightarrow> (nat \<rightharpoonup> bool) \<Rightarrow> (nat \<rightharpoonup> byte list) \<Rightarrow> bool" where
  "calls_ok cs K G \<longleftrightarrow> (\<forall>c\<in>set cs. K c = Some False \<or> K c = Some True \<and> c \<in> dom G)"

definition calls_inv :: "stacks \<Rightarrow> (nat \<rightharpoonup> byte list) \<Rightarrow> bool" where
  "calls_inv st G \<longleftrightarrow> (\<exists>run cs. sk_pCallStack st = run # cs \<and> distinct (run # cs) \<and> stack_inv run st G \<and> calls_ok cs (kinds st) G)"

lemma leave_calls:
  assumes "calls_ok cs (kinds st) G" "pend \<notin> set cs"
  shows "calls_ok cs (kinds st) (leave run sp pend st G)"
  using assms by (auto simp: calls_ok_def leave_def)

lemma leave_run: "sk_routines st run \<noteq> None \<Longrightarrow> run \<noteq> pend \<Longrightarrow> kinds st run = Some False \<or> kinds st run = Some True \<and> run \<in> dom (leave run sp pend st G)"
  by (auto simp: kinds_def leave_def shared_def)

lemma resume_ok:
  assumes inv: "calls_inv st G" and cs: "sk_pCallStack st = run # cs" "length (run # cs) < 128"
    and co: "co \<notin> set (run # cs)" "sk_routines st co = Some r" and sp: "shared st run \<Longrightarrow> sp \<le> length (frames st run 0)"
  shows "\<exists>st'. ss_resume sp co st = Ok st' \<and> calls_inv st' (leave run sp co st G) \<and> (\<forall>g. G co = Some g \<longrightarrow> frames st' co (sr_stack_sp r) = g)"
proof -
  let ?st = "(put_routine co (r\<lparr>sr_cStart := True\<rparr>) st)\<lparr>sk_pCallStack := co # run # cs\<rparr>" and ?G = "leave run sp co st G"
  have st: "stack_inv run st G" "calls_ok cs (kinds st) G" "distinct (run # cs)" using inv cs(1) by (auto simp: calls_inv_def)
  then have base: "base_inv {run} st G" "G run = None" "occupies run st" by (auto simp: stack_inv_def)
  obtain rr where rr: "sk_routines st run = Some rr" using st(1) by (auto simp: stack_inv_def)
  have ok: "routine_ok {run} st G co r" using base_invD(2) [OF base(1) co(2)] .
  have new: "\<not> sr_cStart r \<Longrightarrow> G co = None" "\<not> sr_cIsShareStack r \<Longrightarrow> G co = None" using ok by (cases "G co"; auto simp: routine_ok_def kept_def)+
  have "base_inv {run, co} (put_routine co (r\<lparr>sr_cStart := True\<rparr>) st) G"
  proof (cases "sr_cStart r")
    case True
    then have "put_routine co (r\<lparr>sr_cStart := True\<rparr>) st = st" using co(2) by (simp add: put_routine_def fun_upd_idem)
    then show ?thesis using base_mono [OF base(1), of "{run, co}"] by simp
  next
    case False
    then show ?thesis using start_inv [OF base(1) co(2) new(1)] unfolding insert_commute [of co run] by simp
  qed
  then have inv': "base_inv {run, co} ?st G" by simp
  have eq: "sk_routines ?st run = sk_routines st run" "sk_mems ?st = sk_mems st" using co(1) by (auto simp: put_routine_def)
  have occ: "occupies run ?st" using base(3) unfolding occupies_def eq .
  have fr: "shared ?st run = shared st run" "\<And>k. frames ?st run k = frames st run k" unfolding shared_def frames_def eq by simp_all
  have r': "sk_routines ?st run = Some rr" "sk_routines ?st co = Some (r\<lparr>sr_cStart := True\<rparr>)" "run \<noteq> co" using rr eq(1) co(1) by (auto simp: put_routine_def)
  have lv: "leave run sp co ?st G = ?G" using fr by (simp add: leave_def)
  have sp': "sr_cIsShareStack rr \<Longrightarrow> sp \<le> length (frames ?st run 0)" using sp rr fr(2) by (simp add: shared_def)
  obtain st1 where st1: "swap_out run sp co ?st = Ok st1" "stack_inv co st1 ?G" "sk_pCallStack st1 = co # run # cs"
    and in1: "sr_cIsShareStack r \<Longrightarrow> G co \<noteq> None \<Longrightarrow> \<exists>st2. swap_in st1 = Ok st2 \<and> stack_inv co st2 ?G
          \<and> frames st2 co (sr_stack_sp r) = the (G co) \<and> sk_pCallStack st2 = co # run # cs" "\<not> sr_cIsShareStack r \<Longrightarrow> swap_in st1 = Ok st1"
    using swap_ok [OF inv' occ base(2) r'(3,1) sp' r'(2)] unfolding lv by auto
  obtain st2 where st2: "(if sr_cStart r then swap_in st1 else Ok st1) = Ok st2" "stack_inv co st2 ?G" "sk_pCallStack st2 = co # run # cs"
      "\<forall>g. G co = Some g \<longrightarrow> frames st2 co (sr_stack_sp r) = g" "kinds st2 = kinds st1"
  proof (cases "sr_cStart r \<and> sr_cIsShareStack r")
    case True
    then have "G co \<noteq> None" using ok co(1) by (auto simp: routine_ok_def)
    then show ?thesis using in1(1) True that swap_in_kinds by force
  next
    case False
    then show ?thesis using st1 in1(2) new that [of st1] by (cases "sr_cStart r") auto
  qed
  have "kinds st1 = kinds st" using swap_out_kinds [OF st1(1)] kinds_put [OF co(2)] by simp
  moreover have "calls_ok (run # cs) (kinds st) ?G" using leave_calls [OF st(2)] leave_run [of st run co] rr r'(3) co(1) by (auto simp: calls_ok_def)
  ultimately have "calls_inv st2 ?G" using st2 co(1) st(3) by (simp add: calls_inv_def)
  moreover have "ss_resume sp co st = Ok st2" using cs co(2) st1(1) st2(1) by (simp add: ss_resume_def routine_at_def)
  ultimately show ?thesis using st2(4) by blast
qed

lemma yield_ok:
  assumes inv: "calls_inv st G" and cs: "sk_pCallStack st = run # prev # cs" and p: "sk_routines st prev = Some p"
    and sp: "shared st run \<Longrightarrow> sp \<le> length (frames st run 0)"
  shows "\<exists>st'. ss_yield sp st = Ok st' \<and> calls_inv st' (leave run sp prev st G) \<and> (\<forall>g. G prev = Some g \<longrightarrow> frames st' prev (sr_stack_sp p) = g)"
proof -
  let ?st = "st\<lparr>sk_pCallStack := prev # cs\<rparr>" and ?G = "leave run sp prev st G"
  have st: "stack_inv run st G" "calls_ok (prev # cs) (kinds st) G" "distinct (run # prev # cs)" using inv cs(1) by (auto simp: calls_inv_def)
  have base: "base_inv {run, prev} ?st G" "G run = None" "occupies run ?st" "run \<noteq> prev"
    using st base_mono [of "{run}" st G "{run, prev}"] by (auto simp: stack_inv_def)
  obtain rr where rr: "sk_routines st run = Some rr" using st(1) by (auto simp: stack_inv_def)
  have ok: "routine_ok {run} st G prev p" using base_invD(2) [of "{run}" st G prev p] st(1) p by (simp add: stack_inv_def)
  have w: "sr_cIsShareStack p \<Longrightarrow> G prev \<noteq> None \<and> sr_cStart p" using st(2) p ok by (auto simp: calls_ok_def kinds_def routine_ok_def kept_def)
  have fr: "shared ?st run = shared st run" "\<And>k. frames ?st run k = frames st run k" by (simp_all add: shared_def frames_def cong: option.case_cong)
  have lv: "leave run sp prev ?st G = ?G" using fr by (simp add: leave_def)
  have r: "sk_routines ?st run = Some rr" "sr_cIsShareStack rr \<Longrightarrow> sp \<le> length (frames ?st run 0)" "sk_routines ?st prev = Some p"
    using rr sp fr p by (simp_all add: shared_def)
  obtain st1 where st1: "swap_out run sp prev ?st = Ok st1" "stack_inv prev st1 ?G" "sk_pCallStack st1 = prev # cs"
    and in1: "sr_cIsShareStack p \<Longrightarrow> G prev \<noteq> None \<Longrightarrow> \<exists>st2. swap_in st1 = Ok st2 \<and> stack_inv prev st2 ?G
          \<and> frames st2 prev (sr_stack_sp p) = the (G prev) \<and> sk_pCallStack st2 = prev # cs" "\<not> sr_cIsShareStack p \<Longrightarrow> swap_in st1 = Ok st1"
    using swap_ok [OF base(1,3,2,4) r] w unfolding lv by auto
  have new: "\<not> sr_cIsShareStack p \<Longrightarrow> G prev = None" using ok by (cases "G prev") (auto simp: routine_ok_def kept_def)
  obtain st2 where st2: "swap_in st1 = Ok st2" "stack_inv prev st2 ?G" "sk_pCallStack st2 = prev # cs"
      "\<forall>g. G prev = Some g \<longrightarrow> frames st2 prev (sr_stack_sp p) = g"
    using in1 w new st1 by (cases "sr_cIsShareStack p") force+
  have "kinds st2 = kinds st" using swap_in_kinds [OF st2(1)] swap_out_kinds [OF st1(1)] by simp
  moreover have "calls_ok cs (kinds st) ?G" using leave_calls [of cs st G] st(2,3) by (simp add: calls_ok_def)
  ultimately have "calls_inv st2 ?G" using st2 st(3) by (simp add: calls_inv_def)
  moreover have "ss_yield sp st = Ok st2" using cs st1(1) st2(1) by (simp add: ss_yield_def)
  ultimately show ?thesis using st2(4) by blast
qed

text \<open>A routine may be freed, or reset, when it does not occupy its stack or nobody else waits for this stack.\<close>

definition unencumbered :: "nat \<Rightarrow> stacks \<Rightarrow> (nat \<rightharpoonup> byte list) \<Rightarrow> bool" where
  "unencumbered co st G \<longleftrightarrow> (\<forall>r s. sk_routines st co = Some r \<longrightarrow> sk_mems st (sr_stack_mem r) = Some s \<longrightarrow> sm_occupy_co s = Some co \<longrightarrow>
     (\<forall>d r'. d \<noteq> co \<longrightarrow> d \<in> dom G \<longrightarrow> sk_routines st d = Some r' \<longrightarrow> sr_stack_mem r' \<noteq> sr_stack_mem r))"

definition vacated :: "nat \<Rightarrow> sroutine \<Rightarrow> stack_mem \<Rightarrow> sroutine option \<Rightarrow> stacks \<Rightarrow> stacks" where
  "vacated co r s ro st = (if sm_occupy_co s = Some co then put_mem (sr_stack_mem r) (s\<lparr>sm_occupy_co := None\<rparr>) st else st)
     \<lparr>sk_routines := (sk_routines st)(co := ro)\<rparr>"

lemma vacated_fields:
  "sk_mems (vacated co r s ro st) = (if sm_occupy_co s = Some co then (sk_mems st)(sr_stack_mem r \<mapsto> s\<lparr>sm_occupy_co := None\<rparr>) else sk_mems st)"
  "sk_routines (vacated co r s ro st) = (sk_routines st)(co := ro)" "sk_pCallStack (vacated co r s ro st) = sk_pCallStack st"
  by (simp_all add: vacated_def put_mem_def)

lemma vacate_occupies:
  assumes inv: "base_inv {run} st G" "occupies run st" and co: "co \<noteq> run" "sk_mems st (sr_stack_mem r) = Some s"
  shows "occupies run (vacated co r s ro st)"
  unfolding occupies_def
proof (intro allI impI)
  fix r1 s1
  assume 1: "sk_routines (vacated co r s ro st) run = Some r1" "sr_cIsShareStack r1" "sk_mems (vacated co r s ro st) (sr_stack_mem r1) = Some s1"
  then have r1: "sk_routines st run = Some r1" using co(1) by (simp add: vacated_fields)
  obtain s0 where s0: "sk_mems st (sr_stack_mem r1) = Some s0" using base_invD(2) [OF inv(1) r1] by (auto simp: routine_ok_def)
  have o: "sr_cStart r1" "sm_occupy_co s0 = Some run" using inv(2) r1 1(2) s0 unfolding occupies_def by blast+
  have "s1 = s0" using 1(3) s0 o(2) co unfolding vacated_fields by (auto split: if_splits)
  then show "sr_cStart r1 \<and> sm_occupy_co s1 = Some run" using o by simp
qed

lemma vacate_inv:
  assumes inv: "stack_inv run st G" and co: "sk_routines st co = Some r" "co \<noteq> run" "sk_mems st (sr_stack_mem r) = Some s" "unencumbered co st G"
    and ro: "\<And>r'. ro = Some r' \<Longrightarrow> sr_stack_mem r' = sr_stack_mem r \<and> \<not> sr_cStart r'"
  shows "stack_inv run (vacated co r s ro st) (G(co := None))"
proof -
  let ?st = "vacated co r s ro st" and ?m = "sr_stack_mem r"
  have base: "base_inv {run} st G" "run \<in> dom (sk_routines st) - dom G" "occupies run st" using inv by (simp_all add: stack_inv_def)
  note mem = vacated_fields
  have other: "sk_mems ?st (sr_stack_mem r') = sk_mems st (sr_stack_mem r')" if "d \<noteq> co" "d \<in> dom G" "sk_routines st d = Some r'" for d r'
    using co(1,3,4) that by (auto simp: mem unencumbered_def)
  have "base_inv {run} ?st (G(co := None))"
  proof (rule base_invI)
    show "routine_ok {run} ?st (G(co := None)) c r'" if c: "sk_routines ?st c = Some r'" for c r'
    proof (cases "c = co")
      case True
      then show ?thesis using ro [of r'] c co(3) by (auto simp: mem routine_ok_def)
    next
      case False
      then have r': "sk_routines st c = Some r'" using c by (simp add: mem)
      then show ?thesis using base_invD(2) [OF base(1) r'] False other [OF False _ r'] co(3) by (cases "c \<in> dom G") (auto simp: routine_ok_def mem)
    qed
    show "occupant_ok ?st m oc" if "sk_mems ?st m = Some s'" "sm_occupy_co s' = Some oc" for m s' oc
    proof -
      have "sk_mems st m = Some s'" "oc \<noteq> co" using that base_invD(3) [OF base(1), of m s' oc] co(1,3) by (auto simp: mem occupant_ok_def split: if_splits)
      then show ?thesis using base_invD(3) [OF base(1), of m s' oc] that(2) by (auto simp: mem occupant_ok_def)
    qed
  qed (use base_invD(1) [OF base(1)] in \<open>auto simp: mem\<close>)
  moreover have "occupies run ?st" using vacate_occupies [OF base(1,3) co(2,3)] .
  ultimately show ?thesis using base(2) co(2) by (simp add: stack_inv_def mem domIff)
qed

lemma calls_less:
  assumes "calls_ok cs (kinds st) G" "co \<notin> set cs" "\<And>c. c \<noteq> co \<Longrightarrow> kinds st' c = kinds st c"
  shows "calls_ok cs (kinds st') (G(co := None))"
  using assms unfolding calls_ok_def by (metis domIff fun_upd_other)

lemma free_ok:
  assumes inv: "calls_inv st G" and co: "co \<notin> set (sk_pCallStack st)" "shared st co" "unencumbered co st G"
  shows "ss_free co st = Ok st' \<Longrightarrow> calls_inv st' (G(co := None))" "co_reset co st = Ok st' \<Longrightarrow> calls_inv st' (if \<exists>r. sk_routines st co = Some r \<and> sr_cStart r \<and> \<not> sr_cIsMain r then G(co := None) else G)"
proof -
  obtain run cs where cs: "sk_pCallStack st = run # cs" "distinct (run # cs)" "stack_inv run st G" "calls_ok cs (kinds st) G" using inv by (auto simp: calls_inv_def)
  obtain r where r: "sk_routines st co = Some r" "sr_cIsShareStack r" using co(2) by (auto simp: shared_def)
  have ne: "co \<noteq> run" "co \<notin> set cs" using co(1) cs(1) by auto
  obtain s where s: "sk_mems st (sr_stack_mem r) = Some s" using base_invD(2) [of "{run}" st G co r] cs(3) r(1) by (auto simp: stack_inv_def routine_ok_def)
  have gone: "calls_inv (vacated co r s ro st) (G(co := None))" if "\<And>r'. ro = Some r' \<Longrightarrow> sr_stack_mem r' = sr_stack_mem r \<and> \<not> sr_cStart r'" for ro
  proof -
    have "kinds (vacated co r s ro st) c = kinds st c" if "c \<noteq> co" for c using that by (simp add: kinds_def vacated_fields)
    then have "calls_ok cs (kinds (vacated co r s ro st)) (G(co := None))" using calls_less [OF cs(4) ne(2)] by blast
    moreover have "sk_pCallStack (vacated co r s ro st) = run # cs" using cs(1) by (simp add: vacated_fields)
    ultimately show ?thesis using vacate_inv [OF cs(3) r(1) ne(1) s co(3) that] cs(2) unfolding calls_inv_def by blast
  qed
  show "calls_inv st' (G(co := None))" if "ss_free co st = Ok st'"
  proof -
    have "st' = vacated co r s None st" using that r s by (auto simp: ss_free_def vacate_def routine_at_def mem_at_def vacated_def put_mem_def)
    then show ?thesis using gone [of None] by simp
  qed
  show "calls_inv st' (if \<exists>r. sk_routines st co = Some r \<and> sr_cStart r \<and> \<not> sr_cIsMain r then G(co := None) else G)" if "co_reset co st = Ok st'"
  proof (cases "sr_cStart r \<and> \<not> sr_cIsMain r")
    case True
    let ?r1 = "r\<lparr>sr_cStart := False, sr_cEnd := False\<rparr>"
    let ?r2 = "if sr_save_buffer ?r1 \<noteq> None then ?r1\<lparr>sr_save_buffer := None, sr_save_size := 0\<rparr> else ?r1"
    have "st' = vacated co r s (Some ?r2) st" using that r s True by (auto simp: co_reset_def Let_def vacate_def routine_at_def mem_at_def vacated_def put_mem_def put_routine_def)
    then show ?thesis using gone [of "Some ?r2"] True r(1) by auto
  next
    case False
    then show ?thesis using that r(1) inv by (auto simp: co_reset_def routine_at_def)
  qed
qed

lemma create_ok:
  assumes inv: "calls_inv st G" and co: "sk_routines st co = None" "set (sh_stack_array sh) \<subseteq> dom (sk_mems st)"
    and st': "ss_create_env co newmem sz (Some sh) st = Ok (sh', st')"
  shows "calls_inv st' G"
proof -
  obtain run cs where cs: "sk_pCallStack st = run # cs" "distinct (run # cs)" "stack_inv run st G" "calls_ok cs (kinds st) G" using inv by (auto simp: calls_inv_def)
  define m where "m = sh_stack_array sh ! (unat (sh_alloc_idx sh) mod length (sh_stack_array sh))"
  have "m \<in> set (sh_stack_array sh)" using st' unfolding m_def by (intro nth_mem) (auto simp: ss_create_env_def co_get_stackmem_def Let_def split: if_splits)
  then have m: "m \<in> dom (sk_mems st)" using co(2) by blast
  have st: "st' = put_routine co \<lparr>sr_cStart = False, sr_cEnd = False, sr_cIsMain = False, sr_cIsShareStack = True, sr_stack_mem = m,
                  sr_stack_sp = 0, sr_save_buffer = None, sr_save_size = 0\<rparr> st"
    using st' by (auto simp: ss_create_env_def co_get_stackmem_def Let_def m_def split: if_splits)
  have base: "base_inv {run} st G" "run \<in> dom (sk_routines st) - dom G" "occupies run st" using cs(3) by (simp_all add: stack_inv_def)
  have new: "co \<notin> dom G" "run \<noteq> co" using base_invD(1) [OF base(1)] base(2) co(1) by auto
  have "base_inv {run} st' G"
  proof (rule base_invI)
    show "routine_ok {run} st' G c r" if "sk_routines st' c = Some r" for c r
      using that base_invD(2) [OF base(1), of c r] m new(1) by (cases "c = co") (auto simp: st put_routine_def routine_ok_def)
    show "occupant_ok st' k oc" if "sk_mems st' k = Some s" "sm_occupy_co s = Some oc" for k s oc
      using that base_invD(3) [OF base(1), of k s oc] co(1) by (auto simp: st put_routine_def occupant_ok_def)
  qed (use base_invD(1) [OF base(1)] in \<open>auto simp: st put_routine_def\<close>)
  moreover have eq: "sk_routines st' run = sk_routines st run" "sk_mems st' = sk_mems st" using new(2) by (simp_all add: st put_routine_def)
  have "occupies run st'" using base(3) unfolding occupies_def eq .
  moreover have "run \<in> dom (sk_routines st') - dom G" using base(2) eq(1) by (simp add: domIff)
  moreover have "calls_ok cs (kinds st') G"
    using cs(4) co(1) unfolding calls_ok_def kinds_def st put_routine_def by fastforce
  moreover have "sk_pCallStack st' = run # cs" using cs(1) by (simp add: st put_routine_def)
  ultimately show ?thesis using cs(2) by (simp add: calls_inv_def stack_inv_def)
qed

section \<open>Properties\<close>

text \<open>What can happen: routines on shared stacks are created, resumed, yield, write to the stack that they run on, and are freed or reset when
that does no harm. \<open>G\<close> has the frames that each routine had when it left.\<close>

inductive ss_step :: "stacks \<times> (nat \<rightharpoonup> byte list) \<Rightarrow> stacks \<times> (nat \<rightharpoonup> byte list) \<Rightarrow> bool" where
  S_resume: "sk_pCallStack st = run # cs \<Longrightarrow> length (run # cs) < 128 \<Longrightarrow> co \<notin> set (run # cs) \<Longrightarrow> co \<in> dom (sk_routines st) \<Longrightarrow>
    (shared st run \<longrightarrow> sp \<le> length (frames st run 0)) \<Longrightarrow> ss_resume sp co st = Ok st' \<Longrightarrow> ss_step (st, G) (st', leave run sp co st G)"
| S_yield: "sk_pCallStack st = run # prev # cs \<Longrightarrow> (shared st run \<longrightarrow> sp \<le> length (frames st run 0)) \<Longrightarrow> ss_yield sp st = Ok st' \<Longrightarrow>
    ss_step (st, G) (st', leave run sp prev st G)"
| S_write: "sk_pCallStack st = run # cs \<Longrightarrow> sk_routines st run = Some r \<Longrightarrow> sr_cIsShareStack r \<Longrightarrow> sk_mems st (sr_stack_mem r) = Some s \<Longrightarrow>
    length b = length (sm_buffer s) \<Longrightarrow> ss_step (st, G) (put_mem (sr_stack_mem r) (s\<lparr>sm_buffer := b\<rparr>) st, G)"
| S_free: "co \<notin> set (sk_pCallStack st) \<Longrightarrow> shared st co \<Longrightarrow> unencumbered co st G \<Longrightarrow> ss_free co st = Ok st' \<Longrightarrow> ss_step (st, G) (st', G(co := None))"
| S_reset: "co \<notin> set (sk_pCallStack st) \<Longrightarrow> shared st co \<Longrightarrow> unencumbered co st G \<Longrightarrow> sk_routines st co = Some r \<Longrightarrow> sr_cStart r \<Longrightarrow> \<not> sr_cIsMain r \<Longrightarrow>
    co_reset co st = Ok st' \<Longrightarrow> ss_step (st, G) (st', G(co := None))"
| S_create: "sk_routines st co = None \<Longrightarrow> set (sh_stack_array sh) \<subseteq> dom (sk_mems st) \<Longrightarrow> ss_create_env co newmem sz (Some sh) st = Ok (sh', st') \<Longrightarrow>
    ss_step (st, G) (st', G)"

text \<open>At the start nothing but the main routine runs, on a stack of its own.\<close>

definition stacks_init :: "nat \<Rightarrow> stacks \<Rightarrow> bool" where
  "stacks_init main st \<longleftrightarrow> sk_pCallStack st = [main] \<and> kinds st main = Some False
     \<and> (\<forall>c r. sk_routines st c = Some r \<longrightarrow> sk_mems st (sr_stack_mem r) \<noteq> None \<and> (sr_cIsShareStack r \<longrightarrow> \<not> sr_cStart r))
     \<and> (\<forall>m s. sk_mems st m = Some s \<longrightarrow> sm_occupy_co s = None)"

lemma init_inv: "stacks_init main st \<Longrightarrow> calls_inv st Map.empty"
  by (auto simp: stacks_init_def calls_inv_def calls_ok_def stack_inv_def base_inv_def routine_ok_def occupies_def kinds_def)

lemma step_inv: "ss_step (st, G) (st', G') \<Longrightarrow> calls_inv st G \<Longrightarrow> calls_inv st' G'"
proof (induction "(st, G)" "(st', G')" arbitrary: st G st' G' rule: ss_step.induct)
  case (S_resume st run cs co sp st' G)
  then show ?case using resume_ok [of st G run cs co _ sp] by auto
next
  case (S_yield st run prev cs sp st' G)
  have "sk_routines st prev \<noteq> None" using S_yield by (auto simp: calls_inv_def calls_ok_def kinds_def)
  then show ?case using S_yield yield_ok [of st G run prev cs _ sp] by auto
next
  case (S_write st run cs r s b G)
  then show ?case using write_inv [of run st G r s b] by (auto simp: calls_inv_def) (simp_all add: put_mem_def)
next
  case (S_free co st G st')
  then show ?case using free_ok(1) by blast
next
  case (S_reset co st G r st')
  then show ?case using free_ok(2) [of st G co st'] by auto
next
  case (S_create st co sh newmem sz sh' st' G)
  then show ?case using create_ok by blast
qed

lemma steps_inv: "rtranclp ss_step x y \<Longrightarrow> calls_inv (fst x) (snd x) \<Longrightarrow> calls_inv (fst y) (snd y)"
  by (induction rule: rtranclp_induct) (auto dest: step_inv)

text \<open>C7: a coroutine on a shared stack finds its frames as it left them. In any run in which no routine is freed or reset while it
occupies a stack that others wait for, every routine that waits has frames to be kept, and a switch to it - by \<open>co_resume\<close>, or
by the \<open>co_yield\<close> of the routine that it has resumed - succeeds and puts exactly these bytes back at its stack pointer, whatever the other
routines on the stack have done meanwhile.\<close>

theorem shared_stack_preserved:
  assumes "stacks_init main st0" "rtranclp ss_step (st0, Map.empty) (st, G)" "sk_pCallStack st = run # cs" "shared st run \<longrightarrow> sp \<le> length (frames st run 0)"
  shows "(\<forall>co r. co \<notin> set (run # cs) \<longrightarrow> sk_routines st co = Some r \<longrightarrow> length (run # cs) < 128 \<longrightarrow>
       (sr_cIsShareStack r \<and> sr_cStart r \<longrightarrow> co \<in> dom G)
       \<and> (\<exists>st'. ss_resume sp co st = Ok st' \<and> (\<forall>g. G co = Some g \<longrightarrow> frames st' co (sr_stack_sp r) = g)))
   \<and> (\<forall>prev ps. cs = prev # ps \<longrightarrow> (\<exists>r st'. sk_routines st prev = Some r \<and> (sr_cIsShareStack r \<longrightarrow> prev \<in> dom G)
       \<and> ss_yield sp st = Ok st' \<and> (\<forall>g. G prev = Some g \<longrightarrow> frames st' prev (sr_stack_sp r) = g)))"
proof -
  have inv: "calls_inv st G" using steps_inv [OF assms(2)] init_inv [OF assms(1)] by simp
  then have st: "stack_inv run st G" "calls_ok cs (kinds st) G" using assms(3) by (auto simp: calls_inv_def)
  have 1: "(sr_cIsShareStack r \<and> sr_cStart r \<longrightarrow> co \<in> dom G) \<and> (\<exists>st'. ss_resume sp co st = Ok st' \<and> (\<forall>g. G co = Some g \<longrightarrow> frames st' co (sr_stack_sp r) = g))"
    if "co \<notin> set (run # cs)" "sk_routines st co = Some r" "length (run # cs) < 128" for co r
  proof
    have "routine_ok {run} st G co r" using base_invD(2) st(1) that(2) unfolding stack_inv_def by blast
    then show "sr_cIsShareStack r \<and> sr_cStart r \<longrightarrow> co \<in> dom G" using that(1) by (auto simp: routine_ok_def)
    show "\<exists>st'. ss_resume sp co st = Ok st' \<and> (\<forall>g. G co = Some g \<longrightarrow> frames st' co (sr_stack_sp r) = g)"
      using resume_ok [OF inv assms(3) that(3,1,2), of sp] assms(4) by blast
  qed
  have 2: "\<exists>r st'. sk_routines st prev = Some r \<and> (sr_cIsShareStack r \<longrightarrow> prev \<in> dom G) \<and> ss_yield sp st = Ok st' \<and> (\<forall>g. G prev = Some g \<longrightarrow> frames st' prev (sr_stack_sp r) = g)"
    if "cs = prev # ps" for prev ps
  proof -
    have "kinds st prev = Some False \<or> kinds st prev = Some True \<and> prev \<in> dom G" using st(2) that by (simp add: calls_ok_def)
    then obtain r where r: "sk_routines st prev = Some r" "sr_cIsShareStack r \<longrightarrow> prev \<in> dom G" by (auto simp: kinds_def)
    then show ?thesis using yield_ok [of st G run prev ps r sp] inv assms(3,4) that by auto
  qed
  show ?thesis using 1 2 by blast
qed

text \<open>The stack of a routine: whole pages, and as much as has been asked for, up to 8 MB.\<close>

lemma and_plus_and_not: "(a AND b) + (a AND NOT b) = (a :: int)"
proof -
  have "(a AND b) + (a AND NOT b) = (a AND b) OR (a AND NOT b)" by (rule disjunctive_add_eq_or) (auto simp: bit_eq_iff bit_simps)
  also have "\<dots> = a" by (auto simp: bit_eq_iff bit_simps)
  finally show ?thesis .
qed

lemma env_stack_size_mod:
  "env_stack_size sz = (let n = (if sz \<le> 0 then 131072 else min sz 8388608) in if n mod 4096 = 0 then n else n - n mod 4096 + 4096)"
proof -
  have m: "n AND 0xFFF = n mod 4096" for n :: int using take_bit_eq_mask [of 12 n] by (simp add: take_bit_eq_mod mask_eq_exp_minus_1)
  have "n AND NOT 0xFFF = n - n mod 4096" for n :: int using and_plus_and_not [of n "0xFFF"] unfolding m by linarith
  with m show ?thesis by (simp add: env_stack_size_def Let_def min_def)
qed

lemma whole_pages:
  fixes n :: int
  assumes "0 < n" "n \<le> 8388608"
  defines "v \<equiv> if n mod 4096 = 0 then n else n - n mod 4096 + 4096"
  shows "4096 \<le> v \<and> v \<le> 8388608 \<and> v mod 4096 = 0 \<and> n \<le> v"
proof -
  define q r where "q = n div 4096" and "r = n mod 4096"
  have n: "n = 4096 * q + r" "0 \<le> r" "r < 4096" by (simp_all add: q_def r_def)
  have v: "v = (if r = 0 then 4096 * q else 4096 * (q + 1))" using n by (simp add: v_def r_def [symmetric])
  have "0 < q \<or> r \<noteq> 0" "q \<le> 2048" "r \<noteq> 0 \<Longrightarrow> q \<le> 2047" "0 \<le> q" using assms(1,2) n by linarith+
  then show ?thesis using n unfolding v by (cases "r = 0") auto
qed

lemma env_stack_size_bounds:
  "4096 \<le> env_stack_size sz \<and> env_stack_size sz \<le> 8388608 \<and> env_stack_size sz mod 4096 = 0 \<and> min sz 8388608 \<le> env_stack_size sz"
  using whole_pages [of "if sz \<le> 0 then 131072 else min sz 8388608"] unfolding env_stack_size_mod Let_def by (auto simp: min_def split: if_splits)

section \<open>A stack that is lost\<close>

definition demo_stacks :: stacks where
  "demo_stacks = \<lparr>sk_routines = (\<lambda>c. if c = 0 then Some \<lparr>sr_cStart = False, sr_cEnd = False, sr_cIsMain = True, sr_cIsShareStack = False, sr_stack_mem = 8,
         sr_stack_sp = 0, sr_save_buffer = None, sr_save_size = 0\<rparr>
       else if c = 1 \<or> c = 2 then Some \<lparr>sr_cStart = False, sr_cEnd = False, sr_cIsMain = False, sr_cIsShareStack = True, sr_stack_mem = 9,
         sr_stack_sp = 0, sr_save_buffer = None, sr_save_size = 0\<rparr> else None),
     sk_mems = [8 \<mapsto> \<lparr>sm_occupy_co = None, sm_buffer = []\<rparr>, 9 \<mapsto> \<lparr>sm_occupy_co = None, sm_buffer = [0, 0, 0, 0]\<rparr>],
     sk_pCallStack = [0], sk_pending_co = None, sk_occupy_co = None\<rparr>"

text \<open>The running routine overwrites stack 9.\<close>

definition fill :: "byte list \<Rightarrow> stacks \<Rightarrow> stacks" where
  "fill b st = (case sk_mems st 9 of None \<Rightarrow> st | Some s \<Rightarrow> put_mem 9 (s\<lparr>sm_buffer := b\<rparr>) st)"

text \<open>Routine 1 runs and leaves the frames \<open>[3, 4]\<close>; routine 2 runs on the same stack.\<close>

definition two_on_a_stack :: "stacks outcome" where
  "two_on_a_stack = obind (ss_resume 0 1 demo_stacks) (\<lambda>st. obind (ss_yield 2 (fill [1, 2, 3, 4] st)) (\<lambda>st.
     obind (ss_resume 0 2 st) (\<lambda>st. ss_yield 1 (fill [9, 9, 9, 9] st))))"

lemmas ss_ops = ss_resume_def ss_yield_def swap_out_def swap_in_def save_stack_buffer_def ss_free_def vacate_def routine_at_def mem_at_def
  put_routine_def put_mem_def fill_def frames_def

lemma resumed_stack_found: "\<exists>st'. obind two_on_a_stack (ss_resume 0 1) = Ok st' \<and> frames st' 1 2 = [3, 4]"
  by (simp add: two_on_a_stack_def demo_stacks_def ss_ops mem_write_def)

text \<open>When routine 2, which has ended and occupies the stack, is freed, the frames of routine 1 are not copied back: \<open>co_free\<close> forgets who
occupied the stack, and \<open>co_swap\<close> takes this to mean that nobody has used it.\<close>

lemma freed_occupant_loses_stack:
  "\<exists>st'. obind two_on_a_stack (\<lambda>st. obind (ss_free 2 st) (ss_resume 0 1)) = Ok st' \<and> frames st' 1 2 = [9, 9]"
  by (simp add: two_on_a_stack_def demo_stacks_def ss_ops mem_write_def)

text \<open>What the operations of the example look at.\<close>

definition demo_view :: "stacks \<Rightarrow> nat list \<Rightarrow> sroutine \<Rightarrow> sroutine \<Rightarrow> nat option \<Rightarrow> byte list \<Rightarrow> bool" where
  "demo_view st cs r1 r2 oc b \<longleftrightarrow> sk_pCallStack st = cs \<and> sk_routines st 1 = Some r1 \<and> sk_routines st 2 = Some r2
     \<and> (\<exists>r. sk_routines st 0 = Some r \<and> \<not> sr_cIsShareStack r) \<and> sk_mems st 9 = Some \<lparr>sm_occupy_co = oc, sm_buffer = b\<rparr>"

definition demo_routine :: "bool \<Rightarrow> nat \<Rightarrow> byte list option \<Rightarrow> nat \<Rightarrow> sroutine" where
  "demo_routine started sp buf n = \<lparr>sr_cStart = started, sr_cEnd = False, sr_cIsMain = False, sr_cIsShareStack = True, sr_stack_mem = 9,
         sr_stack_sp = sp, sr_save_buffer = buf, sr_save_size = n\<rparr>"

lemma demo_init: "stacks_init 0 demo_stacks" "demo_view demo_stacks [0] (demo_routine False 0 None 0) (demo_routine False 0 None 0) None [0, 0, 0, 0]"
  by (auto simp: stacks_init_def demo_stacks_def demo_view_def demo_routine_def kinds_def split: if_splits)

lemma demo_resume:
  assumes "demo_view st [0] (demo_routine s1 sp1 b1 n1) (demo_routine False 0 None 0) oc b" "sp1 \<le> length b" "co = 1 \<and> oc = None \<and> \<not> s1 \<or> co = 2 \<and> oc = Some 1"
  shows "\<exists>st'. ss_step (st, G) (st', G(co := None)) \<and> (if co = 1 then demo_view st' [1, 0] (demo_routine True sp1 b1 n1) (demo_routine False 0 None 0) (Some 1) b
     else demo_view st' [2, 0] (demo_routine s1 sp1 (Some (drop sp1 b)) (length b - sp1)) (demo_routine True 0 None 0) (Some 2) b)"
proof -
  obtain r where r: "sk_routines st 0 = Some r" "\<not> sr_cIsShareStack r" using assms(1) by (auto simp: demo_view_def)
  have "co \<in> dom (sk_routines st)" "shared st 0 \<longrightarrow> 0 \<le> length (frames st 0 0)" "leave 0 0 co st G = G(co := None)"
    using assms r by (auto simp: demo_view_def leave_def shared_def)
  moreover have "\<exists>st'. ss_resume 0 co st = Ok st' \<and> (if co = 1 then demo_view st' [1, 0] (demo_routine True sp1 b1 n1) (demo_routine False 0 None 0) (Some 1) b
     else demo_view st' [2, 0] (demo_routine s1 sp1 (Some (drop sp1 b)) (length b - sp1)) (demo_routine True 0 None 0) (Some 2) b)"
    using assms r by (auto simp: demo_view_def demo_routine_def ss_ops)
  ultimately show ?thesis using assms(1,3) S_resume [of st 0 "[]" co 0 _ G] by (auto simp: demo_view_def)
qed

lemma demo_yield:
  assumes "demo_view st [c, 0] (demo_routine s1 sp1 b1 n1) (demo_routine s2 sp2 b2 n2) oc b" "sp \<le> length b" "c = 1 \<or> c = 2"
  shows "\<exists>st'. ss_step (st, G) (st', G(c \<mapsto> drop sp b, 0 := None))
     \<and> demo_view st' [0] (demo_routine s1 (if c = 1 then sp else sp1) b1 n1) (demo_routine s2 (if c = 2 then sp else sp2) b2 n2) oc b"
proof -
  obtain r where r: "sk_routines st 0 = Some r" "\<not> sr_cIsShareStack r" using assms(1) by (auto simp: demo_view_def)
  have "shared st c \<longrightarrow> sp \<le> length (frames st c 0)" "leave c sp 0 st G = G(c \<mapsto> drop sp b, 0 := None)"
    using assms r by (auto simp: demo_view_def demo_routine_def leave_def shared_def frames_def)
  moreover have "\<exists>st'. ss_yield sp st = Ok st'
     \<and> demo_view st' [0] (demo_routine s1 (if c = 1 then sp else sp1) b1 n1) (demo_routine s2 (if c = 2 then sp else sp2) b2 n2) oc b"
    using assms r by (auto simp: demo_view_def demo_routine_def ss_ops)
  ultimately show ?thesis using assms(1) S_yield [of st c 0 "[]" sp _ G] by (auto simp: demo_view_def)
qed

lemma demo_write:
  assumes "demo_view st [c, 0] (demo_routine s1 sp1 b1 n1) (demo_routine s2 sp2 b2 n2) oc b" "length b' = length b" "c = 1 \<or> c = 2"
  shows "\<exists>st'. ss_step (st, G) (st', G) \<and> demo_view st' [c, 0] (demo_routine s1 sp1 b1 n1) (demo_routine s2 sp2 b2 n2) oc b'"
proof -
  let ?st = "put_mem 9 \<lparr>sm_occupy_co = oc, sm_buffer = b'\<rparr> st"
  have "ss_step (st, G) (?st, G)"
    using assms S_write [of st c "[0]" "if c = 1 then demo_routine s1 sp1 b1 n1 else demo_routine s2 sp2 b2 n2" "\<lparr>sm_occupy_co = oc, sm_buffer = b\<rparr>" b' G]
    by (auto simp: demo_view_def demo_routine_def)
  then show ?thesis using assms by (intro exI [of _ ?st]) (simp add: demo_view_def put_mem_def)
qed

theorem shared_stack_preserved_witness:
  "\<exists>st G. rtranclp ss_step (demo_stacks, Map.empty) (st, G) \<and> G 1 = Some [3, 4] \<and> sk_mems st 9 = Some \<lparr>sm_occupy_co = Some 2, sm_buffer = [9, 9, 9, 9]\<rparr>
     \<and> (\<exists>st'. ss_resume 0 1 st = Ok st' \<and> frames st' 1 2 = [3, 4])"
proof -
  define G1 G3 G4 G6 :: "nat \<rightharpoonup> byte list" where G: "G1 = Map.empty(1 := None)" "G3 = G1(1 \<mapsto> drop 2 [1, 2, 3, 4], 0 := None)" "G4 = G3(2 := None)"
    "G6 = G4(2 \<mapsto> drop 1 [9, 9, 9, 9], 0 := None)"
  obtain s1 where 1: "ss_step (demo_stacks, Map.empty) (s1, G1)" "demo_view s1 [1, 0] (demo_routine True 0 None 0) (demo_routine False 0 None 0) (Some 1) [0, 0, 0, 0]"
    using demo_resume [OF demo_init(2), of 1 Map.empty] unfolding G by auto
  obtain s2 where 2: "ss_step (s1, G1) (s2, G1)" "demo_view s2 [1, 0] (demo_routine True 0 None 0) (demo_routine False 0 None 0) (Some 1) [1, 2, 3, 4]"
    using demo_write [OF 1(2), of "[1, 2, 3, 4]" G1] by auto
  obtain s3 where 3: "ss_step (s2, G1) (s3, G3)" "demo_view s3 [0] (demo_routine True 2 None 0) (demo_routine False 0 None 0) (Some 1) [1, 2, 3, 4]"
    using demo_yield [OF 2(2), of 2 G1] unfolding G(2) by auto
  obtain s4 where 4: "ss_step (s3, G3) (s4, G4)" "demo_view s4 [2, 0] (demo_routine True 2 (Some [3, 4]) (Suc (Suc 0))) (demo_routine True 0 None 0) (Some 2) [1, 2, 3, 4]"
    using demo_resume [OF 3(2), of 2 G3] unfolding G(3) by auto
  obtain s5 where 5: "ss_step (s4, G4) (s5, G4)" "demo_view s5 [2, 0] (demo_routine True 2 (Some [3, 4]) (Suc (Suc 0))) (demo_routine True 0 None 0) (Some 2) [9, 9, 9, 9]"
    using demo_write [OF 4(2), of "[9, 9, 9, 9]" G4] by auto
  obtain s6 where 6: "ss_step (s5, G4) (s6, G6)" "demo_view s6 [0] (demo_routine True 2 (Some [3, 4]) (Suc (Suc 0))) (demo_routine True 1 None 0) (Some 2) [9, 9, 9, 9]"
    using demo_yield [OF 5(2), of 1 G4] unfolding G(4) by auto
  have steps: "rtranclp ss_step (demo_stacks, Map.empty) (s6, G6)" using 1(1) 2(1) 3(1) 4(1) 5(1) 6(1) by (meson converse_rtranclp_into_rtranclp rtranclp.rtrancl_refl)
  have v: "sk_pCallStack s6 = [0]" "sk_routines s6 1 = Some (demo_routine True 2 (Some [3, 4]) (Suc (Suc 0)))" "sk_mems s6 9 = Some \<lparr>sm_occupy_co = Some 2, sm_buffer = [9, 9, 9, 9]\<rparr>"
    "\<not> shared s6 0" using 6(2) by (auto simp: demo_view_def shared_def)
  have g: "G6 1 = Some [3, 4]" by (simp add: G)
  have "\<exists>st'. ss_resume 0 1 s6 = Ok st' \<and> (\<forall>g. G6 1 = Some g \<longrightarrow> frames st' 1 (sr_stack_sp (demo_routine True 2 (Some [3, 4]) (Suc (Suc 0)))) = g)"
    using conjunct1 [OF shared_stack_preserved [OF demo_init(1) steps v(1), of 0], rule_format, OF _ _ v(2)] v(4) by simp
  then have "\<exists>st'. ss_resume 0 1 s6 = Ok st' \<and> frames st' 1 2 = [3, 4]" unfolding g by (simp add: demo_routine_def)
  then show ?thesis using steps v(3) g by (intro exI [of _ s6] exI [of _ G6]) simp
qed

end
