(* ===== verification/Message_Buffer.thy ===== *)
theory Message_Buffer
  imports Message_Block
begin

text \<open>
  The chain of byte blocks \<open>LLBC_MessageBuffer\<close> (llbc/core/thread/MessageBuffer.cpp), in which a socket keeps what it
  has not sent yet. The chain from \<open>_head\<close> along the links of the blocks to \<open>_tail\<close> is a list of blocks; both pointers are null
  for the empty list.

  The contract is that of a queue of bytes: \<open>msg_buffer_byte_queue\<close>, over the contract \<open>byte_fifo\<close> of the blocks.
\<close>

section \<open>The buffer and its operations\<close>

record msg_buffer =
  mf_size :: nat
  mf_blocks :: "msg_block list"

definition MessageBuffer_new :: msg_buffer where
  "MessageBuffer_new = \<lparr>mf_size = 0, mf_blocks = []\<rparr>"

definition RESIZE_LIMIT :: nat where
  "RESIZE_LIMIT = 8 * 1024"

text \<open>A read of a block whose result is ignored; when it fails, nothing is stored at the destination.\<close>

definition block_read :: "nat \<Rightarrow> msg_block \<Rightarrow> byte list \<times> msg_block" where
  "block_read n b = (case mb_Read True n b of Inl e \<Rightarrow> (replicate n junk_byte, b) | Inr r \<Rightarrow> r)"

text \<open>A write whose result is ignored.\<close>

definition block_write :: "byte list \<Rightarrow> msg_block \<Rightarrow> msg_block outcome" where
  "block_write bs b = obind (mb_Write (Some bs) (length bs) b) (\<lambda>r. Ok (case r of Inl e \<Rightarrow> b | Inr b' \<Rightarrow> b'))"

text \<open>The loop of \<open>Read\<close>: the bytes, what is still needed, and the blocks that are left.\<close>

fun read_blocks :: "nat \<Rightarrow> msg_block list \<Rightarrow> byte list \<times> nat \<times> msg_block list" where
  "read_blocks need [] = ([], need, [])"
| "read_blocks need (b # bs) = (if need = 0 then ([], 0, b # bs)
     else let avail = size_sub (mb_writePos b) (mb_readPos b) in
       if need \<le> avail then let (d, b') = block_read need b in (d, 0, if avail = need then bs else b' # bs)
       else let (d, b') = block_read avail b; (ds, rest, bs') = read_blocks (need - avail) bs in (d @ ds, rest, bs'))"

text \<open>\<open>Read\<close> gives the bytes, their number being the result, and the last error.\<close>

definition mf_Read :: "bool \<Rightarrow> nat \<Rightarrow> msg_buffer \<Rightarrow> (byte list \<times> llbc_error \<times> msg_buffer) outcome" where
  "mf_Read dst len m = (if \<not> dst then Ok ([], ERROR_ARG, m)
     else if len = 0 then Ok ([], ERROR_SUCCESS, m)
     else let (d, rest, bs) = read_blocks len (mf_blocks m) in
       if mf_size m < len - rest then Fault AssertFail
       else Ok (d, if 0 < rest then ERROR_NO_SUCH else ERROR_SUCCESS, \<lparr>mf_size = mf_size m - (len - rest), mf_blocks = bs\<rparr>))"

definition mf_Append :: "msg_block option \<Rightarrow> msg_buffer \<Rightarrow> msg_buffer result outcome" where
  "mf_Append block m = (case block of None \<Rightarrow> Ok (Inl ERROR_ARG)
     | Some b \<Rightarrow> if mb_GetReadableSize b = 0 then Ok (Inr m)
         else let m1 = m\<lparr>mf_size := mf_size m + mb_GetReadableSize b\<rparr> in
           case rev (mf_blocks m) of [] \<Rightarrow> Ok (Inr (m1\<lparr>mf_blocks := [b]\<rparr>))
           | t # ts \<Rightarrow> if mb_GetReadableSize b \<le> mb_GetWritableSize t
               then obind (block_write (mem_read (mb_buf b) (mb_readPos b) (mb_GetReadableSize b)) t) (\<lambda>t'.
                 Ok (Inr (m1\<lparr>mf_blocks := rev ts @ [t']\<rparr>)))
               else Ok (Inr (m1\<lparr>mf_blocks := mf_blocks m @ [b]\<rparr>)))"

definition mf_Write :: "byte list option \<Rightarrow> nat \<Rightarrow> msg_buffer \<Rightarrow> msg_buffer result outcome" where
  "mf_Write buf len m = (case buf of None \<Rightarrow> Ok (Inl ERROR_ARG)
     | Some src \<Rightarrow> let bs = take len src in
         if len = 0 then Ok (Inr m)
         else case rev (mf_blocks m) of
           [] \<Rightarrow> obind (block_write bs (MessageBlock_new len)) (\<lambda>t. Ok (Inr \<lparr>mf_size = len, mf_blocks = [t]\<rparr>))
         | t # ts \<Rightarrow>
             if len \<le> mb_GetWritableSize t
             then obind (block_write bs t) (\<lambda>t'. Ok (Inr \<lparr>mf_size = mf_size m + len, mf_blocks = rev ts @ [t']\<rparr>))
             else if mb_writePos t + len < RESIZE_LIMIT
             then obind (mb_Resize (min (max (mb_writePos t + len) (mb_size t * 2)) RESIZE_LIMIT) t) (\<lambda>t1.
                  obind (block_write bs t1) (\<lambda>t'. Ok (Inr \<lparr>mf_size = mf_size m + len, mf_blocks = rev ts @ [t']\<rparr>)))
             else obind (block_write bs (MessageBlock_new len)) (\<lambda>b. mf_Append (Some b) m))"

definition mf_DetachFirstBlock :: "msg_buffer \<Rightarrow> msg_block option \<times> msg_buffer" where
  "mf_DetachFirstBlock m = (case mf_blocks m of [] \<Rightarrow> (None, m)
     | b # bs \<Rightarrow> (Some b, \<lparr>mf_size = size_sub (mf_size m) (mb_GetReadableSize b), mf_blocks = bs\<rparr>))"

primrec merge_blocks :: "msg_block list \<Rightarrow> msg_block \<Rightarrow> msg_block outcome" where
  "merge_blocks [] merged = Ok merged"
| "merge_blocks (b # bs) merged =
     obind (block_write (mem_read (mb_buf b) (mb_readPos b) (size_sub (mb_writePos b) (mb_readPos b))) merged) (merge_blocks bs)"

definition mf_MergeBlocksAndDetach :: "msg_buffer \<Rightarrow> (msg_block option \<times> msg_buffer) outcome" where
  "mf_MergeBlocksAndDetach m = (case mf_blocks m of [] \<Rightarrow> Ok (None, m)
     | b # bs \<Rightarrow> obind (merge_blocks bs b) (\<lambda>merged. Ok (Some merged, \<lparr>mf_size = 0, mf_blocks = []\<rparr>)))"

fun remove_blocks :: "nat \<Rightarrow> msg_block list \<Rightarrow> nat \<times> msg_block list" where
  "remove_blocks need [] = (need, [])"
| "remove_blocks need (b # bs) = (if need = 0 then (0, b # bs)
     else let avail = size_sub (mb_writePos b) (mb_readPos b) in
       if need \<le> avail
       then let b' = (case mb_SetReadPos (mb_readPos b + need) b of Inl e \<Rightarrow> b | Inr b' \<Rightarrow> b') in (0, if avail = need then bs else b' # bs)
       else remove_blocks (need - avail) bs)"

definition mf_Remove :: "nat \<Rightarrow> msg_buffer \<Rightarrow> (nat \<times> llbc_error \<times> msg_buffer) outcome" where
  "mf_Remove len m = (if len = 0 then Ok (0, ERROR_ARG, m)
     else let (rest, bs) = remove_blocks len (mf_blocks m) in
       if mf_size m < len - rest then Fault AssertFail
       else Ok (len - rest, if 0 < rest then ERROR_NO_SUCH else ERROR_SUCCESS, \<lparr>mf_size = mf_size m - (len - rest), mf_blocks = bs\<rparr>))"

definition mf_Cleanup :: "msg_buffer \<Rightarrow> msg_buffer" where
  "mf_Cleanup m = (if mf_blocks m = [] then m else \<lparr>mf_size = 0, mf_blocks = []\<rparr>)"

section \<open>The invariant\<close>

text \<open>No block of the chain is empty, and \<open>_size\<close> is the number of bytes in it.\<close>

definition mb_live :: "msg_block \<Rightarrow> bool" where
  "mb_live b \<longleftrightarrow> mb_own b \<and> mb_data b \<noteq> [] \<and> mb_size b < npos"

definition mf_data :: "msg_buffer \<Rightarrow> byte list" where
  "mf_data m = concat (map mb_data (mf_blocks m))"

definition mf_ok :: "msg_buffer \<Rightarrow> bool" where
  "mf_ok m \<longleftrightarrow> list_all mb_live (mf_blocks m) \<and> mf_size m = length (mf_data m)"

lemma live_avail:
  "mb_live b \<Longrightarrow> size_sub (mb_writePos b) (mb_readPos b) = length (mb_data b)"
  "mb_live b \<Longrightarrow> mb_GetReadableSize b = length (mb_data b)"
  "mb_live b \<Longrightarrow> mem_read (mb_buf b) (mb_readPos b) (length (mb_data b)) = mb_data b"
  by (auto simp: mb_live_def mb_defs mb_GetReadableSize_def length_mem_read)

lemma block_write_ok:
  assumes "mb_own b"
  shows "\<exists>b'. block_write bs b = Ok b' \<and> mb_own b' \<and> mb_data b' = mb_data b @ bs
    \<and> (mb_writePos b + length bs \<le> mb_size b \<longrightarrow> mb_size b' = mb_size b)"
  using block.put_data [OF assms, of bs] by (auto simp: block_write_def) (auto simp: mb_Write_def split: if_splits)

lemma new_block_ok:
  assumes "bs \<noteq> []" "length bs < npos"
  shows "\<exists>b. block_write bs (MessageBlock_new (length bs)) = Ok b \<and> mb_live b \<and> mb_data b = bs"
proof -
  have n: "mb_own (MessageBlock_new (length bs))" "mb_data (MessageBlock_new (length bs)) = []" by (simp_all add: MessageBlock_new_def mb_defs)
  show ?thesis using block_write_ok [OF n(1), of bs] n(2) assms by (auto simp: mb_live_def MessageBlock_new_def)
qed

lemma block_read_ok:
  assumes "mb_live b" "n \<le> length (mb_data b)"
  shows "\<exists>b'. block_read n b = (take n (mb_data b), b') \<and> mb_own b' \<and> mb_data b' = drop n (mb_data b) \<and> mb_size b' = mb_size b"
proof -
  have "mb_own b" using assms(1) by (simp add: mb_live_def)
  from block.get_data [OF this assms(2)] obtain b' where "mb_Read True n b = Inr (take n (mb_data b), b')" "mb_own b'" "mb_data b' = drop n (mb_data b)" by blast
  then show ?thesis by (auto simp: block_read_def) (auto simp: mb_Read_def split: if_splits)
qed

lemma SetReadPos_ok:
  assumes "mb_live b" "n \<le> length (mb_data b)"
  shows "\<exists>b'. mb_SetReadPos (mb_readPos b + n) b = Inr b' \<and> mb_own b' \<and> mb_data b' = drop n (mb_data b) \<and> mb_size b' = mb_size b"
proof -
  have "n \<le> mb_writePos b - mb_readPos b" "mb_readPos b \<le> mb_writePos b" "mb_writePos b \<le> mb_size b" "mb_size b < npos"
    using assms length_mb_data [of b] by (auto simp: mb_live_def mb_defs mb_GetReadableSize_def split: if_splits)
  then show ?thesis using assms(1) by (auto simp: mb_SetReadPos_def mb_live_def mb_defs mem_read_def drop_take add.commute)
qed

lemma read_blocks_ok:
  "list_all mb_live bs \<Longrightarrow> \<exists>bs'. read_blocks n bs = (take n (concat (map mb_data bs)), n - length (concat (map mb_data bs)), bs')
     \<and> list_all mb_live bs' \<and> concat (map mb_data bs') = drop n (concat (map mb_data bs))"
proof (induction bs arbitrary: n)
  case (Cons b bs)
  have b: "mb_live b" "list_all mb_live bs" using Cons.prems by simp_all
  show ?case
  proof (cases "n \<le> length (mb_data b)")
    case True
    obtain b' where b': "block_read n b = (take n (mb_data b), b')" "mb_own b'" "mb_data b' = drop n (mb_data b)" "mb_size b' = mb_size b"
      using block_read_ok [OF b(1) True] by blast
    have "n \<noteq> length (mb_data b) \<Longrightarrow> mb_live b'" using b' True b(1) by (simp add: mb_live_def)
    then show ?thesis using b' True b by (cases "n = 0"; cases "n = length (mb_data b)") (auto simp: live_avail(1))
  next
    case False
    obtain b' where "block_read (length (mb_data b)) b = (mb_data b, b')" using block_read_ok [OF b(1) order_refl] by auto
    then show ?thesis using False Cons.IH [OF b(2), of "n - length (mb_data b)"] b(1) by (auto simp: live_avail(1) Let_def)
  qed
qed simp

lemma remove_blocks_ok:
  "list_all mb_live bs \<Longrightarrow> \<exists>bs'. remove_blocks n bs = (n - length (concat (map mb_data bs)), bs')
     \<and> list_all mb_live bs' \<and> concat (map mb_data bs') = drop n (concat (map mb_data bs))"
proof (induction bs arbitrary: n)
  case (Cons b bs)
  have b: "mb_live b" "list_all mb_live bs" using Cons.prems by simp_all
  show ?case
  proof (cases "n \<le> length (mb_data b)")
    case True
    obtain b' where b': "mb_SetReadPos (mb_readPos b + n) b = Inr b'" "mb_own b'" "mb_data b' = drop n (mb_data b)" "mb_size b' = mb_size b"
      using SetReadPos_ok [OF b(1) True] by blast
    have "n \<noteq> length (mb_data b) \<Longrightarrow> mb_live b'" using b' True b(1) by (simp add: mb_live_def)
    then show ?thesis using b' True b by (cases "n = 0"; cases "n = length (mb_data b)") (auto simp: live_avail(1))
  next
    case False
    then show ?thesis using Cons.IH [OF b(2), of "n - length (mb_data b)"] b(1) by (auto simp: live_avail(1) Let_def)
  qed
qed simp

lemma merge_blocks_ok:
  "mb_own b \<Longrightarrow> list_all mb_live bs \<Longrightarrow> \<exists>b'. merge_blocks bs b = Ok b' \<and> mb_data b' = mb_data b @ concat (map mb_data bs)"
proof (induction bs arbitrary: b)
  case (Cons c bs)
  have c: "mb_live c" "list_all mb_live bs" using Cons.prems by simp_all
  obtain b1 where b1: "block_write (mb_data c) b = Ok b1" "mb_own b1" "mb_data b1 = mb_data b @ mb_data c" using block_write_ok [OF Cons.prems(1)] by blast
  then show ?case using Cons.IH [OF b1(2) c(2)] by (simp add: live_avail(1,3) [OF c(1)])
qed simp

lemma rev_snoc: "rev xs = t # ts \<Longrightarrow> xs = rev ts @ [t]"
  by (metis rev.simps(2) rev_rev_ident)

lemma mf_ok_simp: "mf_ok \<lparr>mf_size = n, mf_blocks = bs\<rparr> \<longleftrightarrow> list_all mb_live bs \<and> n = length (concat (map mb_data bs))"
  by (simp add: mf_ok_def mf_data_def)

lemma tail_write:
  assumes "mb_live t" "bs \<noteq> []" "mb_writePos t + length bs \<le> mb_size t"
  shows "\<exists>t'. block_write bs t = Ok t' \<and> mb_live t' \<and> mb_data t' = mb_data t @ bs"
  using block_write_ok [of t bs] assms by (auto simp: mb_live_def)

lemma mf_Append_ok:
  assumes m: "mf_ok m" and b: "mb_own b" "mb_size b < npos"
  shows "\<exists>m'. mf_Append (Some b) m = Ok (Inr m') \<and> mf_ok m' \<and> mf_data m' = mf_data m @ mb_data b"
proof (cases "mb_data b = []")
  case True
  then show ?thesis using m b(1) by (simp add: mf_Append_def mb_readable)
next
  case False
  have live: "mb_live b" using b False by (simp add: mb_live_def)
  note r = live_avail(2,3) [OF live]
  show ?thesis
  proof (cases "rev (mf_blocks m)")
    case Nil
    then show ?thesis using m live False r by (simp add: mf_Append_def mf_ok_def mf_data_def)
  next
    case (Cons t ts)
    note bl = rev_snoc [OF Cons]
    have t: "mb_live t" "list_all mb_live ts" using m bl by (simp_all add: mf_ok_def)
    show ?thesis
    proof (cases "length (mb_data b) \<le> mb_GetWritableSize t")
      case True
      have "mb_writePos t + length (mb_data b) \<le> mb_size t" using True t(1) by (auto simp: mb_GetWritableSize_def mb_live_def mb_defs)
      from tail_write [OF t(1) False this] obtain t' where "block_write (mb_data b) t = Ok t'" "mb_live t'" "mb_data t' = mb_data t @ mb_data b" by blast
      then show ?thesis using True Cons bl m r t(2) False by (simp add: mf_Append_def mf_ok_def mf_data_def)
    next
      case False
      then show ?thesis using Cons bl m r live by (simp add: mf_Append_def mf_ok_def mf_data_def)
    qed
  qed
qed

lemma mf_Write_ok:
  assumes m: "mf_ok m" and bs: "length bs < npos"
  shows "\<exists>m'. mf_Write (Some bs) (length bs) m = Ok (Inr m') \<and> mf_ok m' \<and> mf_data m' = mf_data m @ bs"
proof (cases "bs = []")
  case True
  then show ?thesis using m by (simp add: mf_Write_def)
next
  case False
  obtain b where b: "block_write bs (MessageBlock_new (length bs)) = Ok b" "mb_live b" "mb_data b = bs" using new_block_ok [OF False bs] by blast
  show ?thesis
  proof (cases "rev (mf_blocks m)")
    case Nil
    then show ?thesis using m b False by (simp add: mf_Write_def mf_ok_def mf_data_def)
  next
    case (Cons t ts)
    note bl = rev_snoc [OF Cons]
    have t: "mb_live t" "list_all mb_live ts" using m bl by (simp_all add: mf_ok_def)
    have wp: "mb_writePos t \<le> mb_size t" "mb_own t" "mb_size t < npos" using t(1) by (simp_all add: mb_live_def mb_defs)
    consider "length bs \<le> mb_GetWritableSize t" | "\<not> length bs \<le> mb_GetWritableSize t" "mb_writePos t + length bs < RESIZE_LIMIT"
      | "\<not> length bs \<le> mb_GetWritableSize t" "\<not> mb_writePos t + length bs < RESIZE_LIMIT" by blast
    then show ?thesis
    proof cases
      case 1
      then have "mb_writePos t + length bs \<le> mb_size t" using wp(1) by (simp add: mb_GetWritableSize_def)
      from tail_write [OF t(1) False this] show ?thesis using 1 False Cons bl m t(2) by (auto simp: mf_Write_def mf_ok_def mf_data_def)
    next
      case 2
      let ?n = "min (max (mb_writePos t + length bs) (mb_size t * 2)) RESIZE_LIMIT"
      have n: "mb_size t < ?n" "mb_writePos t + length bs \<le> ?n" "?n < npos" using 2 wp(1) by (auto simp: mb_GetWritableSize_def RESIZE_LIMIT_def npos_def)
      obtain t1 where t1: "mb_Resize ?n t = Ok t1" "mb_live t1" "mb_data t1 = mb_data t" "mb_writePos t1 + length bs \<le> mb_size t1"
        using mb_Resize_ok [OF wp(2) n(1)] t(1) n(2,3) by (auto simp: mb_live_def)
      from tail_write [OF t1(2) False t1(4)] show ?thesis using 2 False Cons bl m t(2) t1 by (auto simp: mf_Write_def mf_ok_def mf_data_def)
    next
      case 3
      then show ?thesis using mf_Append_ok [OF m, of b] b False Cons by (auto simp: mf_Write_def mb_live_def)
    qed
  qed
qed

section \<open>A queue of bytes\<close>

datatype buf_op = B_Write "byte list" | B_Append msg_block | B_Read nat | B_Remove nat | B_Detach | B_Merge | B_Cleanup

text \<open>What an operation gives: bytes (read, or of the block that it returns), how many have been removed, and the error.\<close>

datatype buf_out = O_None | O_Bytes "byte list" llbc_error | O_Removed nat llbc_error | O_Block "byte list option"

primrec run_bop :: "buf_op \<Rightarrow> msg_buffer \<Rightarrow> (buf_out \<times> msg_buffer) outcome" where
  "run_bop (B_Write bs) m = obind (mf_Write (Some bs) (length bs) m) (\<lambda>r. case r of Inl e \<Rightarrow> Ok (O_Bytes [] e, m) | Inr m' \<Rightarrow> Ok (O_None, m'))"
| "run_bop (B_Append b) m = obind (mf_Append (Some b) m) (\<lambda>r. case r of Inl e \<Rightarrow> Ok (O_Bytes [] e, m) | Inr m' \<Rightarrow> Ok (O_None, m'))"
| "run_bop (B_Read n) m = obind (mf_Read True n m) (\<lambda>(d, e, m'). Ok (O_Bytes d e, m'))"
| "run_bop (B_Remove n) m = obind (mf_Remove n m) (\<lambda>(k, e, m'). Ok (O_Removed k e, m'))"
| "run_bop B_Detach m = (let (b, m') = mf_DetachFirstBlock m in Ok (O_Block (map_option mb_data b), m'))"
| "run_bop B_Merge m = obind (mf_MergeBlocksAndDetach m) (\<lambda>(b, m'). Ok (O_Block (map_option mb_data b), m'))"
| "run_bop B_Cleanup m = Ok (O_None, mf_Cleanup m)"

primrec run_bops :: "buf_op list \<Rightarrow> msg_buffer \<Rightarrow> (buf_out list \<times> msg_buffer) outcome" where
  "run_bops [] m = Ok ([], m)"
| "run_bops (p # ps) m = obind (run_bop p m) (\<lambda>(out, m1). obind (run_bops ps m1) (\<lambda>(outs, m2). Ok (out # outs, m2)))"

text \<open>The queue: an operation on the bytes \<open>q\<close> may give \<open>out\<close> and leave \<open>q'\<close>. The first block holds some of the bytes at
the front; which, the queue does not tell.\<close>

primrec queue_op :: "buf_op \<Rightarrow> byte list \<Rightarrow> buf_out \<Rightarrow> byte list \<Rightarrow> bool" where
  "queue_op (B_Write bs) q out q' \<longleftrightarrow> out = O_None \<and> q' = q @ bs"
| "queue_op (B_Append b) q out q' \<longleftrightarrow> out = O_None \<and> q' = q @ mb_data b"
| "queue_op (B_Read n) q out q' \<longleftrightarrow> out = O_Bytes (take n q) (if n \<le> length q then ERROR_SUCCESS else ERROR_NO_SUCH) \<and> q' = drop n q"
| "queue_op (B_Remove n) q out q' \<longleftrightarrow> q' = drop n q \<and>
     out = O_Removed (min n (length q)) (if n = 0 then ERROR_ARG else if n \<le> length q then ERROR_SUCCESS else ERROR_NO_SUCH)"
| "queue_op B_Detach q out q' \<longleftrightarrow> (if q = [] then out = O_Block None \<and> q' = [] else \<exists>d. d \<noteq> [] \<and> out = O_Block (Some d) \<and> q = d @ q')"
| "queue_op B_Merge q out q' \<longleftrightarrow> q' = [] \<and> out = O_Block (if q = [] then None else Some q)"
| "queue_op B_Cleanup q out q' \<longleftrightarrow> out = O_None \<and> q' = []"

inductive queue_run :: "buf_op list \<Rightarrow> byte list \<Rightarrow> buf_out list \<Rightarrow> byte list \<Rightarrow> bool" where
  queue_run_Nil: "queue_run [] q [] q"
| queue_run_Cons: "queue_op p q out q1 \<Longrightarrow> queue_run ps q1 outs q2 \<Longrightarrow> queue_run (p # ps) q (out # outs) q2"

primrec bop_ok :: "buf_op \<Rightarrow> bool" where
  "bop_ok (B_Write bs) \<longleftrightarrow> length bs < npos"
| "bop_ok (B_Append b) \<longleftrightarrow> mb_own b \<and> mb_size b < npos"
| "bop_ok (B_Read n) \<longleftrightarrow> True"
| "bop_ok (B_Remove n) \<longleftrightarrow> True"
| "bop_ok B_Detach \<longleftrightarrow> True"
| "bop_ok B_Merge \<longleftrightarrow> True"
| "bop_ok B_Cleanup \<longleftrightarrow> True"

lemma run_bop_ok:
  assumes m: "mf_ok m" and ok: "bop_ok p"
  shows "\<exists>out m'. run_bop p m = Ok (out, m') \<and> mf_ok m' \<and> queue_op p (mf_data m) out (mf_data m')"
proof (cases p)
  case (B_Write bs)
  then show ?thesis using mf_Write_ok [OF m, of bs] ok by auto
next
  case (B_Append b)
  then show ?thesis using mf_Append_ok [OF m, of b] ok by auto
next
  case (B_Read n)
  then show ?thesis using read_blocks_ok [of "mf_blocks m" n] m by (auto simp: mf_Read_def mf_ok_def mf_data_def)
next
  case (B_Remove n)
  then show ?thesis using remove_blocks_ok [of "mf_blocks m" n] m by (auto simp: mf_Remove_def mf_ok_def mf_data_def)
next
  case B_Detach
  then show ?thesis using m by (cases "mf_blocks m") (auto simp: mf_DetachFirstBlock_def mf_ok_def mf_data_def live_avail(2) mb_live_def)
next
  case B_Merge
  show ?thesis
  proof (cases "mf_blocks m")
    case (Cons b bs)
    then show ?thesis using B_Merge merge_blocks_ok [of b bs] m by (auto simp: mf_MergeBlocksAndDetach_def mf_ok_def mf_data_def mb_live_def)
  qed (use B_Merge m in \<open>simp add: mf_MergeBlocksAndDetach_def mf_data_def\<close>)
next
  case B_Cleanup
  then show ?thesis using m by (simp add: mf_Cleanup_def mf_ok_def mf_data_def)
qed

text \<open>C24: the chain of blocks is a queue of bytes. On a buffer whose size is the number of its bytes, with blocks that own
their memory, any sequence of operations runs without a failed assertion, keeps the buffer so, and is explained by a queue: \<open>Write\<close>
and \<open>Append\<close> put bytes at the end, \<open>Read\<close> and \<open>Remove\<close> take as many of the bytes in front as there are and report the error
when there are too few, \<open>DetachFirstBlock\<close> takes some of them and \<open>MergeBlocksAndDetach\<close> all.\<close>

theorem msg_buffer_byte_queue:
  assumes "mf_ok m" "list_all bop_ok ps"
  shows "\<exists>outs m'. run_bops ps m = Ok (outs, m') \<and> mf_ok m' \<and> queue_run ps (mf_data m) outs (mf_data m')"
  using assms
proof (induction ps arbitrary: m)
  case (Cons p ps)
  obtain out m1 where 1: "run_bop p m = Ok (out, m1)" "mf_ok m1" "queue_op p (mf_data m) out (mf_data m1)"
    using run_bop_ok [OF Cons.prems(1), of p] Cons.prems(2) by auto
  obtain outs m2 where "run_bops ps m1 = Ok (outs, m2)" "mf_ok m2" "queue_run ps (mf_data m1) outs (mf_data m2)"
    using Cons.IH [OF 1(2)] Cons.prems(2) by auto
  then show ?case using 1 by (auto intro: queue_run_Cons)
qed (auto intro: queue_run_Nil)

inductive_cases queue_run_ConsE: "queue_run (p # ps) q outs q2"
inductive_cases queue_run_NilE: "queue_run [] q outs q2"

theorem msg_buffer_byte_queue_witness:
  "\<exists>m'. run_bops [B_Write [1, 2, 3], B_Write [4], B_Read 2, B_Remove 1, B_Read 5] MessageBuffer_new
     = Ok ([O_None, O_None, O_Bytes [1, 2] ERROR_SUCCESS, O_Removed 1 ERROR_SUCCESS, O_Bytes [4] ERROR_NO_SUCH], m') \<and> mf_size m' = 0"
proof -
  let ?ps = "[B_Write [1, 2, 3], B_Write [4], B_Read 2, B_Remove 1, B_Read 5]"
  have "mf_ok MessageBuffer_new" "mf_data MessageBuffer_new = []" by (simp_all add: MessageBuffer_new_def mf_ok_def mf_data_def)
  with msg_buffer_byte_queue [of MessageBuffer_new ?ps] obtain outs m'
    where m': "run_bops ?ps MessageBuffer_new = Ok (outs, m')" "mf_ok m'" "queue_run ?ps [] outs (mf_data m')"
    by (auto simp: npos_def)
  from m'(3) have "outs = [O_None, O_None, O_Bytes [1, 2] ERROR_SUCCESS, O_Removed 1 ERROR_SUCCESS, O_Bytes [4] ERROR_NO_SUCH] \<and> mf_data m' = []"
    by (elim queue_run_ConsE queue_run_NilE) simp
  then show ?thesis using m' by (simp add: mf_ok_def del: run_bops.simps)
qed

end
