(* ===== verification/Spec2Isabelle.thy ===== *)
theory Spec2Isabelle
  imports Lock_Free_Queue Relay Proto_Fields Coroutine_Properties Rpc_Wire Main_Loops Libco_Timeout Libco_Stack Message_Buffer
begin

text \<open>
  Verification of a coroutine-based protobuf RPC framework (src/rpc) together with the parts of the network
  library llbc (src/llbc), of the coroutine library libco (src/libco) and of the protobuf wire format
  (src/protobuf-3.20.0) that it runs on.

  \<^bold>\<open>The program.\<close> A client coroutine calls a method through an \<open>RpcChannel\<close>: \<open>CallMethod\<close> encodes the name of the service, the name of
  the method, the id of the coroutine and the request into an \<open>LLBC_Packet\<close>, gives it to the connection
  manager \<open>ConnMgr\<close> and yields. Llbc turns the packet into bytes, a connection carries them in
  arbitrary pieces, and the protocol stack of the server puts the packet together again; the service queues it as an
  event. In its main loop the server lets \<open>RpcMgr\<close> handle the event: the method runs, if need be on a new coroutine, and its
  response goes back in the same way. The client's \<open>RpcMgr\<close> finds the coroutine by the id in the response and
  resumes it. A call that gets no response is ended by a timer, whose scheduler the coroutine manager
  \<open>RpcCoroMgr\<close> drives in \<open>Update\<close>; coroutines themselves are those of libco.

  \<^bold>\<open>Conventions.\<close> Code that can crash returns an \<open>outcome\<close>: \<open>Ok\<close>, a \<open>Fault\<close> (null dereference, access
  outside a block, use after free, failed assertion, a call stack that is full, a switch into a coroutine that has ended) or
  \<open>Fuel\<close>. The error convention of llbc is the type \<open>result\<close>. State is passed explicitly in records with
  the members of the classes; pointers are natural numbers into maps of the objects that have not been freed. Integers are words where their
  width matters. Locks, logging and performance counters are left out.

  \<^bold>\<open>Idealisations.\<close> Three choices are stronger than what C++ promises. Memory that nobody has written holds one fixed byte
  (\<open>junk_byte\<close>). Addresses of freed objects are not used again, so that an access to one is always seen as a fault. The two threads at the ring
  buffer interleave at single accesses to memory in program order (sequential consistency), so nothing is claimed for weaker memory models.

  \<^bold>\<open>Theories\<close>, from the bottom up:

  \<^item> \<open>Prelude\<close>: bytes, memory, outcomes, errors, and lemmas that all share.
  \<^item> \<open>Lock_Free_Queue\<close> (\<open>LockFreeQueue\<close> in rpc/src/conn_mgr.h): \<open>Push\<close>, \<open>Pop\<close>, \<open>GetSize\<close> on the ring, alone and as two
    interleaved threads. It is a bounded FIFO queue (C14), also between two threads (C15).
  \<^item> \<open>Endian\<close> (llbc/common/Endian*): conversion to network order, right at 16 and 32 bits (C29) and not at 64 (C40).
  \<^item> \<open>Message_Block\<close>, \<open>Message_Buffer\<close> (llbc/core/thread/MessageBlock*, MessageBuffer*): byte blocks whose positions never leave the
    buffer (C32), and chains of them, which are queues of bytes (C24).
  \<^item> \<open>Byte_Stream\<close> (llbc/common/Stream*): the serialisation stream; \<open>Replace\<close>, \<open>Insert\<close>, \<open>Erase\<close> (C28).
  \<^item> \<open>Packet\<close> (llbc/comm/Packet*): packets and typed values in them; containers read back as written (C27).
  \<^item> \<open>Packet_Protocol\<close> (llbc/comm/PacketHeaderAssembler.cpp, protocol/PacketProtocol.cpp): header layout, \<open>Send\<close>, \<open>Recv\<close>.
    \<open>Recv\<close> implements the framing of a byte stream under every splitting (C5), so packets arrive as they were sent (C10).
  \<^item> \<open>Binary_Heap\<close>, \<open>Timer\<close> (llbc/core/timer): the heap is a priority queue (C13); timers, their reference counts and
    the scheduler (C25).
  \<^item> \<open>Service\<close>, \<open>Conn_Mgr\<close> (llbc/comm/ServiceImpl*, rpc/src/conn_mgr*): sessions, handlers, channels (C26).
  \<^item> \<open>Coroutine\<close> (libco/co_routine.cpp, rpc/src/rpc_coro_mgr*): libco's create, resume, yield and release with the call stack, and
    \<open>Coro\<close> and \<open>RpcCoroMgr\<close>. The code of a coroutine is a program (\<open>'g prog\<close>): a tree of its
    effects with continuations, so a suspended coroutine is the program that is left of it. \<open>Coroutine_Spec\<close> is the abstract view, a
    table of continuations with deadlines; \<open>Coroutine_Safety\<close> has the invariant \<open>winv\<close>; \<open>Coroutine_Properties\<close> shows that the operations implement
    the view (C6), that a waiting coroutine is woken (C9), that \<open>Update\<close> ends (C16), and what \<open>Stop\<close> does (C33).
  \<^item> \<open>Rpc\<close> (rpc/src/rpc_channel*, rpc_mgr*): the call and both handlers. \<open>Rpc_Calls\<close> has the lemmas on a call and
    on a request; \<open>Rpc_Properties\<close> the outcomes of a call (C3), the answer to a request (C4), and three defects: a late response
    goes to the next call (C36), an unknown method crashes the server (C37), so does a call from the main routine (C38).
  \<^item> \<open>Rpc_Process\<close>: a process as a step relation; no reachable step faults (C2).
  \<^item> \<open>Echo\<close>, \<open>Relay\<close>, \<open>Main_Loops\<close> (rpc/src/echo_service_impl.cpp, server/, client/): the example service in every reachable state (C35), a
    relayed request (C18, C19), the ticks of the server (C17), the stress test (C34, C39).
  \<^item> \<open>Rpc_Wire\<close> and this theory: a call over the wire, end to end (C1).
  \<^item> \<open>Proto_Wire\<close>, \<open>Proto_Fields\<close> (google/protobuf: io/coded_stream*, parse_context*, wire_format_lite.h): all readers of varints agree
    (C20), round trips (C21, C22), ZigZag (C30), sizes (C31).
  \<^item> \<open>Libco_Link\<close>, \<open>Libco_Timeout\<close>, \<open>Libco_Stack\<close> (libco/co_routine.cpp): the intrusive lists, which are lists (C11); the timing wheel, which is
    a list sorted by time (C8), a round of the event loop (C12), condition variables (C23); shared stacks (C7).

  \<^bold>\<open>Interfaces\<close> between components are locales, interpreted on the definitions of the code: \<open>bounded_fifo\<close> (the ring), \<open>byte_fifo\<close> (blocks, for
  packets and buffers), \<open>packet_codec\<close> and \<open>entry_codec\<close> (what can be put into packets), \<open>prio_queue\<close> (the heap, for the
  scheduler), \<open>timeout_client\<close> (what the scheduler asks of the handlers of timers; the coroutine manager), \<open>node_lists\<close> (libco's lists, for
  timeouts and conditions).

  \<^bold>\<open>Bounds and fuel.\<close> Where a loop or a recursion has fuel, a theorem says how much is enough. The loop of \<open>Recv\<close> gets one unit per byte of
  the block and one more, as the model passes it. \<open>Update\<close> takes one unit per timer in the heap and one more (C16). The depth of nested resumes
  is an argument of the coroutine operations; a resumption never nests in a reachable state, so the theorems hold for every positive depth, and
  C2 shows at depth 1 that no step of a process runs out of it.
  The loops over libco's lists take more units than there are nodes. Elsewhere recursion is structural or has a termination proof.
  Coroutine ids are assumed below 2^31 - 1, where the counter overflows; packets below 2 GB; times in the timing wheel less
  than 2^31 ms apart, since the code narrows them to \<open>int\<close> (\<open>TakeAllTimeout_stalls\<close> shows what happens otherwise).

  \<^bold>\<open>Parameters.\<close> Code that is not in the repository is an argument of the definitions: the generated codecs of the messages (of which it is
  assumed that parsing inverts serialising, in the theorems that need it, with a concrete codec in the witnesses), the byte order of a
  host, the answers of the object pools, the ids and events that the poller hands out, and the callbacks of the event loop.

  \<^bold>\<open>Not modelled.\<close> The assembler of the context switch and the contents of registers; system calls, hooks, epoll and
  sockets, whose effect is the arrival of bytes in pieces and of events in the queue; \<open>co_poll\<close>, which passes file descriptors
  to them; threads other than in the ring buffer; starting and stopping a service and the life cycle of components; encoders of packets and object
  pools; logging, signal handling and command lines; the generated classes, descriptors and reflection of protobuf and its
  compiler and other languages; the parts of llbc that no remote call reaches.
\<close>

section \<open>A remote call from end to end\<close>

text \<open>C1: a remote call. A coroutine of the client calls a method of the server; the call sends one packet and waits.
The client's protocol stack turns the packet into bytes; the network cuts them into any pieces; the server's
stack puts the packet together again, the server runs the method and sends one response packet, which travels
back in the same way. When it arrives, the client's coroutine goes on behind the call with exactly the
error text and the message that the method gave. Both processes may be in any state of their invariant: the client may
have done anything in between, as long as the call still waits. The byte orders of the hosts do not matter.\<close>

theorem rpc_over_the_wire:
  fixes wc :: "'g world" and ws :: "'h world"
  assumes client: "winv wc" "w_maxCoroId wc < 2 ^ 31 - 1" "env_ok envc" "link_up sidc (w_conn wc)"
      "\<And>c reason rsp. result_ok md reason rsp \<Longrightarrow> good (k reason rsp) True c"
    and server: "winv ws" "env_ok envs" "link_up sids (w_conn ws)" "subscribed (w_conn ws)" "registered svcs md f" "\<not> md_isCoroRequired md"
    and call: "method_ok md" "codec_fits (md_req md) req" "answers md f req ctl rsp ls" "fits_str (ctl_errorText ctl)" "codec_fits (md_rsp md) rsp"
    and wires: "receiver_ok rcvs" "re_sessionId rcvs = sids" "receiver_ok rcvc" "re_sessionId rcvc = sidc"
      "headerLen + length (req_data md 0 req) \<le> re_maxPacketLen rcvs"
      "headerLen + length (rsp_data md 0 (ctl_errorText ctl) rsp) \<le> re_maxPacketLen rcvc" "re_maxPacketLen rcvc + 8192 \<le> 2 ^ 31"
  shows "\<exists>c wc1 wc2 p. CreateCoro (\<lambda>_. CallMethod envc sidc md req k) 0 wc = Ok (c, wc1) \<and> Coro_Resume 1 VNil c wc1 = Ok (None, wc2)
     \<and> winv wc2 \<and> awaiting (view wc2) c (w_maxCoroId wc + 1) envc md k (ts_now wc + CoroTimeoutTime)
     \<and> sent_packets (w_conn wc2) = sent_packets (w_conn wc) @ [p]
     \<and> carries (env_me envc) (env_me envs) rcvs p (\<lambda>q.
         \<exists>ws' r. HandleEvent 1 envs svcs (DataArrival q) ws = Ok ws' \<and> winv ws' \<and> sent_packets (w_conn ws') = sent_packets (w_conn ws) @ [r]
           \<and> carries (env_me envs) (env_me envc) rcvc r
               (returns_from envc sidc c (w_maxCoroId wc + 1) md k (ts_now wc + CoroTimeoutTime) (ctl_errorText ctl) rsp))"
proof -
  let ?id = "w_maxCoroId wc + 1" and ?err = "ctl_errorText ctl"
  have id: "is_int ?id" using client(1,2) by (simp add: winv_def is_int_def)
  have len: "length (req_data md ?id req) = length (req_data md 0 req)" "length (rsp_data md ?id ?err rsp) = length (rsp_data md 0 ?err rsp)"
    by (simp_all add: req_data_def rsp_data_def)
  obtain c wc1 wc2 p where start: "CreateCoro (\<lambda>_. CallMethod envc sidc md req k) 0 wc = Ok (c, wc1)" "Coro_Resume (Suc 0) VNil c wc1 = Ok (None, wc2)"
    "winv wc2" "is_request p sidc md ?id req" "w_conn wc2 = posted p (w_conn wc)"
    "awaiting (view wc2) c ?id envc md k (ts_now wc + CoroTimeoutTime)"
    using call_starts [OF client(1,2,3) call(1,2) client(4), where k = k and args = 0 and n = 0] client(5) by blast
  let ?p = "p\<lparr>pk_senderSvcId := service_id (w_conn wc)\<rparr>"
  have p: "is_request ?p sidc md ?id req" "sent_packets (w_conn wc2) = sent_packets (w_conn wc) @ [?p]"
    using start(4,5) client(4) by (simp_all add: is_request_def)
  have answer: "carries (env_me envs) (env_me envc) rcvc r (returns_from envc sidc c ?id md k (ts_now wc + CoroTimeoutTime) ?err rsp)"
    if "is_response r sids md ?id ?err rsp" for r
    using response_returns [OF server(2) client(3) wires(3) that id call(5)] wires(4,6,7) len(2) by simp
  have "link_up (re_sessionId rcvs) (w_conn ws)" "headerLen + length (req_data md ?id req) \<le> re_maxPacketLen rcvs"
    using server(3) wires(2,5) len(1) by simp_all
  from request_answered [OF client(3) server(2) wires(1) p(1) id call(1,2) server(1,4) this(1) server(5,6) call(3-5) this(2)]
  have "carries (env_me envc) (env_me envs) rcvs ?p (\<lambda>q.
         \<exists>ws' r. HandleEvent 1 envs svcs (DataArrival q) ws = Ok ws' \<and> winv ws' \<and> sent_packets (w_conn ws') = sent_packets (w_conn ws) @ [r]
           \<and> carries (env_me envs) (env_me envc) rcvc r
               (returns_from envc sidc c ?id md k (ts_now wc + CoroTimeoutTime) ?err rsp))"
    unfolding wires(2) by (rule carries_mono) (use answer in blast)
  then show ?thesis
    using start(1,2,3,6) p(2) unfolding One_nat_def by blast
qed

theorem rpc_over_the_wire_witness:
  "let envs = demo_rpc_env\<lparr>env_me := BigEndian\<rparr>; rcv = demo_env\<lparr>re_sessionId := 1\<rparr>;
       wc = demo_world (None, None); ws = demo_world () in
   \<exists>c wc1 wc2 p. CreateCoro (\<lambda>_. CallMethod demo_rpc_env 1 demo_method [104, 105] record_end) 0 wc = Ok (c, wc1)
     \<and> Coro_Resume 1 VNil c wc1 = Ok (None, wc2) \<and> winv wc2 \<and> awaiting (view wc2) c 1 demo_rpc_env demo_method record_end 5000
     \<and> sent_packets (w_conn wc2) = [p]
     \<and> carries LittleEndian BigEndian rcv p (\<lambda>q. \<exists>ws' r. HandleEvent 1 envs demo_services (DataArrival q) ws = Ok ws' \<and> winv ws'
         \<and> sent_packets (w_conn ws') = [r]
         \<and> carries BigEndian LittleEndian rcv r (returns_from demo_rpc_env 1 c 1 demo_method record_end 5000 [] [62, 104, 105]))"
proof -
  let ?envs = "demo_rpc_env\<lparr>env_me := BigEndian\<rparr>" and ?rcv = "demo_env\<lparr>re_sessionId := 1\<rparr>"
  have a: "env_ok ?envs" "receiver_ok ?rcv" "w_maxCoroId (demo_world (None, None)) < 2 ^ 31 - 1" "\<not> md_isCoroRequired demo_method"
    "codec_fits (md_req demo_method) [104, 105]" "codec_fits (md_rsp demo_method) ([62] @ [104, 105])" "re_sessionId ?rcv = 1"
    "fits_str (ctl_errorText RpcController_new)" "re_maxPacketLen ?rcv + 8192 \<le> 2 ^ 31"
    "headerLen + length (req_data demo_method 0 [104, 105]) \<le> re_maxPacketLen ?rcv"
    "headerLen + length (rsp_data demo_method 0 (ctl_errorText RpcController_new) ([62] @ [104, 105])) \<le> re_maxPacketLen ?rcv"
    by (simp_all add: demo_ok env_ok_def receiver_ok_def host_order_def demo_env_def fits_str_def RpcController_new_def
        req_data_def rsp_data_def headerLen_def) (simp_all add: demo_rpc_env_def demo_method_def demo_codec_def)
  have l: "link_up 1 (w_conn (demo_world (None, None)))" "link_up 1 (w_conn (demo_world ()))" "subscribed (w_conn (demo_world ()))"
    by (simp_all add: demo_ok)
  have w0: "ts_now (demo_world (None, None)) + CoroTimeoutTime = 5000" "sent_packets (w_conn (demo_world g)) = []"
    "env_me demo_rpc_env = LittleEndian" "ctl_errorText RpcController_new = []" for g
    by (simp_all add: demo_ok CoroTimeoutTime_def sent_packets_def demo_svc_def demo_rpc_env_def RpcController_new_def)
  show ?thesis
    using rpc_over_the_wire [OF demo_ok(5) a(3) demo_ok(1) l(1) _ demo_ok(5) a(1) l(2,3) demo_answers(1) a(4) demo_ok(2) a(5)
        demo_answers(2) a(8,6,2,7,2,7,10,11,9), where k = record_end, OF good_record_end]
    unfolding Let_def w0 by (simp add: demo_ok w0(3) del: Coro_Resume.simps)
qed

end
